(* ===== verification/Prelude.thy ===== *)
theory Prelude
  imports Main "HOL-Library.Word" "HOL-Library.Signed_Division"
begin

text \<open>
  Shared vocabulary of the development: the machine integer types, the ways a C function of
  this repository can fail to return (a call of \<open>exit(1)\<close> or undefined behaviour), the
  sequencing operator for such functions, checked array accesses and checked \<open>int\<close>
  arithmetic, and the lemma collections the component proofs share.
\<close>

unbundle bit_operations_syntax

section \<open>Machine integers\<close>

type_synonym u8 = "8 word"
type_synonym u16 = "16 word"
type_synonym u32 = "32 word"
type_synonym u64 = "64 word"

text \<open>
  A C \<open>int\<close> is a HOL \<open>int\<close> in the range of 32-bit two's complement; every arithmetic
  result goes through \<open>c_int\<close>, because signed overflow is undefined in C.
\<close>

definition in_int :: "int \<Rightarrow> bool" where
  "in_int v \<longleftrightarrow> - (2 ^ 31) \<le> v \<and> v < 2 ^ 31"

text \<open>The implicit conversions \<open>size_t \<rightarrow> int\<close> and \<open>int \<rightarrow> size_t\<close> (64-bit \<open>size_t\<close>).\<close>

definition int_of_size :: "nat \<Rightarrow> int" where
  "int_of_size n = signed_take_bit 31 (int n)"

definition size_of_int :: "int \<Rightarrow> nat" where
  "size_of_int i = nat (take_bit 64 i)"

section \<open>Ways of not returning\<close>

text \<open>The \<open>exit(1)\<close> calls of bytecode-vm, one constructor per message on \<open>stderr\<close>.\<close>

datatype exit_cause =
    Stack_Overflow        \<comment> \<open>"CANNOT PUSH --- STACK OVERFLOW"\<close>
  | Stack_Underflow       \<comment> \<open>"CANNOT POP --- STACK OVERFLOW"\<close>
  | Call_Overflow         \<comment> \<open>"CANNOT CPUSH --- STACK OVERFLOW"\<close>
  | Call_Underflow        \<comment> \<open>"CANNOT CPOP --- STACK OVERFLOW"\<close>
  | Division_By_Zero      \<comment> \<open>"division by zero"\<close>
  | Unknown_Opcode u8     \<comment> \<open>"unknown opcode: 0x%02x"\<close>
  | Unexpected_Char char  \<comment> \<open>"unexpected character: '%c'"\<close>
  | Not_A_Statement       \<comment> \<open>"AAAAAAAAAAA"\<close>

datatype undef_cause =
    Out_Of_Bounds         \<comment> \<open>an access outside an array or an allocated block\<close>
  | Signed_Overflow       \<comment> \<open>\<open>int\<close> arithmetic out of range\<close>
  | Missing_Return        \<comment> \<open>the value of a call that fell off the end of its function is used\<close>
  | Indeterminate_Read    \<comment> \<open>a field of an uninitialised object decides control flow\<close>

text \<open>
  \<open>Out_Of_Fuel\<close> is no behaviour of the code: it is the answer of a recursion of the model
  whose step budget was too small. Every function that can give it has a lemma saying which
  budget is enough.
\<close>

datatype c_error =
    Exit exit_cause
  | Undef undef_cause
  | Halted              \<comment> \<open>the kernel stops the processor for good (\<open>while(1) hlt\<close>)\<close>
  | Out_Of_Fuel

type_synonym 'a result = "c_error + 'a"

definition andthen :: "'e + 'a \<Rightarrow> ('a \<Rightarrow> 'e + 'b) \<Rightarrow> 'e + 'b" where
  "andthen r f = (case r of Inl e \<Rightarrow> Inl e | Inr x \<Rightarrow> f x)"

lemma andthen_simps [simp]:
  "andthen (Inl e) f = Inl e"
  "andthen (Inr x) f = f x"
  by (simp_all add: andthen_def)

lemma andthen_Inr_iff: "andthen r f = Inr y \<longleftrightarrow> (\<exists>x. r = Inr x \<and> f x = Inr y)"
  by (cases r) auto

lemma andthen_Inl_iff:
  "andthen r f = Inl e \<longleftrightarrow> r = Inl e \<or> (\<exists>x. r = Inr x \<and> f x = Inl e)"
  by (cases r) auto

lemma andthen_InrE [elim!]:
  assumes "andthen r f = Inr y"
  obtains x where "r = Inr x" "f x = Inr y"
  using assms by (auto simp: andthen_Inr_iff)

lemma andthen_assoc: "andthen (andthen r f) g = andthen r (\<lambda>x. andthen (f x) g)"
  by (cases r) simp_all

lemma andthen_cong [fundef_cong]:
  "r = r' \<Longrightarrow> (\<And>x. r' = Inr x \<Longrightarrow> f x = g x) \<Longrightarrow> andthen r f = andthen r' g"
  by (cases r') auto

section \<open>Checked accesses and checked arithmetic\<close>

definition arr_get :: "'a list \<Rightarrow> int \<Rightarrow> 'a result" where
  "arr_get xs i =
     (if 0 \<le> i \<and> i < int (length xs) then Inr (xs ! nat i) else Inl (Undef Out_Of_Bounds))"

definition arr_set :: "'a list \<Rightarrow> int \<Rightarrow> 'a \<Rightarrow> 'a list result" where
  "arr_set xs i v =
     (if 0 \<le> i \<and> i < int (length xs) then Inr (xs[nat i := v]) else Inl (Undef Out_Of_Bounds))"

lemma arr_get_ok [simp]: "0 \<le> i \<Longrightarrow> i < int (length xs) \<Longrightarrow> arr_get xs i = Inr (xs ! nat i)"
  by (simp add: arr_get_def)

lemma arr_get_nat [simp]: "n < length xs \<Longrightarrow> arr_get xs (int n) = Inr (xs ! n)"
  by (simp add: arr_get_def)

lemma arr_set_ok [simp]: "0 \<le> i \<Longrightarrow> i < int (length xs) \<Longrightarrow> arr_set xs i v = Inr (xs[nat i := v])"
  by (simp add: arr_set_def)

lemma arr_set_nat [simp]: "n < length xs \<Longrightarrow> arr_set xs (int n) v = Inr (xs[n := v])"
  by (simp add: arr_set_def)

lemma arr_get_InrE:
  assumes "arr_get xs i = Inr v"
  obtains "0 \<le> i" "nat i < length xs" "v = xs ! nat i"
  using assms by (auto simp: arr_get_def split: if_splits)

lemma arr_set_InrE:
  assumes "arr_set xs i v = Inr ys"
  obtains "0 \<le> i" "nat i < length xs" "ys = xs[nat i := v]"
  using assms by (auto simp: arr_set_def split: if_splits)

lemma arr_set_length: "arr_set xs i v = Inr ys \<Longrightarrow> length ys = length xs"
  by (auto elim: arr_set_InrE)

lemma arr_get_arr_set:
  "arr_set xs i v = Inr ys \<Longrightarrow> arr_get ys j = (if j = i then Inr v else arr_get xs j)"
  by (auto simp: arr_set_def arr_get_def nth_list_update nat_eq_iff split: if_splits)

definition c_int :: "int \<Rightarrow> int result" where
  "c_int v = (if in_int v then Inr v else Inl (Undef Signed_Overflow))"

lemma c_int_ok [simp]: "in_int v \<Longrightarrow> c_int v = Inr v"
  by (simp add: c_int_def)

lemma c_int_InrD: "c_int v = Inr w \<Longrightarrow> w = v \<and> in_int w"
  by (auto simp: c_int_def split: if_splits)

text \<open>\<open>uint\<close> of a byte is an \<open>int\<close> between 0 and 255.\<close>

lemma uint_u8_bounds [simp]: "0 \<le> uint (b :: u8)" "uint (b :: u8) < 256"
  using uint_lt2p [of b] by simp_all

lemma unat_u8_less [simp]: "unat (b :: u8) < 256"
  using unsigned_less [of b] by simp

lemma in_int_byte [simp]: "in_int (uint (b :: u8))"
proof -
  have "- (2 ^ 31) \<le> (0::int)" "(256::int) < 2 ^ 31" by simp_all
  with uint_u8_bounds [of b] show ?thesis unfolding in_int_def by linarith
qed

lemma in_int_0_1 [simp]: "in_int 0" "in_int 1"
  by (simp_all add: in_int_def)

lemma int_of_size_small: "n < 2 ^ 31 \<Longrightarrow> int_of_size n = int n"
  by (simp add: int_of_size_def signed_take_bit_int_eq_self)

lemma size_of_int_nonneg: "0 \<le> i \<Longrightarrow> i < 2 ^ 64 \<Longrightarrow> size_of_int i = nat i"
  by (simp add: size_of_int_def take_bit_int_eq_self)

section \<open>Counted loops\<close>

text \<open>\<open>for\<close> loops over a list of values of the loop variable, each body a step that can fail.\<close>

fun each :: "('a \<Rightarrow> 's \<Rightarrow> 's result) \<Rightarrow> 'a list \<Rightarrow> 's \<Rightarrow> 's result" where
  "each f [] s = Inr s"
| "each f (x # xs) s = andthen (f x s) (each f xs)"

lemma each_append: "each f (xs @ ys) s = andthen (each f xs s) (each f ys)"
proof (induction xs arbitrary: s)
  case (Cons x xs)
  then show ?case by (cases "f x s") simp_all
qed simp

lemma each_cong [fundef_cong]:
  assumes "xs = ys" "s = t" "\<And>x u. x \<in> set ys \<Longrightarrow> f x u = g x u"
  shows "each f xs s = each g ys t"
proof -
  have "each f zs u = each g zs u" if "set zs \<subseteq> set ys" for zs u
    using that assms(3) by (induction zs arbitrary: u) (auto intro: andthen_cong)
  then show ?thesis using assms(1,2) by simp
qed

text \<open>A loop whose every step succeeds and acts on a view of the state like \<open>h\<close>.\<close>

lemma each_view:
  assumes "\<And>x s. x \<in> set xs \<Longrightarrow> ok s \<Longrightarrow> \<exists>s'. f x s = Inr s' \<and> ok s' \<and> view s' = h x (view s)" "ok s"
  shows "\<exists>s'. each f xs s = Inr s' \<and> ok s' \<and> view s' = fold h xs (view s)"
  using assms
proof (induction xs arbitrary: s)
  case (Cons x xs)
  obtain s1 where s1: "f x s = Inr s1" "ok s1" "view s1 = h x (view s)"
    using Cons.prems(1) [of x s] Cons.prems(2) by auto
  with Cons.IH [of s1] Cons.prems(1) show ?case by auto
qed simp

lemma fold_insert_set: "fold insert xs A = A \<union> set xs"
  by (induction xs arbitrary: A) auto

lemma fold_remove_set: "fold (\<lambda>x A. A - {x}) xs A = A - set xs"
  by (induction xs arbitrary: A) auto

lemma remove_nth:
  assumes "distinct xs" "k < length xs"
  shows "distinct (take k xs @ drop (Suc k) xs)"
    "set (take k xs @ drop (Suc k) xs) = set xs - {xs ! k}"
proof -
  obtain ys zs where "xs = ys @ xs ! k # zs" "length ys = k"
    using id_take_nth_drop [OF assms(2)] assms(2) by (metis length_take min.absorb4)
  then obtain y where "xs = ys @ y # zs" "xs ! k = y" "length ys = k" by blast
  with assms(1) show "distinct (take k xs @ drop (Suc k) xs)"
    "set (take k xs @ drop (Suc k) xs) = set xs - {xs ! k}" by auto
qed

section \<open>Bits of a byte\<close>

text \<open>\<open>1 << i\<close> is \<open>2 ^ i\<close> in simplified goals.\<close>

lemma bit_set_u8: "i < 8 \<Longrightarrow> bit (b OR 2 ^ i :: u8) j \<longleftrightarrow> bit b j \<or> i = j"
  by (auto simp: bit_simps)

lemma bit_clear_u8: "i < 8 \<Longrightarrow> bit (b AND NOT (2 ^ i) :: u8) j \<longleftrightarrow> bit b j \<and> i \<noteq> j"
  by (auto simp: bit_simps dest: bit_imp_le_length)

lemma bit_test_u8:
  assumes "i < 8"
  shows "(b AND 2 ^ i :: u8) = 0 \<longleftrightarrow> \<not> bit b i"
proof -
  have "b AND 2 ^ i = (if bit b i then 2 ^ i else 0)"
    by (intro bit_word_eqI) (auto simp: bit_simps)
  moreover have "(2 ^ i :: u8) \<noteq> 0"
    using assms by (auto simp: bit_eq_iff bit_simps)
  ultimately show ?thesis by auto
qed

section \<open>Unsigned arithmetic that does not wrap\<close>

lemma unat_plus_u32: "unat a + unat b < 2 ^ 32 \<Longrightarrow> unat (a + b :: u32) = unat a + unat b"
  using unat_add_lem [of a b] by simp

lemma unat_plus_u64: "unat a + unat b < 2 ^ 64 \<Longrightarrow> unat (a + b :: u64) = unat a + unat b"
  using unat_add_lem [of a b] by simp

lemma unat_to_u32: "unat (x :: u64) < 2 ^ 32 \<Longrightarrow> unat (ucast x :: u32) = unat x"
  by (simp add: unsigned_ucast_eq take_bit_nat_eq_self)

end
