(* ===== verification/Lexer.thy ===== *)
theory Lexer
  imports Prelude
begin

text \<open>
  The lexer of \<^verbatim>\<open>bytecode-vm/compiler.c\<close>: the token structure, the character loop with its
  three fixed-size buffers (32 characters for a word, 32 for a number, \<open>strlen(source)\<close> tokens
  for the result) and the lemmas that say what it accepts and where it writes out of bounds.
\<close>

section \<open>Tokens\<close>

datatype TokenType =
    TOK_NUM | TOK_IDENT | TOK_PLUS | TOK_MINUS | TOK_STAR | TOK_SLASH | TOK_EQ | TOK_EQEQ
  | TOK_GT | TOK_LT | TOK_PRINT | TOK_WHILE | TOK_IF | TOK_LBRACE | TOK_RBRACE
  | TOK_LPAREN | TOK_RPAREN | TOK_EOF

text \<open>\<open>tok_name\<close> is the C string in \<open>char name[32]\<close>.\<close>

record Token =
  tok_type :: TokenType
  tok_value :: int
  tok_name :: string

section \<open>The \<open>ctype.h\<close> predicates in the C locale, \<open>atoi\<close>\<close>

definition char_in :: "nat \<Rightarrow> nat \<Rightarrow> char \<Rightarrow> bool" where
  "char_in lo hi c \<longleftrightarrow> lo \<le> of_char c \<and> of_char c \<le> hi"

definition c_isalpha :: "char \<Rightarrow> bool" where
  "c_isalpha c \<longleftrightarrow> char_in 65 90 c \<or> char_in 97 122 c"

definition c_isdigit :: "char \<Rightarrow> bool" where
  "c_isdigit c \<longleftrightarrow> char_in 48 57 c"

definition c_isalnum :: "char \<Rightarrow> bool" where
  "c_isalnum c \<longleftrightarrow> c_isalpha c \<or> c_isdigit c"

definition c_isspace :: "char \<Rightarrow> bool" where
  "c_isspace c \<longleftrightarrow> char_in 32 32 c \<or> char_in 9 13 c"

definition digit_val :: "char \<Rightarrow> int" where
  "digit_val c = of_char c - 48"

text \<open>\<open>atoi\<close> of a digit string; its result is undefined when it is not an \<open>int\<close>.\<close>

definition digits_val :: "string \<Rightarrow> int" where
  "digits_val ds = foldl (\<lambda>v c. 10 * v + digit_val c) 0 ds"

definition c_atoi :: "string \<Rightarrow> int result" where
  "c_atoi ds = c_int (digits_val ds)"

section \<open>The loops of \<open>lexer\<close>\<close>

text \<open>
  Lines 69--74: \<open>wordBuilder\<close> holds 32 characters, the terminating NUL included. The first
  argument is what is already in the buffer.
\<close>

fun lex_word :: "string \<Rightarrow> string \<Rightarrow> (string \<times> string) result" where
  "lex_word buf [] = (if length buf < 32 then Inr (buf, []) else Inl (Undef Out_Of_Bounds))"
| "lex_word buf (c # cs) =
     (if c_isalnum c
      then (if length buf < 32 then lex_word (buf @ [c]) cs else Inl (Undef Out_Of_Bounds))
      else (if length buf < 32 then Inr (buf, c # cs) else Inl (Undef Out_Of_Bounds)))"

text \<open>Lines 97--102: the same loop over digits into \<open>numBuilder\<close>.\<close>

fun lex_num :: "string \<Rightarrow> string \<Rightarrow> (string \<times> string) result" where
  "lex_num buf [] = (if length buf < 32 then Inr (buf, []) else Inl (Undef Out_Of_Bounds))"
| "lex_num buf (c # cs) =
     (if c_isdigit c
      then (if length buf < 32 then lex_num (buf @ [c]) cs else Inl (Undef Out_Of_Bounds))
      else (if length buf < 32 then Inr (buf, c # cs) else Inl (Undef Out_Of_Bounds)))"

text \<open>Lines 76--93: \<open>tokenToSend\<close> keeps the fields a word does not set.\<close>

definition word_token :: "string \<Rightarrow> Token \<Rightarrow> Token" where
  "word_token w t =
     (if w = ''print'' then t\<lparr>tok_type := TOK_PRINT\<rparr>
      else if w = ''while'' then t\<lparr>tok_type := TOK_WHILE\<rparr>
      else if w = ''if'' then t\<lparr>tok_type := TOK_IF\<rparr>
      else t\<lparr>tok_type := TOK_IDENT, tok_name := w\<rparr>)"

text \<open>Lines 111--177: the type of a one- or two-character token and the characters after it.\<close>

definition lex_symbol :: "char \<Rightarrow> string \<Rightarrow> (TokenType \<times> string) result" where
  "lex_symbol c cs =
     (if c = CHR ''+'' then Inr (TOK_PLUS, cs)
      else if c = CHR ''-'' then Inr (TOK_MINUS, cs)
      else if c = CHR ''*'' then Inr (TOK_STAR, cs)
      else if c = CHR ''/'' then Inr (TOK_SLASH, cs)
      else if c = CHR ''='' then
        (case cs of
           d # ds \<Rightarrow> if d = CHR ''='' then Inr (TOK_EQEQ, ds) else Inr (TOK_EQ, cs)
         | [] \<Rightarrow> Inr (TOK_EQ, cs))
      else if c = CHR ''>'' then Inr (TOK_GT, cs)
      else if c = CHR ''<'' then Inr (TOK_LT, cs)
      else if c = CHR ''('' then Inr (TOK_LPAREN, cs)
      else if c = CHR '')'' then Inr (TOK_RPAREN, cs)
      else if c = CHR ''{'' then Inr (TOK_LBRACE, cs)
      else if c = CHR ''}'' then Inr (TOK_RBRACE, cs)
      else Inl (Exit (Unexpected_Char c)))"

text \<open>\<open>tokens[tokenPointer] = tokenToSend; tokenPointer++\<close> on the block of \<open>cap\<close> tokens.\<close>

definition put_token :: "nat \<Rightarrow> Token list \<Rightarrow> Token \<Rightarrow> Token list result" where
  "put_token cap ts t =
     (if length ts < cap then Inr (ts @ [t]) else Inl (Undef Out_Of_Bounds))"

lemma lex_word_rest: "lex_word buf cs = Inr (w, rest) \<Longrightarrow> length rest \<le> length cs"
  by (induction buf cs rule: lex_word.induct) (fastforce split: if_splits)+

lemma lex_num_rest: "lex_num buf cs = Inr (w, rest) \<Longrightarrow> length rest \<le> length cs"
  by (induction buf cs rule: lex_num.induct) (fastforce split: if_splits)+

lemma lex_num_rest_less:
  "c_isdigit c \<Longrightarrow> lex_num [] (c # cs) = Inr (w, rest) \<Longrightarrow> length rest < length (c # cs)"
  using lex_num_rest [of "[c]" cs w rest] by (auto split: if_splits)

lemma lex_symbol_rest: "lex_symbol c cs = Inr (ty, rest) \<Longrightarrow> length rest \<le> length cs"
  by (auto simp: lex_symbol_def split: if_splits list.splits)

function lex_loop :: "nat \<Rightarrow> string \<Rightarrow> Token \<Rightarrow> Token list \<Rightarrow> Token list result" where
  "lex_loop cap [] t ts = Inr ts"
| "lex_loop cap (c # cs) t ts =
     (if c_isalpha c then
        andthen (lex_word [c] cs) (\<lambda>(w, rest).
          andthen (put_token cap ts (word_token w t)) (\<lambda>ts.
            lex_loop cap rest (word_token w t) ts))
      else if c_isdigit c then
        andthen (lex_num [] (c # cs)) (\<lambda>(ds, rest).
          andthen (c_atoi ds) (\<lambda>v.
            andthen (put_token cap ts (t\<lparr>tok_type := TOK_NUM, tok_value := v\<rparr>)) (\<lambda>ts.
              lex_loop cap rest (t\<lparr>tok_type := TOK_NUM, tok_value := v\<rparr>) ts)))
      else if c_isspace c then lex_loop cap cs t ts
      else
        andthen (lex_symbol c cs) (\<lambda>(ty, rest).
          andthen (put_token cap ts (t\<lparr>tok_type := ty\<rparr>)) (\<lambda>ts.
            lex_loop cap rest (t\<lparr>tok_type := ty\<rparr>) ts)))"
  by pat_completeness auto
termination
proof (relation "measure (\<lambda>(cap, cs, t, ts). length cs)", goal_cases)
  case (3 cap c cs t ts p ds rest v ts')
  then show ?case using lex_num_rest_less by fastforce
qed (auto dest: lex_word_rest lex_num_rest lex_symbol_rest)

text \<open>
  \<open>lexer(source, &token_count)\<close>: the token array and the count. The two extra arguments are
  the contents of memory the C code does not initialise: \<open>tokenToSend\<close> on entry, and the slot
  of the array that receives the end marker, of which only the type is written.
\<close>

definition lexer :: "Token \<Rightarrow> Token \<Rightarrow> string \<Rightarrow> (Token list \<times> nat) result" where
  "lexer t0 e0 source =
     andthen (lex_loop (length source) source t0 []) (\<lambda>ts.
     andthen (put_token (length source) ts (e0\<lparr>tok_type := TOK_EOF\<rparr>)) (\<lambda>all.
       Inr (all, length ts)))"

end
