(* ===== verification/Parser.thy ===== *)
theory Parser
  imports Lexer
begin

text \<open>
  The recursive descent parser of \<^verbatim>\<open>bytecode-vm/compiler.c\<close>. The functions take the token
  array and the index \<open>*i\<close> and return the node with the new index. Every call and every loop
  iteration spends one unit of a fuel argument; \<open>parser_fuel\<close> is enough for every input.
\<close>

section \<open>Syntax trees\<close>

text \<open>
  A \<open>struct Node\<close> with the fields its type uses. \<open>NODE_UNINIT\<close> is the block that
  \<open>parse_factor\<close> returns straight from \<open>malloc\<close> when the token is none of its three cases.
  \<open>NODE_EQ\<close> of the enumeration is neither created nor tested anywhere.
\<close>

datatype node =
    NODE_NUM int
  | NODE_IDENT string
  | NODE_ADD node node
  | NODE_SUB node node
  | NODE_MUL node node
  | NODE_DIV node node
  | NODE_GT node node
  | NODE_LT node node
  | NODE_EQEQ node node
  | NODE_ASSIGN node node
  | NODE_PRINT node
  | NODE_WHILE node "node list"
  | NODE_IF node "node list"
  | NODE_UNINIT

section \<open>The parsing functions\<close>

text \<open>\<open>tokens[k].type\<close> and the token itself; the array ends with the end marker.\<close>

definition tok_at :: "Token list \<Rightarrow> nat \<Rightarrow> Token result" where
  "tok_at ts k = arr_get ts (int k)"

text \<open>
  The three loops over left-associative operators (lines 286--306, 312--327 and 333--347) have
  one shape: while the current token is an operator of this level, consume it, parse the right
  operand and build the node on the left one. \<open>ops\<close> gives the operators of the level.
\<close>

fun op_loop :: "(TokenType \<Rightarrow> (node \<Rightarrow> node \<Rightarrow> node) option) \<Rightarrow> (nat \<Rightarrow> (node \<times> nat) result) \<Rightarrow>
    nat \<Rightarrow> Token list \<Rightarrow> nat \<Rightarrow> node \<Rightarrow> (node \<times> nat) result" where
  "op_loop ops operand 0 ts i left = Inl Out_Of_Fuel"
| "op_loop ops operand (Suc n) ts i left =
     andthen (tok_at ts i) (\<lambda>t.
       case ops (tok_type t) of
         None \<Rightarrow> Inr (left, i)
       | Some mk \<Rightarrow>
           andthen (operand (i + 1)) (\<lambda>(right, i). op_loop ops operand n ts i (mk left right)))"

fun comparison_op :: "TokenType \<Rightarrow> (node \<Rightarrow> node \<Rightarrow> node) option" where
  "comparison_op TOK_EQEQ = Some NODE_EQEQ"
| "comparison_op TOK_GT = Some NODE_GT"
| "comparison_op TOK_LT = Some NODE_LT"
| "comparison_op _ = None"

fun expression_op :: "TokenType \<Rightarrow> (node \<Rightarrow> node \<Rightarrow> node) option" where
  "expression_op TOK_PLUS = Some NODE_ADD"
| "expression_op TOK_MINUS = Some NODE_SUB"
| "expression_op _ = None"

fun term_op :: "TokenType \<Rightarrow> (node \<Rightarrow> node \<Rightarrow> node) option" where
  "term_op TOK_SLASH = Some NODE_DIV"
| "term_op TOK_STAR = Some NODE_MUL"
| "term_op _ = None"

text \<open>
  The operands: \<open>parse_comparison\<close> calls \<open>parse_expression\<close>, \<open>parse_expression\<close> calls
  \<open>parse_term\<close>; \<open>parse_term\<close> calls \<open>parse_factor\<close> for the first operand and
  \<open>parse_expression\<close> for the others (lines 339 and 344).
\<close>

fun parse_comparison :: "nat \<Rightarrow> Token list \<Rightarrow> nat \<Rightarrow> (node \<times> nat) result"
and parse_expression :: "nat \<Rightarrow> Token list \<Rightarrow> nat \<Rightarrow> (node \<times> nat) result"
and parse_term :: "nat \<Rightarrow> Token list \<Rightarrow> nat \<Rightarrow> (node \<times> nat) result"
and parse_factor :: "nat \<Rightarrow> Token list \<Rightarrow> nat \<Rightarrow> (node \<times> nat) result"
where
  "parse_comparison 0 ts i = Inl Out_Of_Fuel"
| "parse_comparison (Suc n) ts i =
     andthen (parse_expression n ts i) (\<lambda>(left, i).
       op_loop comparison_op (parse_expression n ts) n ts i left)"
| "parse_expression 0 ts i = Inl Out_Of_Fuel"
| "parse_expression (Suc n) ts i =
     andthen (parse_term n ts i) (\<lambda>(left, i).
       op_loop expression_op (parse_term n ts) n ts i left)"
| "parse_term 0 ts i = Inl Out_Of_Fuel"
| "parse_term (Suc n) ts i =
     andthen (parse_factor n ts i) (\<lambda>(left, i).
       op_loop term_op (parse_expression n ts) n ts i left)"
| "parse_factor 0 ts i = Inl Out_Of_Fuel"
| "parse_factor (Suc n) ts i =
     andthen (tok_at ts i) (\<lambda>t.
       if tok_type t = TOK_IDENT then Inr (NODE_IDENT (tok_name t), i + 1)
       else if tok_type t = TOK_NUM then Inr (NODE_NUM (tok_value t), i + 1)
       else if tok_type t = TOK_LPAREN then
         andthen (parse_comparison n ts (i + 1)) (\<lambda>(e, i). Inr (e, i + 1))
       else Inr (NODE_UNINIT, i))"

text \<open>
  \<open>parse_statement\<close> and its loop over the statements of a body, into a block of 128
  pointers. After an identifier that is not followed by \<open>=\<close> control reaches the end of the
  function without a \<open>return\<close>, and every caller uses the value.
\<close>

fun parse_statement :: "nat \<Rightarrow> Token list \<Rightarrow> nat \<Rightarrow> (node \<times> nat) result"
and parse_body :: "nat \<Rightarrow> Token list \<Rightarrow> nat \<Rightarrow> node list \<Rightarrow> (node list \<times> nat) result"
where
  "parse_statement 0 ts i = Inl Out_Of_Fuel"
| "parse_statement (Suc n) ts i =
     andthen (tok_at ts i) (\<lambda>t.
       if tok_type t = TOK_IDENT then
         andthen (tok_at ts (i + 1)) (\<lambda>t1.
           if tok_type t1 = TOK_EQ then
             andthen (parse_comparison n ts (i + 2)) (\<lambda>(right, i).
               Inr (NODE_ASSIGN (NODE_IDENT (tok_name t)) right, i))
           else Inl (Undef Missing_Return))
       else if tok_type t = TOK_PRINT then
         andthen (parse_comparison n ts (i + 1)) (\<lambda>(left, i). Inr (NODE_PRINT left, i))
       else if tok_type t = TOK_IF then
         andthen (parse_comparison n ts (i + 1)) (\<lambda>(left, i).
         andthen (parse_body n ts (i + 1) []) (\<lambda>(body, i). Inr (NODE_IF left body, i + 1)))
       else if tok_type t = TOK_WHILE then
         andthen (parse_comparison n ts (i + 1)) (\<lambda>(left, i).
         andthen (parse_body n ts (i + 1) []) (\<lambda>(body, i). Inr (NODE_WHILE left body, i + 1)))
       else Inl (Exit Not_A_Statement))"
| "parse_body 0 ts i body = Inl Out_Of_Fuel"
| "parse_body (Suc n) ts i body =
     andthen (tok_at ts i) (\<lambda>t.
       if tok_type t \<noteq> TOK_RBRACE then
         andthen (parse_statement n ts i) (\<lambda>(s, i).
           if length body < 128 then parse_body n ts i (body @ [s])
           else Inl (Undef Out_Of_Bounds))
       else Inr (body, i))"

text \<open>
  \<open>parser\<close>: the statements up to the end marker, in a block that is doubled when it is full.
\<close>

fun parser_loop :: "nat \<Rightarrow> Token list \<Rightarrow> nat \<Rightarrow> nat \<Rightarrow> node list \<Rightarrow> node list result" where
  "parser_loop 0 ts i capacity statements = Inl Out_Of_Fuel"
| "parser_loop (Suc n) ts i capacity statements =
     andthen (tok_at ts i) (\<lambda>t.
       if tok_type t \<noteq> TOK_EOF then
         (let capacity = (if length statements = capacity then capacity * 2 else capacity)
          in andthen (parse_statement n ts i) (\<lambda>(s, i).
               if length statements < capacity
               then parser_loop n ts i capacity (statements @ [s])
               else Inl (Undef Out_Of_Bounds)))
       else Inr statements)"

definition parser_fuel :: "nat \<Rightarrow> nat" where
  "parser_fuel len = 4 * len + 8"

definition parser :: "Token list \<Rightarrow> node list result" where
  "parser ts = parser_loop (parser_fuel (length ts)) ts 0 128 []"

end
