(* ===== verification/Parser_Facts.thy ===== *)
theory Parser_Facts
  imports Parser
begin

text \<open>
  The parser as a program: the index only moves forward, every statement consumes a token, the
  fuel of \<open>parser\<close> is never exhausted and more fuel never changes an answer.
\<close>

section \<open>The index moves forward\<close>

lemma tok_at_Inr [elim]: "tok_at ts k = Inr t \<Longrightarrow> k < length ts \<and> t = ts ! k"
  by (auto simp: tok_at_def elim: arr_get_InrE)

lemma tok_at_ok [simp]: "k < length ts \<Longrightarrow> tok_at ts k = Inr (ts ! k)"
  by (simp add: tok_at_def)

lemma tok_at_not_fuel [simp]: "tok_at ts k \<noteq> Inl Out_Of_Fuel"
  by (simp add: tok_at_def arr_get_def)

lemma op_loop_index:
  assumes "\<And>j e j'. operand j = Inr (e, j') \<Longrightarrow> j \<le> j'"
  shows "op_loop ops operand n ts i left = Inr (e, i') \<Longrightarrow> i \<le> i'"
proof (induction n arbitrary: i left)
  case (Suc n)
  then show ?case
    by (auto split: option.splits dest!: assms) (meson Suc.IH Suc_leD le_trans)
qed simp

lemma parse_expr_index:
  "(parse_comparison n ts i = Inr (e, i') \<longrightarrow> i \<le> i') \<and>
   (parse_expression n ts i = Inr (e, i') \<longrightarrow> i \<le> i') \<and>
   (parse_term n ts i = Inr (e, i') \<longrightarrow> i \<le> i') \<and>
   (parse_factor n ts i = Inr (e, i') \<longrightarrow> i \<le> i')"
proof (induction n arbitrary: i e i')
  case (Suc n)
  note C = Suc.IH [THEN conjunct1, rule_format]
    and E = Suc.IH [THEN conjunct2, THEN conjunct1, rule_format]
    and T = Suc.IH [THEN conjunct2, THEN conjunct2, THEN conjunct1, rule_format]
    and F = Suc.IH [THEN conjunct2, THEN conjunct2, THEN conjunct2, rule_format]
  have LE: "op_loop ops (parse_expression n ts) m ts k l = Inr (e, j) \<Longrightarrow> k \<le> j" for ops m k l j
    by (rule op_loop_index [OF E])
  have LT: "op_loop ops (parse_term n ts) m ts k l = Inr (e, j) \<Longrightarrow> k \<le> j" for ops m k l j
    by (rule op_loop_index [OF T])
  have "parse_comparison (Suc n) ts i = Inr (e, i') \<Longrightarrow> i \<le> i'"
    by (auto dest!: E LE)
  moreover have "parse_expression (Suc n) ts i = Inr (e, i') \<Longrightarrow> i \<le> i'"
    by (auto dest!: T LT)
  moreover have "parse_term (Suc n) ts i = Inr (e, i') \<Longrightarrow> i \<le> i'"
    by (auto dest!: F LE)
  moreover have "parse_factor (Suc n) ts i = Inr (e, i') \<Longrightarrow> i \<le> i'"
    by (auto split: if_splits dest!: C)
  ultimately show ?case by blast
qed simp

lemmas parse_comparison_index = parse_expr_index [THEN conjunct1, rule_format]
lemmas parse_expression_index = parse_expr_index [THEN conjunct2, THEN conjunct1, rule_format]
lemmas parse_term_index =
  parse_expr_index [THEN conjunct2, THEN conjunct2, THEN conjunct1, rule_format]
lemmas parse_factor_index =
  parse_expr_index [THEN conjunct2, THEN conjunct2, THEN conjunct2, rule_format]

lemma parse_stmt_index:
  "(parse_statement n ts i = Inr (s, i') \<longrightarrow> i < i') \<and>
   (parse_body n ts i b = Inr (b', i') \<longrightarrow> i \<le> i')"
proof (induction n arbitrary: i s i' b b')
  case (Suc n)
  note S = Suc.IH [THEN conjunct1, rule_format] and B = Suc.IH [THEN conjunct2, rule_format]
  have "parse_statement (Suc n) ts i = Inr (s, i') \<Longrightarrow> i < i'"
    by (auto split: if_splits dest!: parse_comparison_index B)
  moreover have "parse_body (Suc n) ts i b = Inr (b', i') \<Longrightarrow> i \<le> i'"
    by (auto split: if_splits dest!: S B)
  ultimately show ?case by blast
qed simp

lemmas parse_statement_index = parse_stmt_index [THEN conjunct1, rule_format]
lemmas parse_body_index = parse_stmt_index [THEN conjunct2, rule_format]

section \<open>The fuel is enough\<close>

definition fueled :: "'a result \<Rightarrow> bool" where
  "fueled r \<longleftrightarrow> r \<noteq> Inl Out_Of_Fuel"

lemma fueled_simps [simp]:
  "fueled (Inr x)" "fueled (Inl (Undef u))" "fueled (Inl (Exit e))" "fueled (tok_at ts k)"
  by (simp_all add: fueled_def)

lemma fueled_andthen [intro!]:
  "fueled r \<Longrightarrow> (\<And>x. r = Inr x \<Longrightarrow> fueled (f x)) \<Longrightarrow> fueled (andthen r f)"
  by (cases r) (auto simp: fueled_def)

lemma op_loop_fuel:
  assumes "\<And>j. i < j \<Longrightarrow> fueled (operand j)"
    and "\<And>j e j'. operand j = Inr (e, j') \<Longrightarrow> j \<le> j'"
    and "length ts - i < n"
  shows "fueled (op_loop ops operand n ts i left)"
  using assms(1,3)
proof (induction n arbitrary: i left)
  case (Suc n)
  have IH: "fueled (op_loop ops operand n ts j l)" if "i < j" "i < length ts" for j l
    using Suc.IH [of j l] Suc.prems that by force
  show ?case
    by (auto intro!: Suc.prems IH split: option.split dest!: tok_at_Inr assms(2))
qed simp

lemma parse_expr_fuel:
  "(4 * (length ts - i) + 4 \<le> n \<longrightarrow> fueled (parse_comparison n ts i)) \<and>
   (4 * (length ts - i) + 3 \<le> n \<longrightarrow> fueled (parse_expression n ts i)) \<and>
   (4 * (length ts - i) + 2 \<le> n \<longrightarrow> fueled (parse_term n ts i)) \<and>
   (4 * (length ts - i) + 1 \<le> n \<longrightarrow> fueled (parse_factor n ts i))"
proof (induction n arbitrary: i)
  case (Suc n)
  note C = Suc.IH [THEN conjunct1, rule_format]
    and E = Suc.IH [THEN conjunct2, THEN conjunct1, rule_format]
    and T = Suc.IH [THEN conjunct2, THEN conjunct2, THEN conjunct1, rule_format]
    and F = Suc.IH [THEN conjunct2, THEN conjunct2, THEN conjunct2, rule_format]
  have "fueled (parse_comparison (Suc n) ts i)" if n: "4 * (length ts - i) + 4 \<le> Suc n"
  proof -
    have "fueled (op_loop comparison_op (parse_expression n ts) n ts k l)" if "i \<le> k" for k l
      using that n by (intro op_loop_fuel [OF E parse_expression_index]) auto
    with n show ?thesis by (auto intro!: E dest: parse_expression_index)
  qed
  moreover have "fueled (parse_expression (Suc n) ts i)" if n: "4 * (length ts - i) + 3 \<le> Suc n"
  proof -
    have "fueled (op_loop expression_op (parse_term n ts) n ts k l)" if "i \<le> k" for k l
      using that n by (intro op_loop_fuel [OF T parse_term_index]) auto
    with n show ?thesis by (auto intro!: T dest: parse_term_index)
  qed
  moreover have "fueled (parse_term (Suc n) ts i)" if n: "4 * (length ts - i) + 2 \<le> Suc n"
  proof -
    have "fueled (op_loop term_op (parse_expression n ts) n ts k l)" if "i \<le> k" for k l
    proof (cases "k < length ts")
      case True
      then show ?thesis
        using that n by (intro op_loop_fuel [OF E parse_expression_index]) auto
    next
      case False
      then show ?thesis
        using n by (cases n) (auto simp: tok_at_def arr_get_def)
    qed
    with n show ?thesis by (auto intro!: F dest: parse_factor_index)
  qed
  moreover have "fueled (parse_factor (Suc n) ts i)" if "4 * (length ts - i) + 1 \<le> Suc n"
    using that by (auto intro!: C dest!: tok_at_Inr)
  ultimately show ?case by blast
qed simp

lemmas parse_comparison_fuel = parse_expr_fuel [THEN conjunct1, rule_format]

lemma parse_stmt_fuel:
  "(4 * (length ts - i) + 1 \<le> n \<longrightarrow> fueled (parse_statement n ts i)) \<and>
   (4 * (length ts - i) + 2 \<le> n \<longrightarrow> fueled (parse_body n ts i b))"
proof (induction n arbitrary: i b)
  case (Suc n)
  note S = Suc.IH [THEN conjunct1, rule_format] and B = Suc.IH [THEN conjunct2, rule_format]
  have "fueled (parse_statement (Suc n) ts i)" if "4 * (length ts - i) + 1 \<le> Suc n"
    using that
    by (auto intro!: parse_comparison_fuel B dest!: tok_at_Inr parse_comparison_index) arith+
  moreover have "fueled (parse_body (Suc n) ts i b)" if "4 * (length ts - i) + 2 \<le> Suc n"
    using that by (auto intro!: S B dest!: tok_at_Inr parse_statement_index) arith
  ultimately show ?case by blast
qed simp

lemmas parse_statement_fuel = parse_stmt_fuel [THEN conjunct1, rule_format]

lemma parser_loop_fuel:
  "4 * (length ts - i) + 2 \<le> n \<Longrightarrow> fueled (parser_loop n ts i capacity ss)"
proof (induction n arbitrary: i capacity ss)
  case (Suc n)
  then show ?case
    by (auto simp: Let_def intro!: parse_statement_fuel Suc.IH
        dest!: tok_at_Inr parse_statement_index)
qed simp

lemma parser_fueled: "fueled (parser ts)"
  unfolding parser_def parser_fuel_def by (rule parser_loop_fuel) simp

section \<open>More fuel never changes an answer\<close>

lemma fueled_andthenD: "fueled (andthen r f) \<Longrightarrow> fueled r"
  by (cases r) (auto simp: fueled_def)

lemma andthen_eq_mono:
  assumes "fueled (andthen r f)" "fueled r \<Longrightarrow> r' = r"
    and "\<And>x. r = Inr x \<Longrightarrow> fueled (f x) \<Longrightarrow> f' x = f x"
  shows "andthen r' f' = andthen r f"
  using assms by (cases r) (auto simp: fueled_def)

lemma op_loop_mono:
  assumes "\<And>j. fueled (operand j) \<Longrightarrow> operand' j = operand j"
  shows "fueled (op_loop ops operand n ts i left) \<Longrightarrow> n \<le> m \<Longrightarrow>
    op_loop ops operand' m ts i left = op_loop ops operand n ts i left"
proof (induction n arbitrary: m i left)
  case 0
  then show ?case by (simp add: fueled_def)
next
  case (Suc n)
  then obtain k where k: "m = Suc k" "n \<le> k" by (cases m) auto
  show ?case
    using Suc.prems(1) unfolding k op_loop.simps
    by (rule andthen_eq_mono)
      (auto split: option.splits intro!: andthen_eq_mono assms Suc.IH k(2))
qed

lemma parse_expr_mono:
  "(fueled (parse_comparison n ts i) \<longrightarrow> n \<le> m \<longrightarrow> parse_comparison m ts i = parse_comparison n ts i) \<and>
   (fueled (parse_expression n ts i) \<longrightarrow> n \<le> m \<longrightarrow> parse_expression m ts i = parse_expression n ts i) \<and>
   (fueled (parse_term n ts i) \<longrightarrow> n \<le> m \<longrightarrow> parse_term m ts i = parse_term n ts i) \<and>
   (fueled (parse_factor n ts i) \<longrightarrow> n \<le> m \<longrightarrow> parse_factor m ts i = parse_factor n ts i)"
proof (induction n arbitrary: i m)
  case (Suc n)
  note C = Suc.IH [THEN conjunct1, rule_format]
    and E = Suc.IH [THEN conjunct2, THEN conjunct1, rule_format]
    and T = Suc.IH [THEN conjunct2, THEN conjunct2, THEN conjunct1, rule_format]
    and F = Suc.IH [THEN conjunct2, THEN conjunct2, THEN conjunct2, rule_format]
  show ?case
  proof (cases m)
    case (Suc k)
    have "parse_comparison m ts i = parse_comparison (Suc n) ts i"
      if "fueled (parse_comparison (Suc n) ts i)" "n \<le> k"
      using that(1) unfolding Suc parse_comparison.simps
      by (rule andthen_eq_mono) (auto intro!: E op_loop_mono that(2))
    moreover have "parse_expression m ts i = parse_expression (Suc n) ts i"
      if "fueled (parse_expression (Suc n) ts i)" "n \<le> k"
      using that(1) unfolding Suc parse_expression.simps
      by (rule andthen_eq_mono) (auto intro!: T op_loop_mono that(2))
    moreover have "parse_term m ts i = parse_term (Suc n) ts i"
      if "fueled (parse_term (Suc n) ts i)" "n \<le> k"
      using that(1) unfolding Suc parse_term.simps
      by (rule andthen_eq_mono) (auto intro!: F E op_loop_mono that(2))
    moreover have "parse_factor m ts i = parse_factor (Suc n) ts i"
      if "fueled (parse_factor (Suc n) ts i)" "n \<le> k"
      using that(1) unfolding Suc parse_factor.simps
      by (rule andthen_eq_mono)
        (auto intro!: andthen_eq_mono C that(2) split: if_splits)
    ultimately show ?thesis using Suc by auto
  qed simp
qed (simp add: fueled_def)

lemmas parse_comparison_mono = parse_expr_mono [THEN conjunct1, rule_format]

lemma parse_stmt_mono:
  "(fueled (parse_statement n ts i) \<longrightarrow> n \<le> m \<longrightarrow> parse_statement m ts i = parse_statement n ts i) \<and>
   (fueled (parse_body n ts i b) \<longrightarrow> n \<le> m \<longrightarrow> parse_body m ts i b = parse_body n ts i b)"
proof (induction n arbitrary: i b m)
  case (Suc n)
  note S = Suc.IH [THEN conjunct1, rule_format] and B = Suc.IH [THEN conjunct2, rule_format]
  show ?case
  proof (cases m)
    case (Suc k)
    have "parse_statement m ts i = parse_statement (Suc n) ts i"
      if "fueled (parse_statement (Suc n) ts i)" "n \<le> k"
      using that(1) unfolding Suc parse_statement.simps
      by (rule andthen_eq_mono)
        (auto intro!: andthen_eq_mono parse_comparison_mono B that(2) split: if_splits)
    moreover have "parse_body m ts i b = parse_body (Suc n) ts i b"
      if "fueled (parse_body (Suc n) ts i b)" "n \<le> k"
      using that(1) unfolding Suc parse_body.simps
      by (rule andthen_eq_mono)
        (auto intro!: andthen_eq_mono S B that(2) split: if_splits)
    ultimately show ?thesis using Suc by auto
  qed simp
qed (simp add: fueled_def)

lemmas parse_statement_mono = parse_stmt_mono [THEN conjunct1, rule_format]
lemmas parse_body_mono = parse_stmt_mono [THEN conjunct2, rule_format]

lemma parser_loop_mono:
  "fueled (parser_loop n ts i capacity ss) \<Longrightarrow> n \<le> m \<Longrightarrow>
    parser_loop m ts i capacity ss = parser_loop n ts i capacity ss"
proof (induction n arbitrary: m i capacity ss)
  case 0
  then show ?case by (simp add: fueled_def)
next
  case (Suc n)
  then obtain k where k: "m = Suc k" "n \<le> k" by (cases m) auto
  show ?case
    using Suc.prems(1) unfolding k parser_loop.simps Let_def
    by (rule andthen_eq_mono)
      (auto intro!: andthen_eq_mono parse_statement_mono Suc.IH k(2) split: if_splits)
qed

text \<open>So \<open>parser\<close> is the answer of the loop for any fuel that gives one.\<close>

lemma parser_eqI:
  assumes "parser_loop n ts 0 128 [] = r" "fueled r"
  shows "parser ts = r"
proof (cases "n \<le> parser_fuel (length ts)")
  case True
  with assms parser_loop_mono [of n ts 0 128 "[]"] show ?thesis by (simp add: parser_def)
next
  case False
  with parser_loop_mono [of "parser_fuel (length ts)" ts 0 128 "[]" n] parser_fueled [of ts] assms
  show ?thesis by (simp add: parser_def)
qed

end
