(* ===== verification/Printer.thy ===== *)
theory Printer
  imports Parser_Facts
begin

text \<open>
  A printer for programs, the specification of what the front end accepts: the tokens of a
  syntax tree and the text of a token list. Parsing the tokens of a tree gives the tree back,
  and lexing the text of a token list gives the tokens back.
\<close>

section \<open>What a token carries\<close>

datatype tokview = V_NUM int | V_IDENT string | V_SYM TokenType

definition tok_view :: "Token \<Rightarrow> tokview" where
  "tok_view t = (if tok_type t = TOK_NUM then V_NUM (tok_value t)
     else if tok_type t = TOK_IDENT then V_IDENT (tok_name t) else V_SYM (tok_type t))"

fun view_type :: "tokview \<Rightarrow> TokenType" where
  "view_type (V_NUM n) = TOK_NUM"
| "view_type (V_IDENT x) = TOK_IDENT"
| "view_type (V_SYM ty) = ty"

lemma view_type_view [simp]: "view_type (tok_view t) = tok_type t"
  by (simp add: tok_view_def)

fun matches :: "Token list \<Rightarrow> nat \<Rightarrow> tokview list \<Rightarrow> bool" where
  "matches ts i [] \<longleftrightarrow> True"
| "matches ts i (v # vs) \<longleftrightarrow> i < length ts \<and> tok_view (ts ! i) = v \<and> matches ts (Suc i) vs"

lemma matches_append [simp]:
  "matches ts i (vs @ ws) \<longleftrightarrow> matches ts i vs \<and> matches ts (i + length vs) ws"
  by (induction vs arbitrary: i) auto

lemma matches_map: "map tok_view ts = us @ vs @ ws \<Longrightarrow> matches ts (length us) vs"
proof (induction vs arbitrary: us)
  case (Cons v vs)
  have "length ts = length us + Suc (length vs + length ws)"
    using arg_cong [OF Cons.prems, of length] by simp
  then have len: "length us < length ts" by simp
  then have "tok_view (ts ! length us) = v"
    using arg_cong [OF Cons.prems, of "\<lambda>xs. xs ! length us"] by simp
  moreover have "matches ts (length (us @ [v])) vs" using Cons.prems by (intro Cons.IH) simp
  ultimately show ?case using len by simp
qed simp

lemma view_NUM: "tok_view t = V_NUM n \<Longrightarrow> tok_type t = TOK_NUM \<and> tok_value t = n"
  and view_IDENT: "tok_view t = V_IDENT x \<Longrightarrow> tok_type t = TOK_IDENT \<and> tok_name t = x"
  and view_SYM: "tok_view t = V_SYM ty \<Longrightarrow> tok_type t = ty"
  by (auto simp: tok_view_def split: if_splits)

section \<open>The tokens of a tree\<close>

text \<open>Expressions are printed with a pair of parentheses around every operation.\<close>

fun unparse_expr :: "node \<Rightarrow> tokview list" where
  "unparse_expr (NODE_NUM n) = [V_NUM n]"
| "unparse_expr (NODE_IDENT x) = [V_IDENT x]"
| "unparse_expr (NODE_ADD a b) = V_SYM TOK_LPAREN # unparse_expr a @ V_SYM TOK_PLUS # unparse_expr b @ [V_SYM TOK_RPAREN]"
| "unparse_expr (NODE_SUB a b) = V_SYM TOK_LPAREN # unparse_expr a @ V_SYM TOK_MINUS # unparse_expr b @ [V_SYM TOK_RPAREN]"
| "unparse_expr (NODE_MUL a b) = V_SYM TOK_LPAREN # unparse_expr a @ V_SYM TOK_STAR # unparse_expr b @ [V_SYM TOK_RPAREN]"
| "unparse_expr (NODE_DIV a b) = V_SYM TOK_LPAREN # unparse_expr a @ V_SYM TOK_SLASH # unparse_expr b @ [V_SYM TOK_RPAREN]"
| "unparse_expr (NODE_GT a b) = V_SYM TOK_LPAREN # unparse_expr a @ V_SYM TOK_GT # unparse_expr b @ [V_SYM TOK_RPAREN]"
| "unparse_expr (NODE_LT a b) = V_SYM TOK_LPAREN # unparse_expr a @ V_SYM TOK_LT # unparse_expr b @ [V_SYM TOK_RPAREN]"
| "unparse_expr (NODE_EQEQ a b) = V_SYM TOK_LPAREN # unparse_expr a @ V_SYM TOK_EQEQ # unparse_expr b @ [V_SYM TOK_RPAREN]"
| "unparse_expr _ = []"

fun is_expr :: "node \<Rightarrow> bool" where
  "is_expr (NODE_NUM n) = True"
| "is_expr (NODE_IDENT x) = True"
| "is_expr (NODE_ADD a b) = (is_expr a \<and> is_expr b)"
| "is_expr (NODE_SUB a b) = (is_expr a \<and> is_expr b)"
| "is_expr (NODE_MUL a b) = (is_expr a \<and> is_expr b)"
| "is_expr (NODE_DIV a b) = (is_expr a \<and> is_expr b)"
| "is_expr (NODE_GT a b) = (is_expr a \<and> is_expr b)"
| "is_expr (NODE_LT a b) = (is_expr a \<and> is_expr b)"
| "is_expr (NODE_EQEQ a b) = (is_expr a \<and> is_expr b)"
| "is_expr _ = False"

fun unparse_stmt :: "node \<Rightarrow> tokview list" where
  "unparse_stmt (NODE_ASSIGN (NODE_IDENT x) e) = V_IDENT x # V_SYM TOK_EQ # unparse_expr e"
| "unparse_stmt (NODE_PRINT e) = V_SYM TOK_PRINT # unparse_expr e"
| "unparse_stmt (NODE_WHILE e body) = V_SYM TOK_WHILE # unparse_expr e @ V_SYM TOK_LBRACE #
     concat (map unparse_stmt body) @ [V_SYM TOK_RBRACE]"
| "unparse_stmt (NODE_IF e body) = V_SYM TOK_IF # unparse_expr e @ V_SYM TOK_LBRACE #
     concat (map unparse_stmt body) @ [V_SYM TOK_RBRACE]"
| "unparse_stmt _ = []"

text \<open>Statements whose bodies fit the 128 pointers of \<open>parse_statement\<close>.\<close>

fun is_stmt :: "node \<Rightarrow> bool" where
  "is_stmt (NODE_ASSIGN (NODE_IDENT x) e) = is_expr e"
| "is_stmt (NODE_PRINT e) = is_expr e"
| "is_stmt (NODE_WHILE e body) = (is_expr e \<and> length body \<le> 128 \<and> list_all is_stmt body)"
| "is_stmt (NODE_IF e body) = (is_expr e \<and> length body \<le> 128 \<and> list_all is_stmt body)"
| "is_stmt _ = False"

section \<open>Parsing the printed tokens\<close>

definition parses :: "(nat \<Rightarrow> Token list \<Rightarrow> nat \<Rightarrow> (node \<times> nat) result) \<Rightarrow> Token list \<Rightarrow> nat \<Rightarrow>
    node \<Rightarrow> nat \<Rightarrow> bool" where
  "parses p ts i e j \<longleftrightarrow> (\<exists>M. \<forall>m \<ge> M. p m ts i = Inr (e, j))"

lemma parsesI:
  assumes "\<And>m. M \<le> m \<Longrightarrow> p (Suc m) ts i = Inr (e, j)"
  shows "parses p ts i e j"
  unfolding parses_def
proof (intro exI allI impI)
  fix m assume "Suc M \<le> m"
  then show "p m ts i = Inr (e, j)" using assms [of "m - 1"] by (cases m) auto
qed

text \<open>A token that ends an expression, and the loops at such a token.\<close>

definition no_op :: "TokenType \<Rightarrow> bool" where
  "no_op ty \<longleftrightarrow> comparison_op ty = None \<and> expression_op ty = None \<and> term_op ty = None"

lemma op_loop_stop:
  "j < length ts \<Longrightarrow> ops (tok_type (ts ! j)) = None \<Longrightarrow> 0 < n \<Longrightarrow>
    op_loop ops operand n ts j l = Inr (l, j)"
  by (cases n) auto

lemma op_loop_once:
  assumes "j < length ts" "ops (tok_type (ts ! j)) = Some mk" "operand (Suc j) = Inr (r, k)"
    and "k < length ts" "ops (tok_type (ts ! k)) = None" "2 \<le> n"
  shows "op_loop ops operand n ts j l = Inr (mk l r, k)"
proof -
  obtain m where "n = Suc m" "0 < m" using assms(6) by (cases n) auto
  with assms op_loop_stop [of k ts ops m operand "mk l r"] show ?thesis by simp
qed

text \<open>The three levels have the same equation, with their operators and operands.\<close>

definition level :: "(nat \<Rightarrow> Token list \<Rightarrow> nat \<Rightarrow> (node \<times> nat) result) \<Rightarrow>
    (nat \<Rightarrow> Token list \<Rightarrow> nat \<Rightarrow> (node \<times> nat) result) \<Rightarrow>
    (TokenType \<Rightarrow> (node \<Rightarrow> node \<Rightarrow> node) option) \<Rightarrow>
    (nat \<Rightarrow> Token list \<Rightarrow> nat \<Rightarrow> (node \<times> nat) result) \<Rightarrow> bool" where
  "level q p ops r \<longleftrightarrow> (\<forall>m ts i. q (Suc m) ts i =
     andthen (p m ts i) (\<lambda>(left, i). op_loop ops (r m ts) m ts i left))"

lemma levels:
  "level parse_comparison parse_expression comparison_op parse_expression"
  "level parse_expression parse_term expression_op parse_term"
  "level parse_term parse_factor term_op parse_expression"
  by (simp_all add: level_def)

lemma level_stop:
  assumes "level q p ops r" "parses p ts i e j" "j < length ts" "ops (tok_type (ts ! j)) = None"
  shows "parses q ts i e j"
proof -
  obtain M where M: "\<And>m. M \<le> m \<Longrightarrow> p m ts i = Inr (e, j)" using assms(2) by (auto simp: parses_def)
  show ?thesis
    by (rule parsesI [where M = "Suc M"])
      (use assms M op_loop_stop in \<open>auto simp: level_def\<close>)
qed

lemma level_once:
  assumes "level q p ops r" "parses p ts i a j" "j < length ts" "ops (tok_type (ts ! j)) = Some mk"
    and "parses r ts (Suc j) b k" "k < length ts" "ops (tok_type (ts ! k)) = None"
  shows "parses q ts i (mk a b) k"
proof -
  obtain M where M: "\<And>m. M \<le> m \<Longrightarrow> p m ts i = Inr (a, j)" using assms(2) by (auto simp: parses_def)
  obtain N where N: "\<And>m. N \<le> m \<Longrightarrow> r m ts (Suc j) = Inr (b, k)" using assms(5) by (auto simp: parses_def)
  show ?thesis
    by (rule parsesI [where M = "max M N + 2"])
      (use assms M N op_loop_once in \<open>auto simp: level_def\<close>)
qed

lemmas term_stop = level_stop [OF levels(3)]
lemmas expression_stop = level_stop [OF levels(2)]
lemmas comparison_stop = level_stop [OF levels(1)]

lemma factor_comparison:
  "parses parse_factor ts i e j \<Longrightarrow> j < length ts \<Longrightarrow> no_op (tok_type (ts ! j)) \<Longrightarrow>
    parses parse_comparison ts i e j"
  by (auto simp: no_op_def intro: term_stop expression_stop comparison_stop)

lemma factor_paren:
  assumes "parses parse_comparison ts (Suc i) e j" "i < length ts" "tok_view (ts ! i) = V_SYM TOK_LPAREN"
  shows "parses parse_factor ts i e (Suc j)"
proof -
  obtain M where M: "\<And>m. M \<le> m \<Longrightarrow> parse_comparison m ts (Suc i) = Inr (e, j)"
    using assms(1) by (auto simp: parses_def)
  show ?thesis
    by (rule parsesI [where M = M]) (use assms M view_SYM in \<open>force\<close>)
qed

text \<open>
  An operation between parentheses: \<open>i\<close> is the opening parenthesis, \<open>j\<close> the operator and
  \<open>k\<close> the closing parenthesis.
\<close>

lemma paren_op:
  assumes a: "parses parse_factor ts (Suc i) a j" and b: "parses parse_factor ts (Suc j) b k"
    and "i < length ts" "tok_view (ts ! i) = V_SYM TOK_LPAREN"
    and "j < length ts" "k < length ts" "tok_view (ts ! k) = V_SYM TOK_RPAREN"
    and op: "comparison_op (tok_type (ts ! j)) = Some mk \<or> expression_op (tok_type (ts ! j)) = Some mk
      \<or> term_op (tok_type (ts ! j)) = Some mk"
  shows "parses parse_factor ts i (mk a b) (Suc k)"
proof (rule factor_paren)
  have RP: "term_op (tok_type (ts ! k)) = None" "expression_op (tok_type (ts ! k)) = None"
    "comparison_op (tok_type (ts ! k)) = None"
    using assms(7) view_SYM by fastforce+
  have bt: "parses parse_term ts (Suc j) b k" using b assms(6) RP by (intro term_stop)
  then have be: "parses parse_expression ts (Suc j) b k" using assms(6) RP by (intro expression_stop)
  from op consider "comparison_op (tok_type (ts ! j)) = Some mk" | "expression_op (tok_type (ts ! j)) = Some mk"
    | "term_op (tok_type (ts ! j)) = Some mk" by blast
  then show "parses parse_comparison ts (Suc i) (mk a b) k"
  proof cases
    case 1
    then have "term_op (tok_type (ts ! j)) = None" "expression_op (tok_type (ts ! j)) = None"
      by (cases "tok_type (ts ! j)"; simp)+
    with a assms(5) have "parses parse_expression ts (Suc i) a j" by (intro expression_stop term_stop)
    from level_once [OF levels(1) this assms(5) 1 be assms(6)] RP show ?thesis by simp
  next
    case 2
    then have "term_op (tok_type (ts ! j)) = None" by (cases "tok_type (ts ! j)") simp_all
    with a assms(5) have "parses parse_term ts (Suc i) a j" by (intro term_stop)
    from level_once [OF levels(2) this assms(5) 2 bt assms(6)] RP assms(6) show ?thesis
      by (intro comparison_stop) simp_all
  next
    case 3
    from level_once [OF levels(3) a assms(5) 3 be assms(6)] RP assms(6) show ?thesis
      by (intro comparison_stop expression_stop) simp_all
  qed
qed (use assms in auto)

lemma matches_op:
  "matches ts i (V_SYM TOK_LPAREN # us @ V_SYM ty # vs @ [V_SYM TOK_RPAREN]) \<longleftrightarrow>
    i < length ts \<and> tok_view (ts ! i) = V_SYM TOK_LPAREN \<and> matches ts (Suc i) us \<and>
    Suc i + length us < length ts \<and> tok_view (ts ! (Suc i + length us)) = V_SYM ty \<and>
    matches ts (Suc (Suc i + length us)) vs \<and>
    Suc (Suc i + length us) + length vs < length ts \<and>
    tok_view (ts ! (Suc (Suc i + length us) + length vs)) = V_SYM TOK_RPAREN"
  by auto

lemma parse_unparse_op:
  assumes "matches ts i (V_SYM TOK_LPAREN # us @ V_SYM ty # vs @ [V_SYM TOK_RPAREN])"
    and "\<And>j. matches ts j us \<Longrightarrow> parses parse_factor ts j a (j + length us)"
    and "\<And>j. matches ts j vs \<Longrightarrow> parses parse_factor ts j b (j + length vs)"
    and "comparison_op ty = Some mk \<or> expression_op ty = Some mk \<or> term_op ty = Some mk"
  shows "parses parse_factor ts i (mk a b)
    (i + length (V_SYM TOK_LPAREN # us @ V_SYM ty # vs @ [V_SYM TOK_RPAREN]))"
proof -
  note m = assms(1) [unfolded matches_op]
  have ty: "tok_type (ts ! (Suc i + length us)) = ty" using m view_SYM by blast
  have a: "parses parse_factor ts (Suc i) a (Suc i + length us)" using m by (blast intro: assms(2))
  have b: "parses parse_factor ts (Suc (Suc i + length us)) b (Suc (Suc i + length us) + length vs)"
    using m by (blast intro: assms(3))
  have "parses parse_factor ts i (mk a b) (Suc (Suc (Suc i + length us) + length vs))"
    using m by (intro paren_op [OF a b]) (use assms(4) ty in simp_all)
  then show ?thesis by (simp add: add.assoc)
qed

lemma parse_unparse_factor:
  "is_expr e \<Longrightarrow> matches ts i (unparse_expr e) \<Longrightarrow>
    parses parse_factor ts i e (i + length (unparse_expr e))"
proof (induction e arbitrary: i)
  case (NODE_NUM n)
  then show ?case by (auto intro!: parsesI dest!: view_NUM)
next
  case (NODE_IDENT x)
  then show ?case by (auto intro!: parsesI dest!: view_IDENT)
next
  case (NODE_ADD a b)
  then show ?case
    unfolding unparse_expr.simps by (intro parse_unparse_op [where mk = NODE_ADD]) simp_all
next
  case (NODE_SUB a b)
  then show ?case
    unfolding unparse_expr.simps by (intro parse_unparse_op [where mk = NODE_SUB]) simp_all
next
  case (NODE_MUL a b)
  then show ?case
    unfolding unparse_expr.simps by (intro parse_unparse_op [where mk = NODE_MUL]) simp_all
next
  case (NODE_DIV a b)
  then show ?case
    unfolding unparse_expr.simps by (intro parse_unparse_op [where mk = NODE_DIV]) simp_all
next
  case (NODE_GT a b)
  then show ?case
    unfolding unparse_expr.simps by (intro parse_unparse_op [where mk = NODE_GT]) simp_all
next
  case (NODE_LT a b)
  then show ?case
    unfolding unparse_expr.simps by (intro parse_unparse_op [where mk = NODE_LT]) simp_all
next
  case (NODE_EQEQ a b)
  then show ?case
    unfolding unparse_expr.simps by (intro parse_unparse_op [where mk = NODE_EQEQ]) simp_all
qed simp_all

lemma parse_unparse_comparison:
  assumes "is_expr e" "matches ts i (unparse_expr e)" "i + length (unparse_expr e) < length ts"
    and "no_op (tok_type (ts ! (i + length (unparse_expr e))))"
  shows "parses parse_comparison ts i e (i + length (unparse_expr e))"
  using factor_comparison [OF parse_unparse_factor [OF assms(1,2)] assms(3,4)] .

subsection \<open>Statements\<close>

definition parses_body :: "Token list \<Rightarrow> nat \<Rightarrow> node list \<Rightarrow> node list \<Rightarrow> nat \<Rightarrow> bool" where
  "parses_body ts i b0 b j \<longleftrightarrow> (\<exists>M. \<forall>m \<ge> M. parse_body m ts i b0 = Inr (b, j))"

lemma parses_bodyI:
  assumes "\<And>m. M \<le> m \<Longrightarrow> parse_body (Suc m) ts i b0 = Inr (b, j)"
  shows "parses_body ts i b0 b j"
  unfolding parses_body_def
proof (intro exI allI impI)
  fix m assume "Suc M \<le> m"
  then show "parse_body m ts i b0 = Inr (b, j)" using assms [of "m - 1"] by (cases m) auto
qed

text \<open>The first token of a printed statement ends an expression and is no closing brace.\<close>

lemma unparse_stmt_first:
  "is_stmt s \<Longrightarrow> \<exists>v vs. unparse_stmt s = v # vs \<and> no_op (view_type v)
     \<and> view_type v \<noteq> TOK_RBRACE \<and> view_type v \<noteq> TOK_EOF"
  by (cases s rule: is_stmt.cases) (simp_all add: no_op_def)

definition statement_round :: "Token list \<Rightarrow> node \<Rightarrow> bool" where
  "statement_round ts s \<longleftrightarrow> (\<forall>i. is_stmt s \<longrightarrow> matches ts i (unparse_stmt s) \<longrightarrow>
     i + length (unparse_stmt s) < length ts \<longrightarrow>
     no_op (tok_type (ts ! (i + length (unparse_stmt s)))) \<longrightarrow>
     parses parse_statement ts i s (i + length (unparse_stmt s)))"

lemma statement_roundI:
  assumes "\<And>i. is_stmt s \<Longrightarrow> matches ts i (unparse_stmt s) \<Longrightarrow>
     i + length (unparse_stmt s) < length ts \<Longrightarrow>
     no_op (tok_type (ts ! (i + length (unparse_stmt s)))) \<Longrightarrow>
     parses parse_statement ts i s (i + length (unparse_stmt s))"
  shows "statement_round ts s"
  unfolding statement_round_def using assms by blast

lemma next_first:
  assumes "matches ts j (concat (map unparse_stmt ss))" "list_all is_stmt ss"
    and "j + length (concat (map unparse_stmt ss)) < length ts"
    and "no_op (tok_type (ts ! (j + length (concat (map unparse_stmt ss)))))"
  shows "j < length ts \<and> no_op (tok_type (ts ! j))"
proof (cases ss)
  case (Cons s ss')
  with assms(2) obtain v vs where v: "unparse_stmt s = v # vs" "no_op (view_type v)"
    using unparse_stmt_first [of s] by auto
  then show ?thesis using assms(1) Cons by auto
qed (use assms in auto)

lemma parse_unparse_body:
  assumes "\<And>s. s \<in> set ss \<Longrightarrow> statement_round ts s" "list_all is_stmt ss"
    and "length b0 + length ss \<le> 128"
    and "matches ts i (concat (map unparse_stmt ss) @ [V_SYM TOK_RBRACE])"
  shows "parses_body ts i b0 (b0 @ ss) (i + length (concat (map unparse_stmt ss)))"
  using assms
proof (induction ss arbitrary: i b0)
  case Nil
  then show ?case by (auto intro!: parses_bodyI dest: view_SYM)
next
  case (Cons s ss)
  let ?j = "i + length (unparse_stmt s)"
  have m: "matches ts ?j (concat (map unparse_stmt ss) @ [V_SYM TOK_RBRACE])"
    and ms: "matches ts i (unparse_stmt s)" and st: "is_stmt s"
    using Cons.prems by (simp_all add: add.assoc)
  have end_ok: "?j + length (concat (map unparse_stmt ss)) < length ts"
    "no_op (tok_type (ts ! (?j + length (concat (map unparse_stmt ss)))))"
    using m by (auto dest!: view_SYM simp: no_op_def)
  then have "?j < length ts \<and> no_op (tok_type (ts ! ?j))"
    using m Cons.prems(2) by (intro next_first [of ts ?j ss]) simp_all
  with Cons.prems(1) [of s] ms st have S: "parses parse_statement ts i s ?j"
    by (auto simp: statement_round_def)
  have B: "parses_body ts ?j (b0 @ [s]) ((b0 @ [s]) @ ss) (?j + length (concat (map unparse_stmt ss)))"
    using Cons.prems m by (intro Cons.IH) auto
  obtain M where M: "\<And>m. M \<le> m \<Longrightarrow> parse_statement m ts i = Inr (s, ?j)"
    using S by (auto simp: parses_def)
  obtain N where N: "\<And>m. N \<le> m \<Longrightarrow> parse_body m ts ?j (b0 @ [s]) =
      Inr (b0 @ s # ss, ?j + length (concat (map unparse_stmt ss)))"
    using B by (auto simp: parses_body_def)
  have "i < length ts \<and> tok_type (ts ! i) \<noteq> TOK_RBRACE"
    using unparse_stmt_first [OF st] ms by auto
  then show ?case
    using M N Cons.prems(3)
    by (intro parses_bodyI [where M = "max M N"]) (simp add: add.assoc)
qed

text \<open>A \<open>while\<close> or \<open>if\<close>: keyword, condition, opening brace, body, closing brace.\<close>

lemma block_parts:
  assumes "matches ts i (V_SYM kw # us @ V_SYM TOK_LBRACE # bs @ [V_SYM TOK_RBRACE])"
  shows "i < length ts" "tok_type (ts ! i) = kw" "matches ts (Suc i) us"
    "Suc i + length us < length ts" "no_op (tok_type (ts ! (Suc i + length us)))"
    "matches ts (Suc (Suc i + length us)) (bs @ [V_SYM TOK_RBRACE])"
  using assms by (auto dest!: view_SYM simp: no_op_def)

lemma parse_unparse_block:
  assumes kw: "kw = TOK_IF \<and> mk = NODE_IF \<or> kw = TOK_WHILE \<and> mk = NODE_WHILE"
    and "is_expr e" "length body \<le> 128" "list_all is_stmt body"
    and IH: "\<And>s. s \<in> set body \<Longrightarrow> statement_round ts s"
    and m: "matches ts i (V_SYM kw # unparse_expr e @ V_SYM TOK_LBRACE #
      concat (map unparse_stmt body) @ [V_SYM TOK_RBRACE])"
  shows "parses parse_statement ts i (mk e body)
    (i + length (V_SYM kw # unparse_expr e @ V_SYM TOK_LBRACE #
      concat (map unparse_stmt body) @ [V_SYM TOK_RBRACE]))"
proof -
  note parts = block_parts [OF m]
  let ?j = "Suc i + length (unparse_expr e)"
  let ?k = "Suc ?j + length (concat (map unparse_stmt body))"
  have "parses parse_comparison ts (Suc i) e ?j"
    using parts assms(2) by (intro parse_unparse_comparison) simp_all
  then obtain M where M: "\<And>m. M \<le> m \<Longrightarrow> parse_comparison m ts (Suc i) = Inr (e, ?j)"
    by (auto simp: parses_def)
  have "parses_body ts (Suc ?j) [] ([] @ body) ?k"
    using parts assms(3,4) by (intro parse_unparse_body IH) simp_all
  then obtain N where N: "\<And>m. N \<le> m \<Longrightarrow> parse_body m ts (Suc ?j) [] = Inr (body, ?k)"
    by (auto simp: parses_body_def)
  have "parses parse_statement ts i (mk e body) (Suc ?k)"
    using parts kw M N by (intro parsesI [where M = "max M N"]) auto
  then show ?thesis by (simp add: add.assoc)
qed

lemma parse_unparse_statement: "statement_round ts s"
proof (induction s)
  case (NODE_ASSIGN l e)
  show ?case
  proof (rule statement_roundI)
    fix i assume st: "is_stmt (NODE_ASSIGN l e)" and m: "matches ts i (unparse_stmt (NODE_ASSIGN l e))"
      and e: "i + length (unparse_stmt (NODE_ASSIGN l e)) < length ts"
        "no_op (tok_type (ts ! (i + length (unparse_stmt (NODE_ASSIGN l e)))))"
    obtain x where l: "l = NODE_IDENT x" using st by (cases l) simp_all
    have "parses parse_comparison ts (Suc (Suc i)) e (Suc (Suc i) + length (unparse_expr e))"
      using st m e l by (intro parse_unparse_comparison) simp_all
    then obtain M where "\<And>m. M \<le> m \<Longrightarrow>
      parse_comparison m ts (Suc (Suc i)) = Inr (e, Suc (Suc i) + length (unparse_expr e))"
      by (auto simp: parses_def)
    then show "parses parse_statement ts i (NODE_ASSIGN l e) (i + length (unparse_stmt (NODE_ASSIGN l e)))"
      using m l by (intro parsesI [where M = M]) (auto dest!: view_IDENT view_SYM)
  qed
next
  case (NODE_PRINT e)
  show ?case
  proof (rule statement_roundI)
    fix i assume st: "is_stmt (NODE_PRINT e)" and m: "matches ts i (unparse_stmt (NODE_PRINT e))"
      and e: "i + length (unparse_stmt (NODE_PRINT e)) < length ts"
        "no_op (tok_type (ts ! (i + length (unparse_stmt (NODE_PRINT e)))))"
    have "parses parse_comparison ts (Suc i) e (Suc i + length (unparse_expr e))"
      using st m e by (intro parse_unparse_comparison) simp_all
    then obtain M where "\<And>m. M \<le> m \<Longrightarrow>
      parse_comparison m ts (Suc i) = Inr (e, Suc i + length (unparse_expr e))"
      by (auto simp: parses_def)
    then show "parses parse_statement ts i (NODE_PRINT e) (i + length (unparse_stmt (NODE_PRINT e)))"
      using m by (intro parsesI [where M = M]) (auto dest!: view_SYM)
  qed
next
  case (NODE_WHILE e body)
  show ?case
  proof (rule statement_roundI)
    fix i assume "is_stmt (NODE_WHILE e body)" "matches ts i (unparse_stmt (NODE_WHILE e body))"
    then show "parses parse_statement ts i (NODE_WHILE e body) (i + length (unparse_stmt (NODE_WHILE e body)))"
      unfolding unparse_stmt.simps using NODE_WHILE.IH(2) by (intro parse_unparse_block) simp_all
  qed
next
  case (NODE_IF e body)
  show ?case
  proof (rule statement_roundI)
    fix i assume "is_stmt (NODE_IF e body)" "matches ts i (unparse_stmt (NODE_IF e body))"
    then show "parses parse_statement ts i (NODE_IF e body) (i + length (unparse_stmt (NODE_IF e body)))"
      unfolding unparse_stmt.simps using NODE_IF.IH(2) by (intro parse_unparse_block) simp_all
  qed
qed (simp_all add: statement_round_def)

section \<open>Whole programs\<close>

lemma parser_loop_unparse:
  assumes "list_all is_stmt ss" "matches ts i (concat (map unparse_stmt ss) @ [V_SYM TOK_EOF])"
    and "length ss0 \<le> capacity" "0 < capacity"
  shows "\<exists>M. \<forall>m \<ge> M. parser_loop m ts i capacity ss0 = Inr (ss0 @ ss)"
  using assms
proof (induction ss arbitrary: i capacity ss0)
  case Nil
  then have "parser_loop m ts i capacity ss0 = Inr ss0" if "1 \<le> m" for m
    using that by (cases m) (auto dest!: view_SYM)
  then show ?case by auto
next
  case (Cons s ss)
  let ?j = "i + length (unparse_stmt s)"
  let ?c = "if length ss0 = capacity then capacity * 2 else capacity"
  have m: "matches ts ?j (concat (map unparse_stmt ss) @ [V_SYM TOK_EOF])"
    and ms: "matches ts i (unparse_stmt s)" and st: "is_stmt s" "list_all is_stmt ss"
    using Cons.prems by (simp_all add: add.assoc)
  have "?j < length ts \<and> no_op (tok_type (ts ! ?j))"
    using m st(2) by (intro next_first [of ts ?j ss]) (auto dest!: view_SYM simp: no_op_def)
  then have "parses parse_statement ts i s ?j"
    using parse_unparse_statement [of ts s] ms st by (auto simp: statement_round_def)
  then obtain M where M: "\<And>m. M \<le> m \<Longrightarrow> parse_statement m ts i = Inr (s, ?j)"
    by (auto simp: parses_def)
  have "length (ss0 @ [s]) \<le> ?c" "0 < ?c" using Cons.prems(3,4) by auto
  from Cons.IH [OF st(2) m this]
  obtain N where N: "\<And>m. N \<le> m \<Longrightarrow> parser_loop m ts ?j ?c (ss0 @ [s]) = Inr ((ss0 @ [s]) @ ss)"
    by blast
  have first: "i < length ts" "tok_type (ts ! i) \<noteq> TOK_EOF"
    using unparse_stmt_first [OF st(1)] ms by auto
  have "parser_loop m ts i capacity ss0 = Inr (ss0 @ s # ss)" if "Suc (max M N) \<le> m" for m
    using that M N first Cons.prems(3,4) by (cases m) (auto simp: Let_def)
  then show ?case by blast
qed

lemma parser_unparse_aux:
  assumes "list_all is_stmt ss" "map tok_view ts = concat (map unparse_stmt ss) @ [V_SYM TOK_EOF]"
  shows "parser ts = Inr ss"
proof -
  have "matches ts 0 (concat (map unparse_stmt ss) @ [V_SYM TOK_EOF])"
    using matches_map [of ts "[]" _ "[]"] assms(2) by simp
  from parser_loop_unparse [OF assms(1) this, of "[]" 128]
  obtain M where "parser_loop M ts 0 128 [] = Inr ss" by auto
  then show ?thesis by (intro parser_eqI) simp_all
qed

end
