(* ===== verification/Lexer_Facts.thy ===== *)
theory Lexer_Facts
  imports Lexer Printer Decimal
begin

text \<open>
  The lexer: it succeeds only when the source has more characters than tokens (the end marker
  needs a slot of its own in a block of \<open>strlen(source)\<close> tokens), and it reads back every
  token list printed with a space after each token.
\<close>

section \<open>Tokens and characters\<close>

lemma put_token_Inr: "put_token cap ts t = Inr us \<longleftrightarrow> length ts < cap \<and> us = ts @ [t]"
  by (auto simp: put_token_def)

text \<open>Every token written by the loop consumes at least one character.\<close>

lemma lex_loop_count:
  "lex_loop cap cs t ts = Inr us \<Longrightarrow> length us \<le> length ts + length cs"
proof (induction cap cs t ts rule: lex_loop.induct)
  case (2 cap c cs t ts)
  show ?case
  proof (cases "c_isalpha c")
    case True
    with "2.prems" obtain w rest ts' where *: "lex_word [c] cs = Inr (w, rest)"
      "put_token cap ts (word_token w t) = Inr ts'" "lex_loop cap rest (word_token w t) ts' = Inr us"
      by auto
    with "2.IH"(1) [OF True *(1) refl *(2) *(3)] lex_word_rest [OF *(1)] show ?thesis
      by (simp add: put_token_Inr)
  next
    case na: False
    show ?thesis
    proof (cases "c_isdigit c")
      case True
      let ?t = "\<lambda>v. t\<lparr>tok_type := TOK_NUM, tok_value := v\<rparr>"
      from True na "2.prems" obtain w rest v ts' where *: "lex_num [] (c # cs) = Inr (w, rest)"
        "c_atoi w = Inr v" "put_token cap ts (?t v) = Inr ts'" "lex_loop cap rest (?t v) ts' = Inr us"
        by (auto simp del: lex_num.simps)
      with "2.IH"(2) [OF na True *(1) refl *(2) *(3) *(4)] lex_num_rest_less [OF True *(1)] show ?thesis
        by (simp add: put_token_Inr)
    next
      case nd: False
      show ?thesis
      proof (cases "c_isspace c")
        case True
        with "2.IH"(3) [OF na nd True] "2.prems" na nd show ?thesis by simp
      next
        case ns: False
        with na nd "2.prems" obtain ty rest ts' where *: "lex_symbol c cs = Inr (ty, rest)"
          "put_token cap ts (t\<lparr>tok_type := ty\<rparr>) = Inr ts'"
          "lex_loop cap rest (t\<lparr>tok_type := ty\<rparr>) ts' = Inr us"
          by auto
        with "2.IH"(4) [OF na nd ns *(1) refl *(2) *(3)] lex_symbol_rest [OF *(1)] show ?thesis
          by (simp add: put_token_Inr)
      qed
    qed
  qed
qed simp

lemma lexer_Inr:
  "lexer t0 e0 src = Inr (all, count) \<longleftrightarrow>
    (\<exists>ts. lex_loop (length src) src t0 [] = Inr ts \<and> length ts < length src
      \<and> all = ts @ [e0\<lparr>tok_type := TOK_EOF\<rparr>] \<and> count = length ts)"
  by (auto simp: lexer_def andthen_Inr_iff put_token_Inr)

section \<open>Decimal numerals\<close>

lemma digit_char_isdigit [simp]: "d < 10 \<Longrightarrow> c_isdigit (digit_char d)"
  by (simp add: c_isdigit_def char_in_def)

lemma digit_char_val [simp]: "d < 10 \<Longrightarrow> digit_val (digit_char d) = int d"
  unfolding digit_val_def by (subst of_nat_of_char [symmetric]) simp

lemma dec_digits: "list_all c_isdigit (dec n)"
proof (induction n rule: dec.induct)
  case (1 n)
  then show ?case by (cases "n < 10") (simp_all add: dec.simps [of n])
qed

lemma digits_val_snoc: "digits_val (ds @ [c]) = 10 * digits_val ds + digit_val c"
  by (simp add: digits_val_def)

lemma digits_val_dec: "digits_val (dec n) = int n"
proof (induction n rule: dec.induct)
  case (1 n)
  show ?case
  proof (cases "n < 10")
    case True
    then show ?thesis by (simp add: dec.simps [of n] digits_val_def)
  next
    case False
    then have "digits_val (dec n) = 10 * int (n div 10) + int (n mod 10)"
      using 1 by (simp add: dec.simps [of n] digits_val_snoc)
    also have "\<dots> = int n" using div_mult_mod_eq [of n 10] by linarith
    finally show ?thesis .
  qed
qed

section \<open>The text of a token list\<close>

fun sym_text :: "TokenType \<Rightarrow> string" where
  "sym_text TOK_PLUS = ''+''"
| "sym_text TOK_MINUS = ''-''"
| "sym_text TOK_STAR = ''*''"
| "sym_text TOK_SLASH = ''/''"
| "sym_text TOK_EQ = ''=''"
| "sym_text TOK_EQEQ = ''==''"
| "sym_text TOK_GT = ''>''"
| "sym_text TOK_LT = ''<''"
| "sym_text TOK_PRINT = ''print''"
| "sym_text TOK_WHILE = ''while''"
| "sym_text TOK_IF = ''if''"
| "sym_text TOK_LBRACE = ''{''"
| "sym_text TOK_RBRACE = ''}''"
| "sym_text TOK_LPAREN = ''(''"
| "sym_text TOK_RPAREN = '')''"
| "sym_text _ = []"

fun view_text :: "tokview \<Rightarrow> string" where
  "view_text (V_NUM n) = dec (nat n)"
| "view_text (V_IDENT x) = x"
| "view_text (V_SYM ty) = sym_text ty"

definition unlex :: "tokview list \<Rightarrow> string" where
  "unlex vs = concat (map (\<lambda>v. view_text v @ '' '') vs)"

text \<open>Identifiers the lexer reads back: letters and digits, a letter first, at most 31 of them.\<close>

fun ident_ok :: "string \<Rightarrow> bool" where
  "ident_ok [] = False"
| "ident_ok (c # cs) \<longleftrightarrow> c_isalpha c \<and> list_all c_isalnum cs \<and> length cs < 31
     \<and> c # cs \<noteq> ''print'' \<and> c # cs \<noteq> ''while'' \<and> c # cs \<noteq> ''if''"

fun lexable :: "tokview \<Rightarrow> bool" where
  "lexable (V_NUM n) \<longleftrightarrow> 0 \<le> n \<and> in_int n"
| "lexable (V_IDENT x) \<longleftrightarrow> ident_ok x"
| "lexable (V_SYM ty) \<longleftrightarrow> sym_text ty \<noteq> []"

lemma lex_word_run:
  "list_all c_isalnum w \<Longrightarrow> length buf + length w < 32 \<Longrightarrow> \<not> c_isalnum c \<Longrightarrow>
    lex_word buf (w @ c # rest) = Inr (buf @ w, c # rest)"
  by (induction w arbitrary: buf) simp_all

lemma lex_num_run:
  "list_all c_isdigit w \<Longrightarrow> length buf + length w < 32 \<Longrightarrow> \<not> c_isdigit c \<Longrightarrow>
    lex_num buf (w @ c # rest) = Inr (buf @ w, c # rest)"
  by (induction w arbitrary: buf) simp_all

lemmas ctype_defs = c_isalnum_def c_isalpha_def c_isdigit_def c_isspace_def char_in_def

lemma space_class [simp]:
  "\<not> c_isalpha CHR '' ''" "\<not> c_isdigit CHR '' ''" "\<not> c_isalnum CHR '' ''" "c_isspace CHR '' ''"
  by (simp_all add: ctype_defs)

lemma lex_space [simp]: "lex_loop cap (CHR '' '' # rest) t ts = lex_loop cap rest t ts"
  by simp

lemma digit_not_alpha: "c_isdigit c \<Longrightarrow> \<not> c_isalpha c"
  by (auto simp: ctype_defs)

text \<open>One printed token is read as one token.\<close>

definition reads :: "tokview \<Rightarrow> bool" where
  "reads v \<longleftrightarrow> (\<forall>cap t ts rest. length ts < cap \<longrightarrow>
     (\<exists>t'. tok_view t' = v \<and>
       lex_loop cap (view_text v @ CHR '' '' # rest) t ts = lex_loop cap rest t' (ts @ [t'])))"

lemma readsI:
  assumes "\<And>cap t ts rest. length ts < cap \<Longrightarrow> \<exists>t'. tok_view t' = v \<and>
       lex_loop cap (view_text v @ CHR '' '' # rest) t ts = lex_loop cap rest t' (ts @ [t'])"
  shows "reads v"
  unfolding reads_def using assms by blast

lemma lex_loop_word:
  assumes "c_isalpha c" "list_all c_isalnum cs" "length cs < 31" "length ts < cap"
  shows "lex_loop cap (c # cs @ CHR '' '' # rest) t ts =
    lex_loop cap rest (word_token (c # cs) t) (ts @ [word_token (c # cs) t])"
  using assms lex_word_run [of cs "[c]" "CHR '' ''" rest] by (simp add: put_token_def)

lemma reads_ident:
  assumes "ident_ok x" shows "reads (V_IDENT x)"
proof (rule readsI)
  fix cap t ts rest assume "length (ts :: Token list) < cap"
  moreover obtain c cs where "x = c # cs" "c_isalpha c" "list_all c_isalnum cs" "length cs < 31"
    "word_token x t = t\<lparr>tok_type := TOK_IDENT, tok_name := x\<rparr>"
    using assms by (cases x) (auto simp: word_token_def)
  ultimately show "\<exists>t'. tok_view t' = V_IDENT x \<and>
      lex_loop cap (view_text (V_IDENT x) @ CHR '' '' # rest) t ts = lex_loop cap rest t' (ts @ [t'])"
    using lex_loop_word [of c cs ts cap rest t]
    by (intro exI [of _ "word_token x t"]) (simp add: tok_view_def)
qed

lemma reads_num:
  assumes "0 \<le> n" "in_int n" shows "reads (V_NUM n)"
proof (rule readsI)
  fix cap t ts rest assume ts: "length (ts :: Token list) < cap"
  obtain d ds where d: "dec (nat n) = d # ds" using dec_nonempty [of "nat n"] by (cases "dec (nat n)") auto
  then have c: "c_isdigit d" using dec_digits [of "nat n"] by simp
  have "lex_num [] (dec (nat n) @ CHR '' '' # rest) = Inr (dec (nat n), CHR '' '' # rest)"
    using lex_num_run [of "dec (nat n)" "[]" "CHR '' ''" rest] dec_digits [of "nat n"]
      dec_length_int [of "nat n"] assms by (simp add: in_int_def)
  moreover have "c_atoi (dec (nat n)) = Inr n" using assms by (simp add: c_atoi_def digits_val_dec)
  ultimately show "\<exists>t'. tok_view t' = V_NUM n \<and>
      lex_loop cap (view_text (V_NUM n) @ CHR '' '' # rest) t ts = lex_loop cap rest t' (ts @ [t'])"
    using ts c digit_not_alpha [OF c]
    by (intro exI [of _ "t\<lparr>tok_type := TOK_NUM, tok_value := n\<rparr>"])
      (simp add: tok_view_def d put_token_def del: lex_num.simps)
qed

lemma reads_keyword:
  assumes "ty \<in> {TOK_PRINT, TOK_WHILE, TOK_IF}" shows "reads (V_SYM ty)"
proof (rule readsI)
  fix cap t ts rest assume ts: "length (ts :: Token list) < cap"
  obtain c cs where "sym_text ty = c # cs" "c_isalpha c" "list_all c_isalnum cs" "length cs < 31"
    "word_token (c # cs) t = t\<lparr>tok_type := ty\<rparr>"
    using assms by (auto simp: word_token_def ctype_defs)
  with ts assms show "\<exists>t'. tok_view t' = V_SYM ty \<and>
      lex_loop cap (view_text (V_SYM ty) @ CHR '' '' # rest) t ts = lex_loop cap rest t' (ts @ [t'])"
    using lex_loop_word [of c cs ts cap rest t]
    by (intro exI [of _ "t\<lparr>tok_type := ty\<rparr>"]) (auto simp: tok_view_def)
qed

lemma symbol_chars:
  assumes "sym_text ty = c # cs" "ty \<notin> {TOK_PRINT, TOK_WHILE, TOK_IF}"
  shows "\<not> c_isalpha c" "\<not> c_isdigit c" "\<not> c_isspace c"
    "lex_symbol c (cs @ CHR '' '' # rest) = Inr (ty, CHR '' '' # rest)"
proof -
  have "c \<in> set ''+-*/=><{}()''" using assms by (cases ty) auto
  then show "\<not> c_isalpha c" "\<not> c_isdigit c" "\<not> c_isspace c" by (auto simp: ctype_defs)
  show "lex_symbol c (cs @ CHR '' '' # rest) = Inr (ty, CHR '' '' # rest)"
    using assms by (cases ty) (auto simp: lex_symbol_def)
qed

lemma lex_loop_symbol:
  assumes "\<not> c_isalpha c" "\<not> c_isdigit c" "\<not> c_isspace c" "lex_symbol c cs = Inr (ty, rest)"
    and "length ts < cap"
  shows "lex_loop cap (c # cs) t ts =
    lex_loop cap rest (t\<lparr>tok_type := ty\<rparr>) (ts @ [t\<lparr>tok_type := ty\<rparr>])"
  using assms by (simp add: put_token_def)

lemma reads_symbol:
  assumes "sym_text ty \<noteq> []" "ty \<notin> {TOK_PRINT, TOK_WHILE, TOK_IF}" shows "reads (V_SYM ty)"
proof (rule readsI)
  fix cap t ts rest assume ts: "length (ts :: Token list) < cap"
  obtain c cs where c: "sym_text ty = c # cs" using assms(1) by (cases "sym_text ty") auto
  have "ty \<noteq> TOK_NUM" "ty \<noteq> TOK_IDENT" using assms(1) by auto
  then have "tok_view (t\<lparr>tok_type := ty\<rparr>) = V_SYM ty" by (simp add: tok_view_def)
  moreover have "lex_loop cap (view_text (V_SYM ty) @ CHR '' '' # rest) t ts =
      lex_loop cap rest (t\<lparr>tok_type := ty\<rparr>) (ts @ [t\<lparr>tok_type := ty\<rparr>])"
    using lex_loop_symbol [OF symbol_chars [OF c assms(2)] ts] by (simp only: c view_text.simps append_Cons lex_space)
  ultimately show "\<exists>t'. tok_view t' = V_SYM ty \<and>
      lex_loop cap (view_text (V_SYM ty) @ CHR '' '' # rest) t ts = lex_loop cap rest t' (ts @ [t'])"
    by blast
qed

lemma lexable_reads: "lexable v \<Longrightarrow> reads v"
  using reads_ident reads_num reads_keyword reads_symbol by (cases v) auto

lemma lex_loop_unlex:
  assumes "list_all lexable vs" "length ts + length vs \<le> cap"
  shows "\<exists>ts'. map tok_view ts' = vs \<and> lex_loop cap (unlex vs) t ts = Inr (ts @ ts')"
  using assms
proof (induction vs arbitrary: t ts)
  case (Cons v vs)
  have "reads v" "length ts < cap" using Cons.prems lexable_reads [of v] by simp_all
  then obtain t' where t': "tok_view t' = v"
    "lex_loop cap (view_text v @ CHR '' '' # unlex vs) t ts = lex_loop cap (unlex vs) t' (ts @ [t'])"
    unfolding reads_def by blast
  obtain ts' where "map tok_view ts' = vs" "lex_loop cap (unlex vs) t' (ts @ [t']) = Inr ((ts @ [t']) @ ts')"
    using Cons.IH [of "ts @ [t']" t'] Cons.prems by auto
  with t' show ?case by (intro exI [of _ "t' # ts'"]) (simp add: unlex_def)
qed (simp add: unlex_def)

lemma unlex_length: "list_all lexable vs \<Longrightarrow> 2 * length vs \<le> length (unlex vs)"
proof (induction vs)
  case (Cons v vs)
  then have "view_text v \<noteq> []" by (cases v) (auto simp: dec_nonempty)
  then have "1 \<le> length (view_text v)" by (cases "view_text v") auto
  with Cons show ?case by (simp add: unlex_def)
qed simp

lemma lexer_unlex_aux:
  assumes "list_all lexable vs" "vs \<noteq> []"
  shows "\<exists>ts. lexer t0 e0 (unlex vs) = Inr (ts, length vs) \<and> map tok_view ts = vs @ [V_SYM TOK_EOF]"
proof -
  have len: "length vs < length (unlex vs)"
    using unlex_length [OF assms(1)] assms(2) by (cases vs) auto
  with lex_loop_unlex [OF assms(1), of "[]" "length (unlex vs)" t0]
  obtain ts where ts: "map tok_view ts = vs" "lex_loop (length (unlex vs)) (unlex vs) t0 [] = Inr ts"
    by auto
  then have "length ts = length vs" by auto
  with ts len show ?thesis
    by (intro exI [of _ "ts @ [e0\<lparr>tok_type := TOK_EOF\<rparr>]"]) (simp add: lexer_Inr tok_view_def)
qed

end
