(* ===== verification/Vm.thy ===== *)
theory Vm
  imports Prelude
begin

text \<open>
  The stack machine of \<^verbatim>\<open>bytecode-vm/vm.c\<close>: its opcodes, its state (\<open>struct VM\<close>), the
  two stacks, one step of the fetch/decode/execute loop of \<open>vm_run\<close> and the loop itself.
\<close>

section \<open>Opcodes\<close>

datatype OpCode =
    OP_PUSH | OP_POP | OP_ADD | OP_SUB | OP_MUL | OP_DIV | OP_PRINT | OP_EQ | OP_LT | OP_GT
  | OP_JMP | OP_JMP_IF_FALSE | OP_LOAD | OP_STORE | OP_CALL | OP_RET | OP_HALT

fun op_byte :: "OpCode \<Rightarrow> u8" where
  "op_byte OP_PUSH = 0x01"
| "op_byte OP_POP = 0x02"
| "op_byte OP_ADD = 0x03"
| "op_byte OP_SUB = 0x04"
| "op_byte OP_MUL = 0x05"
| "op_byte OP_DIV = 0x06"
| "op_byte OP_PRINT = 0x07"
| "op_byte OP_EQ = 0x08"
| "op_byte OP_LT = 0x09"
| "op_byte OP_GT = 0x0A"
| "op_byte OP_JMP = 0x0B"
| "op_byte OP_JMP_IF_FALSE = 0x0C"
| "op_byte OP_LOAD = 0x0D"
| "op_byte OP_STORE = 0x0E"
| "op_byte OP_CALL = 0x0F"
| "op_byte OP_RET = 0x1F"
| "op_byte OP_HALT = 0xFF"

definition op_codes :: "OpCode list" where
  "op_codes = [OP_PUSH, OP_POP, OP_ADD, OP_SUB, OP_MUL, OP_DIV, OP_PRINT, OP_EQ, OP_LT, OP_GT,
     OP_JMP, OP_JMP_IF_FALSE, OP_LOAD, OP_STORE, OP_CALL, OP_RET, OP_HALT]"

text \<open>The \<open>switch (op)\<close> picks the case label equal to the byte, or \<open>default\<close>.\<close>

definition op_decode :: "u8 \<Rightarrow> OpCode option" where
  "op_decode b = find (\<lambda>c. op_byte c = b) op_codes"

lemma op_decode_byte [simp]: "op_decode (op_byte c) = Some c"
  by (cases c) (simp_all add: op_decode_def op_codes_def)

lemma op_decode_SomeD: "op_decode b = Some c \<Longrightarrow> b = op_byte c"
  by (auto simp: op_decode_def find_Some_iff)

lemma op_byte_inject [simp]: "op_byte c = op_byte d \<longleftrightarrow> c = d"
  by (metis op_decode_byte option.inject)

text \<open>Opcodes stay symbolic in proofs; \<open>op_decode_byte\<close> decodes them.\<close>

declare op_byte.simps [simp del]

section \<open>State\<close>

text \<open>
  What the machine writes on \<open>stdout\<close> (and, for \<open>Init_Null\<close>, on \<open>stderr\<close>), one event per
  \<open>printf\<close>, in chronological order.
\<close>

datatype vm_event =
    Init_Null             \<comment> \<open>"INIT: BYTECODE ARRAY EMPTY"\<close>
  | Init_Done             \<comment> \<open>"VM INITIALIZED SUCCESSFULLY"\<close>
  | Running_Op u8         \<comment> \<open>"now running op : %u"\<close>
  | Printed int           \<comment> \<open>"%d"\<close>

record vm =
  vm_code :: "u8 list"
  vm_ip :: nat
  vm_stack :: "int list"
  vm_sp :: int
  vm_globals :: "int list"
  vm_cstack :: "int list"
  vm_csp :: int
  vm_running :: bool
  vm_out :: "vm_event list"

definition vm_emit :: "vm_event \<Rightarrow> vm \<Rightarrow> vm" where
  "vm_emit e vm = vm\<lparr>vm_out := vm_out vm @ [e]\<rparr>"

text \<open>\<open>None\<close> is the null pointer.\<close>

definition vm_init :: "vm \<Rightarrow> u8 list option \<Rightarrow> vm" where
  "vm_init vm code =
     (case code of
        None \<Rightarrow> vm_emit Init_Null vm
      | Some c \<Rightarrow>
          vm_emit Init_Done
            (vm\<lparr>vm_code := c, vm_ip := 0, vm_sp := 0, vm_csp := 0,
               vm_globals := replicate 256 0, vm_stack := replicate 256 0,
               vm_cstack := replicate 256 0, vm_running := True\<rparr>))"

section \<open>The two stacks\<close>

definition vm_push :: "vm \<Rightarrow> int \<Rightarrow> vm result" where
  "vm_push vm num =
     (if vm_sp vm = 256 then Inl (Exit Stack_Overflow)
      else andthen (arr_set (vm_stack vm) (vm_sp vm) num)
        (\<lambda>st. Inr (vm\<lparr>vm_stack := st, vm_sp := vm_sp vm + 1\<rparr>)))"

definition vm_pop :: "vm \<Rightarrow> (int \<times> vm) result" where
  "vm_pop vm =
     (if vm_sp vm \<le> 0 then Inl (Exit Stack_Underflow)
      else (let vm = vm\<lparr>vm_sp := vm_sp vm - 1\<rparr>
            in andthen (arr_get (vm_stack vm) (vm_sp vm)) (\<lambda>popped. Inr (popped, vm))))"

definition vm_push_cs :: "vm \<Rightarrow> int \<Rightarrow> vm result" where
  "vm_push_cs vm ip =
     (if vm_csp vm = 256 then Inl (Exit Call_Overflow)
      else andthen (arr_set (vm_cstack vm) (vm_csp vm) ip)
        (\<lambda>st. Inr (vm\<lparr>vm_cstack := st, vm_csp := vm_csp vm + 1\<rparr>)))"

definition vm_pop_cs :: "vm \<Rightarrow> (int \<times> vm) result" where
  "vm_pop_cs vm =
     (if vm_csp vm \<le> 0 then Inl (Exit Call_Underflow)
      else (let vm = vm\<lparr>vm_csp := vm_csp vm - 1\<rparr>
            in andthen (arr_get (vm_cstack vm) (vm_csp vm)) (\<lambda>popped. Inr (popped, vm))))"

section \<open>One iteration of the loop\<close>

text \<open>\<open>vm->code[vm->ip++]\<close>\<close>

definition vm_fetch :: "vm \<Rightarrow> (u8 \<times> vm) result" where
  "vm_fetch vm =
     andthen (arr_get (vm_code vm) (int (vm_ip vm)))
       (\<lambda>b. Inr (b, vm\<lparr>vm_ip := vm_ip vm + 1\<rparr>))"

definition c_bool :: "bool \<Rightarrow> int" where
  "c_bool p = (if p then 1 else 0)"

definition vm_binop :: "(int \<Rightarrow> int \<Rightarrow> int result) \<Rightarrow> vm \<Rightarrow> vm result" where
  \<comment> \<open>\<open>b = pop; a = pop; push(a op b)\<close>\<close>
  "vm_binop f vm =
     andthen (vm_pop vm) (\<lambda>(b, vm).
     andthen (vm_pop vm) (\<lambda>(a, vm).
     andthen (f a b) (vm_push vm)))"

definition c_div :: "int \<Rightarrow> int \<Rightarrow> int result" where
  "c_div a b = (if b = 0 then Inl (Exit Division_By_Zero) else c_int (a sdiv b))"

fun vm_exec :: "OpCode \<Rightarrow> vm \<Rightarrow> vm result" where
  "vm_exec OP_PUSH vm = andthen (vm_fetch vm) (\<lambda>(b, vm). vm_push vm (uint b))"
| "vm_exec OP_POP vm = andthen (vm_pop vm) (\<lambda>(_, vm). Inr vm)"
| "vm_exec OP_ADD vm = vm_binop (\<lambda>a b. c_int (a + b)) vm"
| "vm_exec OP_SUB vm = vm_binop (\<lambda>a b. c_int (a - b)) vm"
| "vm_exec OP_MUL vm = vm_binop (\<lambda>a b. c_int (a * b)) vm"
| "vm_exec OP_DIV vm = vm_binop c_div vm"
| "vm_exec OP_EQ vm =
     andthen (vm_pop vm) (\<lambda>(a, vm).
     andthen (vm_pop vm) (\<lambda>(b, vm). vm_push vm (c_bool (a = b))))"
| "vm_exec OP_GT vm =
     andthen (vm_pop vm) (\<lambda>(a, vm).
     andthen (vm_pop vm) (\<lambda>(b, vm). vm_push vm (c_bool (a < b))))"
| "vm_exec OP_LT vm =
     andthen (vm_pop vm) (\<lambda>(a, vm).
     andthen (vm_pop vm) (\<lambda>(b, vm). vm_push vm (c_bool (a > b))))"
| "vm_exec OP_JMP vm =
     andthen (arr_get (vm_code vm) (int (vm_ip vm))) (\<lambda>b. Inr (vm\<lparr>vm_ip := unat b\<rparr>))"
| "vm_exec OP_JMP_IF_FALSE vm =
     andthen (vm_pop vm) (\<lambda>(cond, vm).
       if cond \<noteq> 0 then Inr (vm\<lparr>vm_ip := vm_ip vm + 1\<rparr>)
       else andthen (arr_get (vm_code vm) (int (vm_ip vm))) (\<lambda>b. Inr (vm\<lparr>vm_ip := unat b\<rparr>)))"
| "vm_exec OP_STORE vm =
     andthen (vm_pop vm) (\<lambda>(val, vm).
     andthen (vm_fetch vm) (\<lambda>(b, vm).
     andthen (arr_set (vm_globals vm) (uint b) val) (\<lambda>g. Inr (vm\<lparr>vm_globals := g\<rparr>))))"
| "vm_exec OP_LOAD vm =
     andthen (vm_fetch vm) (\<lambda>(b, vm).
     andthen (arr_get (vm_globals vm) (uint b)) (vm_push vm))"
| "vm_exec OP_CALL vm =
     andthen (vm_fetch vm) (\<lambda>(dest, vm).
     andthen (vm_push_cs vm (int_of_size (vm_ip vm))) (\<lambda>vm. Inr (vm\<lparr>vm_ip := unat dest\<rparr>)))"
| "vm_exec OP_RET vm =
     andthen (vm_pop_cs vm) (\<lambda>(ip, vm). Inr (vm\<lparr>vm_ip := size_of_int ip\<rparr>))"
| "vm_exec OP_PRINT vm = andthen (vm_pop vm) (\<lambda>(val, vm). Inr (vm_emit (Printed val) vm))"
| "vm_exec OP_HALT vm = Inr (vm\<lparr>vm_running := False\<rparr>)"

definition vm_step :: "vm \<Rightarrow> vm result" where
  "vm_step vm =
     andthen (vm_fetch vm) (\<lambda>(op, vm).
       let vm = vm_emit (Running_Op op) vm
       in case op_decode op of
            None \<Rightarrow> Inl (Exit (Unknown_Opcode op))
          | Some c \<Rightarrow> vm_exec c vm)"

text \<open>
  The loop \<open>while (vm->running)\<close> with fuel: \<open>None\<close> while the fuel does not reach the end,
  otherwise the final machine, or the error with the machine at the start of the iteration
  that raised it.
\<close>

fun vm_run :: "nat \<Rightarrow> vm \<Rightarrow> ((c_error \<times> vm) + vm) option" where
  "vm_run 0 vm = (if vm_running vm then None else Some (Inr vm))"
| "vm_run (Suc n) vm =
     (if vm_running vm
      then (case vm_step vm of Inl e \<Rightarrow> Some (Inl (e, vm)) | Inr vm' \<Rightarrow> vm_run n vm')
      else Some (Inr vm))"

end
