(* ===== verification/Codegen.thy ===== *)
theory Codegen
  imports Parser Vm
begin

text \<open>
  The code generator of \<^verbatim>\<open>bytecode-vm/compiler.c\<close>: \<open>walk\<close>, which writes the bytes of a
  tree into a fixed array and patches jump targets, \<open>generate_byte\<close> and \<open>main\<close>.
\<close>

section \<open>State\<close>

text \<open>
  \<open>gen_bytes\<close>/\<open>gen_count\<close> are \<open>byte_array\<close>/\<open>*byte_array_count\<close>; \<open>gen_vars\<close>/\<open>gen_var_count\<close> are
  the globals \<open>var_names\<close>/\<open>var_count\<close>. A row of \<open>var_names\<close> is the C string it holds, the empty
  string at program start. Names come from 32-character arrays, so they fit a row.
\<close>

record gen =
  gen_bytes :: "u8 list"
  gen_count :: nat
  gen_vars :: "string list"
  gen_var_count :: nat

text \<open>\<open>byte_array[(*byte_array_count)++] = b\<close>\<close>

definition emit_byte :: "u8 \<Rightarrow> gen \<Rightarrow> gen result" where
  "emit_byte b g =
     andthen (arr_set (gen_bytes g) (int (gen_count g)) b)
       (\<lambda>bs. Inr (g\<lparr>gen_bytes := bs, gen_count := gen_count g + 1\<rparr>))"

text \<open>\<open>byte_array[k] = *byte_array_count\<close>, the conversion to \<open>uint8_t\<close> included.\<close>

definition patch_byte :: "nat \<Rightarrow> gen \<Rightarrow> gen result" where
  "patch_byte k g =
     andthen (arr_set (gen_bytes g) (int k) (of_nat (gen_count g)))
       (\<lambda>bs. Inr (g\<lparr>gen_bytes := bs\<rparr>))"

text \<open>The loop \<open>for(int i=0; i < 256; i++)\<close> with \<open>strcmp\<close>: the first row equal to the name.\<close>

fun find_var :: "string list \<Rightarrow> string \<Rightarrow> nat option" where
  "find_var [] x = None"
| "find_var (y # ys) x = (if y = x then Some 0 else map_option Suc (find_var ys x))"

text \<open>\<open>statement->left->name\<close>; only identifier nodes have a name.\<close>

fun node_name :: "node \<Rightarrow> string result" where
  "node_name (NODE_IDENT x) = Inr x"
| "node_name _ = Inl (Undef Indeterminate_Read)"

section \<open>The generator\<close>

fun walk :: "node \<Rightarrow> gen \<Rightarrow> gen result"
and walk_body :: "node list \<Rightarrow> gen \<Rightarrow> gen result"
where
  "walk (NODE_NUM v) g =
     andthen (emit_byte (op_byte OP_PUSH) g) (emit_byte (word_of_int v))"
| "walk (NODE_IDENT x) g =
     andthen (emit_byte (op_byte OP_LOAD) g) (\<lambda>g.
       case find_var (gen_vars g) x of
         Some i \<Rightarrow> emit_byte (of_nat i) g
       | None \<Rightarrow> Inr g)"
| "walk (NODE_ADD l r) g =
     andthen (walk l g) (\<lambda>g. andthen (walk r g) (emit_byte (op_byte OP_ADD)))"
| "walk (NODE_SUB l r) g =
     andthen (walk l g) (\<lambda>g. andthen (walk r g) (emit_byte (op_byte OP_SUB)))"
| "walk (NODE_MUL l r) g =
     andthen (walk l g) (\<lambda>g. andthen (walk r g) (emit_byte (op_byte OP_MUL)))"
| "walk (NODE_DIV l r) g =
     andthen (walk l g) (\<lambda>g. andthen (walk r g) (emit_byte (op_byte OP_DIV)))"
| "walk (NODE_EQEQ l r) g =
     andthen (walk l g) (\<lambda>g. andthen (walk r g) (emit_byte (op_byte OP_EQ)))"
| "walk (NODE_GT l r) g =
     andthen (walk l g) (\<lambda>g. andthen (walk r g) (emit_byte (op_byte OP_GT)))"
| "walk (NODE_LT l r) g =
     andthen (walk l g) (\<lambda>g. andthen (walk r g) (emit_byte (op_byte OP_LT)))"
| "walk (NODE_ASSIGN l r) g =
     andthen (walk r g) (\<lambda>g.
     andthen (emit_byte (op_byte OP_STORE) g) (\<lambda>g.
     andthen (node_name l) (\<lambda>x.
       case find_var (gen_vars g) x of
         Some i \<Rightarrow> emit_byte (of_nat i) g
       | None \<Rightarrow>
           andthen (arr_set (gen_vars g) (int (gen_var_count g)) x) (\<lambda>vs.
           andthen (emit_byte (of_nat (gen_var_count g)) (g\<lparr>gen_vars := vs\<rparr>)) (\<lambda>g.
             Inr (g\<lparr>gen_var_count := gen_var_count g + 1\<rparr>))))))"
| "walk (NODE_PRINT l) g = andthen (walk l g) (emit_byte (op_byte OP_PRINT))"
| "walk (NODE_IF l body) g =
     andthen (walk l g) (\<lambda>g.
     andthen (emit_byte (op_byte OP_JMP_IF_FALSE) g) (\<lambda>g.
     let placeholder_index = gen_count g in
     andthen (emit_byte 0x00 g) (\<lambda>g.
     andthen (walk_body body g) (patch_byte placeholder_index))))"
| "walk (NODE_WHILE l body) g =
     (let loopback = gen_count g in
     andthen (walk l g) (\<lambda>g.
     andthen (emit_byte (op_byte OP_JMP_IF_FALSE) g) (\<lambda>g.
     let placeholder_index = gen_count g in
     andthen (emit_byte 0x00 g) (\<lambda>g.
     andthen (walk_body body g) (\<lambda>g.
     andthen (emit_byte (op_byte OP_JMP) g) (\<lambda>g.
     andthen (emit_byte (of_nat loopback) g) (patch_byte placeholder_index)))))))"
| "walk NODE_UNINIT g = Inl (Undef Indeterminate_Read)"
| "walk_body [] g = Inr g"
| "walk_body (s # ss) g = andthen (walk s g) (walk_body ss)"

text \<open>
  \<open>generate_byte\<close>: the array of 4096 bytes comes uninitialised from \<open>malloc\<close> (\<open>mem\<close>), the
  variable table is zeroed at program start; the result is the array.
\<close>

definition gen_start :: "u8 list \<Rightarrow> gen" where
  "gen_start mem = \<lparr>gen_bytes = mem, gen_count = 0, gen_vars = replicate 256 [], gen_var_count = 0\<rparr>"

definition generate :: "u8 list \<Rightarrow> node list \<Rightarrow> gen result" where
  "generate mem statements =
     andthen (walk_body statements (gen_start mem)) (\<lambda>g.
     andthen (arr_set (gen_bytes g) (int (gen_count g)) (op_byte OP_HALT)) (\<lambda>bs.
       Inr (g\<lparr>gen_bytes := bs\<rparr>)))"

definition generate_byte :: "u8 list \<Rightarrow> node list \<Rightarrow> u8 list result" where
  "generate_byte mem statements = andthen (generate mem statements) (\<lambda>g. Inr (gen_bytes g))"

section \<open>The whole pipeline\<close>

text \<open>
  \<open>main\<close> for any source text, up to the call of \<open>vm_run\<close>: lexer, parser, generator, and the
  machine after \<open>vm_init\<close>. \<open>t0\<close>, \<open>e0\<close>, \<open>mem\<close> and \<open>vm0\<close> are uninitialised memory.
\<close>

definition main_load :: "Token \<Rightarrow> Token \<Rightarrow> u8 list \<Rightarrow> vm \<Rightarrow> string \<Rightarrow> vm result" where
  "main_load t0 e0 mem vm0 source =
     andthen (lexer t0 e0 source) (\<lambda>(tokens, count).
     andthen (parser tokens) (\<lambda>statements.
     andthen (generate_byte mem statements) (\<lambda>bytecode.
       Inr (vm_init vm0 (Some bytecode)))))"

definition main_source :: string where
  "main_source = ''x = 3'' @ CHR 10 # ''while x > 0 {'' @ CHR 10 # ''print x'' @ CHR 10 # ''x = x - 1'' @ CHR 10 # ''}''"

end
