(* ===== verification/Compile.thy ===== *)
theory Compile
  imports Codegen Printer
begin

text \<open>
  The code \<open>walk\<close> generates, as a function of the tree: the variable table after a statement and
  the bytes of the statement at a given address. \<open>walk\<close>, with its array writes, its back
  patching and its in-place table, produces exactly these bytes.
\<close>

section \<open>The generated code as a function\<close>

fun index_of :: "string list \<Rightarrow> string \<Rightarrow> nat" where
  "index_of [] x = 0"
| "index_of (y # ys) x = (if y = x then 0 else Suc (index_of ys x))"

fun expr_code :: "string list \<Rightarrow> node \<Rightarrow> u8 list" where
  "expr_code vs (NODE_NUM n) = [op_byte OP_PUSH, word_of_int n]"
| "expr_code vs (NODE_IDENT x) = [op_byte OP_LOAD, of_nat (index_of vs x)]"
| "expr_code vs (NODE_ADD l r) = expr_code vs l @ expr_code vs r @ [op_byte OP_ADD]"
| "expr_code vs (NODE_SUB l r) = expr_code vs l @ expr_code vs r @ [op_byte OP_SUB]"
| "expr_code vs (NODE_MUL l r) = expr_code vs l @ expr_code vs r @ [op_byte OP_MUL]"
| "expr_code vs (NODE_DIV l r) = expr_code vs l @ expr_code vs r @ [op_byte OP_DIV]"
| "expr_code vs (NODE_GT l r) = expr_code vs l @ expr_code vs r @ [op_byte OP_GT]"
| "expr_code vs (NODE_LT l r) = expr_code vs l @ expr_code vs r @ [op_byte OP_LT]"
| "expr_code vs (NODE_EQEQ l r) = expr_code vs l @ expr_code vs r @ [op_byte OP_EQ]"
| "expr_code vs _ = []"

text \<open>The table after a statement: a variable gets the next row at its first assignment.\<close>

definition declare_var :: "string \<Rightarrow> string list \<Rightarrow> string list" where
  "declare_var x vs = (if x \<in> set vs then vs else vs @ [x])"

fun stmt_vars :: "node \<Rightarrow> string list \<Rightarrow> string list" where
  "stmt_vars (NODE_ASSIGN (NODE_IDENT x) e) vs = declare_var x vs"
| "stmt_vars (NODE_IF e body) vs = fold stmt_vars body vs"
| "stmt_vars (NODE_WHILE e body) vs = fold stmt_vars body vs"
| "stmt_vars _ vs = vs"

fun stmt_code :: "string list \<Rightarrow> nat \<Rightarrow> node \<Rightarrow> u8 list"
and body_code :: "string list \<Rightarrow> nat \<Rightarrow> node list \<Rightarrow> u8 list"
where
  "stmt_code vs pos (NODE_ASSIGN (NODE_IDENT x) e) =
     expr_code vs e @ [op_byte OP_STORE, of_nat (index_of (declare_var x vs) x)]"
| "stmt_code vs pos (NODE_PRINT e) = expr_code vs e @ [op_byte OP_PRINT]"
| "stmt_code vs pos (NODE_IF e body) =
     (let ce = expr_code vs e; cb = body_code vs (pos + length ce + 2) body
      in ce @ [op_byte OP_JMP_IF_FALSE, of_nat (pos + length ce + 2 + length cb)] @ cb)"
| "stmt_code vs pos (NODE_WHILE e body) =
     (let ce = expr_code vs e; cb = body_code vs (pos + length ce + 2) body
      in ce @ [op_byte OP_JMP_IF_FALSE, of_nat (pos + length ce + 2 + length cb + 2)] @ cb @
         [op_byte OP_JMP, of_nat pos])"
| "stmt_code vs pos _ = []"
| "body_code vs pos [] = []"
| "body_code vs pos (s # ss) =
     (let c = stmt_code vs pos s in c @ body_code (stmt_vars s vs) (pos + length c) ss)"

section \<open>Programs whose names are in order\<close>

text \<open>
  Every identifier of an expression is in the table (some earlier statement of the text assigns
  it), assigned names are not empty, and the table has room.
\<close>

fun names_ok :: "string list \<Rightarrow> node \<Rightarrow> bool" where
  "names_ok vs (NODE_NUM n) \<longleftrightarrow> True"
| "names_ok vs (NODE_IDENT x) \<longleftrightarrow> x \<in> set vs"
| "names_ok vs (NODE_ADD l r) \<longleftrightarrow> names_ok vs l \<and> names_ok vs r"
| "names_ok vs (NODE_SUB l r) \<longleftrightarrow> names_ok vs l \<and> names_ok vs r"
| "names_ok vs (NODE_MUL l r) \<longleftrightarrow> names_ok vs l \<and> names_ok vs r"
| "names_ok vs (NODE_DIV l r) \<longleftrightarrow> names_ok vs l \<and> names_ok vs r"
| "names_ok vs (NODE_GT l r) \<longleftrightarrow> names_ok vs l \<and> names_ok vs r"
| "names_ok vs (NODE_LT l r) \<longleftrightarrow> names_ok vs l \<and> names_ok vs r"
| "names_ok vs (NODE_EQEQ l r) \<longleftrightarrow> names_ok vs l \<and> names_ok vs r"
| "names_ok vs _ \<longleftrightarrow> False"

fun stmt_ok :: "string list \<Rightarrow> node \<Rightarrow> bool"
and body_ok :: "string list \<Rightarrow> node list \<Rightarrow> bool"
where
  "stmt_ok vs (NODE_ASSIGN (NODE_IDENT x) e) \<longleftrightarrow>
     names_ok vs e \<and> x \<noteq> [] \<and> length (declare_var x vs) \<le> 256"
| "stmt_ok vs (NODE_PRINT e) \<longleftrightarrow> names_ok vs e"
| "stmt_ok vs (NODE_IF e body) \<longleftrightarrow> names_ok vs e \<and> body_ok vs body"
| "stmt_ok vs (NODE_WHILE e body) \<longleftrightarrow> names_ok vs e \<and> body_ok vs body"
| "stmt_ok vs _ \<longleftrightarrow> False"
| "body_ok vs [] \<longleftrightarrow> True"
| "body_ok vs (s # ss) \<longleftrightarrow> stmt_ok vs s \<and> body_ok (stmt_vars s vs) ss"

section \<open>\<open>walk\<close> writes this code\<close>

text \<open>Writing a list of bytes at the current position, the table unchanged.\<close>

definition put_code :: "u8 list \<Rightarrow> gen \<Rightarrow> gen" where
  "put_code c g = g\<lparr>gen_bytes := take (gen_count g) (gen_bytes g) @ c @
       drop (gen_count g + length c) (gen_bytes g),
     gen_count := gen_count g + length c\<rparr>"

definition room :: "gen \<Rightarrow> nat \<Rightarrow> bool" where
  "room g n \<longleftrightarrow> gen_count g + n \<le> length (gen_bytes g)"

definition table :: "string list \<Rightarrow> gen \<Rightarrow> bool" where
  "table vs g \<longleftrightarrow> gen_vars g = vs @ replicate (256 - length vs) [] \<and> gen_var_count g = length vs
     \<and> length vs \<le> 256 \<and> distinct vs \<and> [] \<notin> set vs"

lemma put_code_nil [simp]: "put_code [] g = g"
  by (simp add: put_code_def)

lemma put_code_sel [simp]:
  "gen_count (put_code c g) = gen_count g + length c"
  "gen_vars (put_code c g) = gen_vars g"
  "gen_var_count (put_code c g) = gen_var_count g"
  "room g (length c) \<Longrightarrow> length (gen_bytes (put_code c g)) = length (gen_bytes g)"
  by (simp_all add: put_code_def room_def)

lemma put_code_append:
  "room g (length a + length b) \<Longrightarrow> put_code b (put_code a g) = put_code (a @ b) g"
  by (simp add: put_code_def room_def ac_simps)

lemma room_put [simp]: "room g (length c) \<Longrightarrow> room (put_code c g) n \<longleftrightarrow> room g (length c + n)"
  by (auto simp: room_def)

lemma room_mono: "room g n \<Longrightarrow> m \<le> n \<Longrightarrow> room g m"
  by (simp add: room_def)

lemma emit_byte_put: "room g 1 \<Longrightarrow> emit_byte b g = Inr (put_code [b] g)"
  by (simp add: emit_byte_def put_code_def room_def upd_conv_take_nth_drop)

lemma patch_byte_put:
  assumes "room g (Suc (length a + length b))"
  shows "patch_byte (gen_count g + length a) (put_code (a @ x # b) g) =
    Inr (put_code (a @ of_nat (gen_count g + Suc (length a + length b)) # b) g)"
proof -
  have "gen_count g + length a < length (gen_bytes (put_code (a @ x # b) g))"
    using assms by (simp add: room_def)
  then show ?thesis
    using assms by (simp add: patch_byte_def put_code_def room_def list_update_append)
qed

subsection \<open>Expressions\<close>

lemma find_var_table:
  "find_var (vs @ rest) x = (if x \<in> set vs then Some (index_of vs x)
     else map_option (\<lambda>i. length vs + i) (find_var rest x))"
  by (induction vs; cases "find_var rest x") auto

lemma find_var_padding: "x \<noteq> [] \<Longrightarrow> find_var (replicate n []) x = None"
  by (induction n) auto

lemma find_var_known: "table vs g \<Longrightarrow> x \<in> set vs \<Longrightarrow> find_var (gen_vars g) x = Some (index_of vs x)"
  by (simp add: table_def find_var_table)

lemma find_var_new: "table vs g \<Longrightarrow> x \<notin> set vs \<Longrightarrow> x \<noteq> [] \<Longrightarrow> find_var (gen_vars g) x = None"
  by (simp add: table_def find_var_table find_var_padding)

lemma table_put [simp]: "table vs (put_code c g) \<longleftrightarrow> table vs g"
  by (simp add: table_def)

lemma walk_binary:
  assumes "\<And>g. table vs g \<Longrightarrow> room g (length cl) \<Longrightarrow> walk l g = Inr (put_code cl g)"
    and "\<And>g. table vs g \<Longrightarrow> room g (length cr) \<Longrightarrow> walk r g = Inr (put_code cr g)"
    and "table vs g" "room g (length (cl @ cr @ [b]))"
  shows "andthen (walk l g) (\<lambda>g. andthen (walk r g) (emit_byte b)) = Inr (put_code (cl @ cr @ [b]) g)"
proof -
  have room: "room g (length cl)" "room g (length cl + length cr)" "room g (length cl + length cr + 1)"
    using assms(4) by (auto simp: room_def)
  then show ?thesis
    using assms(1-3) by (simp add: emit_byte_put put_code_append add.assoc)
qed

lemma walk_expr:
  "names_ok vs e \<Longrightarrow> table vs g \<Longrightarrow> room g (length (expr_code vs e)) \<Longrightarrow>
    walk e g = Inr (put_code (expr_code vs e) g)"
proof (induction e arbitrary: g)
  case (NODE_NUM n)
  then have "room g 1" by (auto elim: room_mono)
  with NODE_NUM show ?case by (simp add: emit_byte_put put_code_append)
next
  case (NODE_IDENT x)
  then have "room g 1" by (auto elim: room_mono)
  with NODE_IDENT show ?case by (simp add: emit_byte_put put_code_append find_var_known)
qed (simp_all only: walk.simps expr_code.simps names_ok.simps walk_binary [of vs])

subsection \<open>Statements\<close>

definition set_table :: "string list \<Rightarrow> gen \<Rightarrow> gen" where
  "set_table vs g = g\<lparr>gen_vars := vs @ replicate (256 - length vs) [], gen_var_count := length vs\<rparr>"

definition wf_vars :: "string list \<Rightarrow> bool" where
  "wf_vars vs \<longleftrightarrow> length vs \<le> 256 \<and> distinct vs \<and> [] \<notin> set vs"

lemma table_iff: "table vs g \<longleftrightarrow> wf_vars vs \<and> set_table vs g = g"
  by (cases g) (auto simp: table_def wf_vars_def set_table_def)

lemma set_table_sel [simp]:
  "gen_count (set_table vs g) = gen_count g" "gen_bytes (set_table vs g) = gen_bytes g"
  "set_table vs (set_table us g) = set_table vs g" "room (set_table vs g) n = room g n"
  by (simp_all add: set_table_def room_def)

lemma put_set_table: "put_code c (set_table vs g) = set_table vs (put_code c g)"
  by (simp add: put_code_def set_table_def)

lemma wf_declare: "wf_vars vs \<Longrightarrow> x \<noteq> [] \<Longrightarrow> length (declare_var x vs) \<le> 256 \<Longrightarrow> wf_vars (declare_var x vs)"
  by (auto simp: wf_vars_def declare_var_def)

lemma wf_stmt_vars:
  "stmt_ok vs s \<Longrightarrow> wf_vars vs \<Longrightarrow> wf_vars (stmt_vars s vs)"
  "body_ok vs ss \<Longrightarrow> wf_vars vs \<Longrightarrow> wf_vars (fold stmt_vars ss vs)"
  by (induction vs s and vs ss rule: stmt_ok_body_ok.induct) (auto intro: wf_declare)

lemma index_of_append: "index_of (vs @ ws) x = (if x \<in> set vs then index_of vs x else length vs + index_of ws x)"
  by (induction vs) auto

lemma arr_set_table:
  assumes "table vs g" "length vs < 256"
  shows "arr_set (gen_vars g) (int (gen_var_count g)) x = Inr (vs @ x # replicate (255 - length vs) [])"
proof -
  have "replicate (256 - length vs) ([] :: string) = [] # replicate (255 - length vs) []"
    using assms(2) by (simp add: Suc_diff_le flip: replicate_Suc)
  then show ?thesis using assms by (simp add: table_def list_update_append)
qed

lemma walk_assign:
  assumes "names_ok vs e" "x \<noteq> []" "length (declare_var x vs) \<le> 256" "table vs g"
    and "room g (length (stmt_code vs p (NODE_ASSIGN (NODE_IDENT x) e)))"
  shows "walk (NODE_ASSIGN (NODE_IDENT x) e) g =
    Inr (set_table (declare_var x vs) (put_code (stmt_code vs p (NODE_ASSIGN (NODE_IDENT x) e)) g))"
proof -
  let ?c = "expr_code vs e"
  have room: "room g (length ?c)" "room g (length ?c + 1)" "room g (Suc (Suc (length ?c)))"
    using assms(5) by (auto simp: room_def)
  show ?thesis
  proof (cases "x \<in> set vs")
    case True
    then have "find_var (gen_vars g) x = Some (index_of vs x)" "declare_var x vs = vs"
      using assms(4) by (simp_all add: find_var_known declare_var_def)
    with assms(1,4) room show ?thesis
      by (simp add: walk_expr emit_byte_put put_code_append table_iff flip: put_set_table)
  next
    case False
    let ?g = "put_code (?c @ [op_byte OP_STORE]) g"
    have new: "find_var (gen_vars g) x = None" "declare_var x vs = vs @ [x]" "length vs < 256"
      using assms(2-4) False by (simp_all add: find_var_new declare_var_def)
    have w: "andthen (walk e g) (emit_byte (op_byte OP_STORE)) = Inr ?g"
      using assms(1,4) room by (simp add: walk_expr emit_byte_put put_code_append)
    have s: "arr_set (gen_vars ?g) (int (gen_var_count ?g)) x = Inr (vs @ x # replicate (255 - length vs) [])"
      using arr_set_table [of vs ?g x] assms(4) new(3) by simp
    have cnt: "gen_var_count g = length vs" using assms(4) by (simp add: table_def)
    have e: "emit_byte (of_nat (length vs)) (?g\<lparr>gen_vars := ws\<rparr>) =
        Inr ((put_code [of_nat (length vs)] ?g)\<lparr>gen_vars := ws\<rparr>)" for ws
      using emit_byte_put [of "?g\<lparr>gen_vars := ws\<rparr>" "of_nat (length vs)"] room
      by (simp add: room_def put_code_def)
    have "walk (NODE_ASSIGN (NODE_IDENT x) e) g =
      Inr ((put_code [of_nat (length vs)] ?g)\<lparr>gen_vars := vs @ x # replicate (255 - length vs) [],
        gen_var_count := length vs + 1\<rparr>)"
      using s e new(1) by (simp add: andthen_assoc [symmetric] w cnt)
    also have "\<dots> = Inr (set_table (vs @ [x]) (put_code (?c @ [op_byte OP_STORE, of_nat (length vs)]) g))"
      using room new(3) by (simp add: put_code_append set_table_def)
    finally show ?thesis using new(2) False by (simp add: index_of_append)
  qed
qed

lemma body_code_length_mono: "length (stmt_code vs pos s) \<le> length (body_code vs pos (s # ss))"
  by (simp add: Let_def)

lemma patch_set_table: "patch_byte k (set_table vs g) = andthen (patch_byte k g) (\<lambda>g. Inr (set_table vs g))"
  by (cases "arr_set (gen_bytes g) (int k) (of_nat (gen_count g) :: u8)")
    (simp_all add: patch_byte_def set_table_def)

lemma emit_set_table: "emit_byte b (set_table vs g) = andthen (emit_byte b g) (\<lambda>g. Inr (set_table vs g))"
  by (cases "arr_set (gen_bytes g) (int (gen_count g)) b")
    (simp_all add: emit_byte_def set_table_def)

lemma walk_if:
  assumes "names_ok vs e" "table vs g" "room g (length (stmt_code vs (gen_count g) (NODE_IF e body)))"
    and body: "\<And>g. table vs g \<Longrightarrow> room g (length (body_code vs (gen_count g) body)) \<Longrightarrow>
      walk_body body g = Inr (set_table vs' (put_code (body_code vs (gen_count g) body) g))"
  shows "walk (NODE_IF e body) g =
    Inr (set_table vs' (put_code (stmt_code vs (gen_count g) (NODE_IF e body)) g))"
proof -
  let ?ce = "expr_code vs e"
  let ?cb = "body_code vs (gen_count g + length ?ce + 2) body"
  let ?a = "?ce @ [op_byte OP_JMP_IF_FALSE]"
  let ?g = "put_code (?a @ [0]) g"
  have room: "room g (length ?ce)" "room g (length ?ce + 1)" "room g (length ?ce + 2)"
    "room g (Suc (Suc (length ?ce + length ?cb)))"
    using assms(3) by (auto simp: room_def Let_def)
  have p: "andthen (walk e g) (emit_byte (op_byte OP_JMP_IF_FALSE)) = Inr (put_code ?a g)"
    "emit_byte 0 (put_code ?a g) = Inr ?g"
    using assms(1,2) room by (simp_all add: walk_expr emit_byte_put put_code_append)
  have b: "walk_body body ?g = Inr (set_table vs' (put_code (?a @ 0 # ?cb) g))"
    using body [of ?g] assms(2) room by (simp add: put_code_append add.assoc)
  have q: "patch_byte (gen_count g + length ?a) (put_code (?a @ 0 # ?cb) g) =
      Inr (put_code (?a @ of_nat (gen_count g + Suc (length ?a + length ?cb)) # ?cb) g)"
    using room by (intro patch_byte_put) simp
  show ?thesis
    using b q by (simp add: andthen_assoc [symmetric] p Let_def patch_set_table add.assoc)
qed

lemma walk_while:
  assumes "names_ok vs e" "table vs g" "room g (length (stmt_code vs (gen_count g) (NODE_WHILE e body)))"
    and body: "\<And>g. table vs g \<Longrightarrow> room g (length (body_code vs (gen_count g) body)) \<Longrightarrow>
      walk_body body g = Inr (set_table vs' (put_code (body_code vs (gen_count g) body) g))"
  shows "walk (NODE_WHILE e body) g =
    Inr (set_table vs' (put_code (stmt_code vs (gen_count g) (NODE_WHILE e body)) g))"
proof -
  let ?ce = "expr_code vs e"
  let ?cb = "body_code vs (gen_count g + length ?ce + 2) body"
  let ?a = "?ce @ [op_byte OP_JMP_IF_FALSE]"
  let ?b = "?cb @ [op_byte OP_JMP, of_nat (gen_count g)]"
  let ?g = "put_code (?a @ [0]) g"
  have room: "room g (length ?ce)" "room g (length ?ce + 1)" "room g (length ?ce + 2)"
    "room g (Suc (Suc (length ?ce + length ?cb)))" "room g (Suc (Suc (Suc (length ?ce + length ?cb))))"
    "room g (Suc (Suc (Suc (Suc (length ?ce + length ?cb)))))"
    using assms(3) by (auto simp: room_def Let_def)
  have p: "andthen (walk e g) (emit_byte (op_byte OP_JMP_IF_FALSE)) = Inr (put_code ?a g)"
    "emit_byte 0 (put_code ?a g) = Inr ?g"
    using assms(1,2) room by (simp_all add: walk_expr emit_byte_put put_code_append)
  have b: "walk_body body ?g = Inr (set_table vs' (put_code (?a @ 0 # ?cb) g))"
    using body [of ?g] assms(2) room by (simp add: put_code_append add.assoc)
  have j: "emit_byte (op_byte OP_JMP) (put_code (?a @ 0 # ?cb) g) = Inr (put_code (?a @ 0 # ?cb @ [op_byte OP_JMP]) g)"
    "emit_byte (of_nat (gen_count g)) (put_code (?a @ 0 # ?cb @ [op_byte OP_JMP]) g) = Inr (put_code (?a @ 0 # ?b) g)"
    using room by (simp_all add: emit_byte_put put_code_append)
  have q: "patch_byte (gen_count g + length ?a) (put_code (?a @ 0 # ?b) g) =
      Inr (put_code (?a @ of_nat (gen_count g + Suc (length ?a + length ?b)) # ?b) g)"
    using room by (intro patch_byte_put) simp
  show ?thesis
    using b j q
    by (simp add: andthen_assoc [symmetric] p Let_def patch_set_table emit_set_table add.assoc)
qed

lemma walk_stmt:
  "stmt_ok vs s \<Longrightarrow> (\<And>g. table vs g \<Longrightarrow> room g (length (stmt_code vs (gen_count g) s)) \<Longrightarrow>
    walk s g = Inr (set_table (stmt_vars s vs) (put_code (stmt_code vs (gen_count g) s) g)))"
  "body_ok vs ss \<Longrightarrow> (\<And>g. table vs g \<Longrightarrow> room g (length (body_code vs (gen_count g) ss)) \<Longrightarrow>
    walk_body ss g = Inr (set_table (fold stmt_vars ss vs) (put_code (body_code vs (gen_count g) ss) g)))"
proof (induction vs s and vs ss rule: stmt_ok_body_ok.induct)
  case (1 vs x e)
  then show ?case using walk_assign by (simp del: walk.simps stmt_code.simps)
next
  case (2 vs e)
  then have "room g (length (expr_code vs e))" "room g (length (expr_code vs e) + 1)"
    by (auto simp: room_def)
  with 2 show ?case by (simp add: walk_expr emit_byte_put put_code_append table_iff flip: put_set_table)
next
  case (3 vs e body)
  then show ?case by (simp del: walk.simps stmt_code.simps add: walk_if)
next
  case (4 vs e body)
  then show ?case by (simp del: walk.simps stmt_code.simps add: walk_while)
next
  case (6 vs)
  then show ?case by (simp add: table_iff)
next
  case (7 vs s ss)
  let ?c = "stmt_code vs (gen_count g) s"
  let ?g = "set_table (stmt_vars s vs) (put_code ?c g)"
  have room: "room g (length ?c)" using "7.prems"(3) by (auto simp: room_def Let_def)
  have "walk s g = Inr ?g" using "7.IH"(1) "7.prems" room by simp
  moreover have "table (stmt_vars s vs) ?g"
    using "7.prems"(1,2) by (simp add: table_iff wf_stmt_vars)
  moreover have "room ?g (length (body_code (stmt_vars s vs) (gen_count ?g) ss))"
    using "7.prems"(3) room by (simp add: Let_def)
  ultimately show ?case
    using "7.IH"(2) [of ?g] "7.prems"(1,3) by (simp add: Let_def put_set_table put_code_append)
qed simp_all

section \<open>\<open>generate_byte\<close>\<close>

lemma table_start: "table [] (gen_start mem)"
  by (simp add: table_def gen_start_def)

lemma generate_code:
  assumes "body_ok [] ss" "length (body_code [] 0 ss) < length mem"
  shows "generate mem ss = Inr (set_table (fold stmt_vars ss [])
    ((put_code (body_code [] 0 ss) (gen_start mem))\<lparr>gen_bytes := body_code [] 0 ss @ op_byte OP_HALT #
      drop (Suc (length (body_code [] 0 ss))) mem\<rparr>))"
proof -
  let ?c = "body_code [] 0 ss"
  have "room (gen_start mem) (length ?c)" using assms(2) by (simp add: room_def gen_start_def)
  then have "walk_body ss (gen_start mem) =
      Inr (set_table (fold stmt_vars ss []) (put_code ?c (gen_start mem)))"
    using walk_stmt(2) [OF assms(1) table_start] by (simp add: gen_start_def)
  then show ?thesis
    using assms(2)
    by (simp add: generate_def put_code_def set_table_def gen_start_def list_update_append Cons_nth_drop_Suc [symmetric])
qed

lemma generate_byte_code:
  assumes "body_ok [] ss" "length (body_code [] 0 ss) < length mem"
  shows "generate_byte mem ss =
    Inr (body_code [] 0 ss @ op_byte OP_HALT # drop (Suc (length (body_code [] 0 ss))) mem)"
  using generate_code [OF assms] by (simp add: generate_byte_def)

text \<open>
  Property C9. The generator writes the reference code: for a program whose names are in order and
  whose code leaves room for the final \<open>OP_HALT\<close>, the recursive \<open>walk\<close>, with its table look-ups
  and its jump targets patched in afterwards, fills the array with exactly the bytes of
  \<open>body_code\<close> and \<open>OP_HALT\<close>, and leaves the rest of the array as \<open>malloc\<close> gave it.
\<close>

theorem generator_writes_reference:
  assumes "body_ok [] ss" "length (body_code [] 0 ss) < length mem"
  shows "generate_byte mem ss =
    Inr (body_code [] 0 ss @ op_byte OP_HALT # drop (Suc (length (body_code [] 0 ss))) mem)"
  by (rule generate_byte_code [OF assms])

theorem generator_writes_reference_witness:
  "generate_byte (replicate 8 0) [NODE_ASSIGN (NODE_IDENT ''x'') (NODE_NUM 4), NODE_PRINT (NODE_IDENT ''x'')] =
    Inr [1, 4, 0x0E, 0, 0x0D, 0, 7, 0xFF]"
  using generator_writes_reference [of "[NODE_ASSIGN (NODE_IDENT ''x'') (NODE_NUM 4), NODE_PRINT (NODE_IDENT ''x'')]" "replicate 8 0"]
  by (simp add: Let_def declare_var_def op_byte.simps)

end
