(* ===== verification/Source_Sem.thy ===== *)
theory Source_Sem
  imports Printer Vm
begin

text \<open>
  The meaning of the source language of \<^verbatim>\<open>compiler.c\<close>, written independently of the
  compiler: values are C \<open>int\<close>s, a comparison gives 0 or 1, variables start at 0, a faulting
  operation ends the program. A statement relates a state to the next state, or to the fault and
  what was printed before it. This is the specification the compiled code is checked against.
\<close>

type_synonym env = "string \<Rightarrow> int"
type_synonym sstate = "env \<times> int list"
type_synonym outcome = "(c_error \<times> int list) + sstate"

fun eval :: "env \<Rightarrow> node \<Rightarrow> int result" where
  "eval s (NODE_NUM n) = Inr n"
| "eval s (NODE_IDENT x) = Inr (s x)"
| "eval s (NODE_ADD l r) = andthen (eval s l) (\<lambda>a. andthen (eval s r) (\<lambda>b. c_int (a + b)))"
| "eval s (NODE_SUB l r) = andthen (eval s l) (\<lambda>a. andthen (eval s r) (\<lambda>b. c_int (a - b)))"
| "eval s (NODE_MUL l r) = andthen (eval s l) (\<lambda>a. andthen (eval s r) (\<lambda>b. c_int (a * b)))"
| "eval s (NODE_DIV l r) = andthen (eval s l) (\<lambda>a. andthen (eval s r) (\<lambda>b.
     if b = 0 then Inl (Exit Division_By_Zero) else c_int (a sdiv b)))"
| "eval s (NODE_GT l r) = andthen (eval s l) (\<lambda>a. andthen (eval s r) (\<lambda>b. Inr (if a > b then 1 else 0)))"
| "eval s (NODE_LT l r) = andthen (eval s l) (\<lambda>a. andthen (eval s r) (\<lambda>b. Inr (if a < b then 1 else 0)))"
| "eval s (NODE_EQEQ l r) = andthen (eval s l) (\<lambda>a. andthen (eval s r) (\<lambda>b. Inr (if a = b then 1 else 0)))"
| "eval s _ = Inl (Undef Indeterminate_Read)"

inductive exec :: "node \<Rightarrow> sstate \<Rightarrow> outcome \<Rightarrow> bool"
  and exec_body :: "node list \<Rightarrow> sstate \<Rightarrow> outcome \<Rightarrow> bool"
where
  Assign: "eval s e = Inr v \<Longrightarrow> exec (NODE_ASSIGN (NODE_IDENT x) e) (s, out) (Inr (s(x := v), out))"
| Assign_Fault: "eval s e = Inl f \<Longrightarrow> exec (NODE_ASSIGN (NODE_IDENT x) e) (s, out) (Inl (f, out))"
| Print: "eval s e = Inr v \<Longrightarrow> exec (NODE_PRINT e) (s, out) (Inr (s, out @ [v]))"
| Print_Fault: "eval s e = Inl f \<Longrightarrow> exec (NODE_PRINT e) (s, out) (Inl (f, out))"
| If_True: "eval s e = Inr v \<Longrightarrow> v \<noteq> 0 \<Longrightarrow> exec_body body (s, out) r \<Longrightarrow>
    exec (NODE_IF e body) (s, out) r"
| If_False: "eval s e = Inr 0 \<Longrightarrow> exec (NODE_IF e body) (s, out) (Inr (s, out))"
| If_Fault: "eval s e = Inl f \<Longrightarrow> exec (NODE_IF e body) (s, out) (Inl (f, out))"
| While_True: "eval s e = Inr v \<Longrightarrow> v \<noteq> 0 \<Longrightarrow> exec_body body (s, out) (Inr t) \<Longrightarrow>
    exec (NODE_WHILE e body) t r \<Longrightarrow> exec (NODE_WHILE e body) (s, out) r"
| While_Body_Fault: "eval s e = Inr v \<Longrightarrow> v \<noteq> 0 \<Longrightarrow> exec_body body (s, out) (Inl f) \<Longrightarrow>
    exec (NODE_WHILE e body) (s, out) (Inl f)"
| While_False: "eval s e = Inr 0 \<Longrightarrow> exec (NODE_WHILE e body) (s, out) (Inr (s, out))"
| While_Fault: "eval s e = Inl f \<Longrightarrow> exec (NODE_WHILE e body) (s, out) (Inl (f, out))"
| Body_Nil: "exec_body [] st (Inr st)"
| Body_Cons: "exec c st (Inr t) \<Longrightarrow> exec_body cs t r \<Longrightarrow> exec_body (c # cs) st r"
| Body_Fault: "exec c st (Inl f) \<Longrightarrow> exec_body (c # cs) st (Inl f)"

inductive_cases exec_assignE [elim!]: "exec (NODE_ASSIGN l e) st r"
inductive_cases exec_printE [elim!]: "exec (NODE_PRINT e) st r"
inductive_cases exec_ifE: "exec (NODE_IF e body) st r"
inductive_cases exec_whileE: "exec (NODE_WHILE e body) st r"
inductive_cases exec_nilE [elim!]: "exec_body [] st r"
inductive_cases exec_consE: "exec_body (c # cs) st r"

text \<open>The semantics is deterministic.\<close>

definition only_value :: "('a \<Rightarrow> bool) \<Rightarrow> 'a \<Rightarrow> bool" where
  "only_value P r \<longleftrightarrow> (\<forall>r'. P r' \<longrightarrow> r' = r)"

lemma only_valueI: "(\<And>r'. P r' \<Longrightarrow> r' = r) \<Longrightarrow> only_value P r"
  by (simp add: only_value_def)

lemma only_valueD: "only_value P r \<Longrightarrow> P r' \<Longrightarrow> r' = r"
  by (simp add: only_value_def)

lemma exec_deterministic_aux:
  "exec c st r \<Longrightarrow> only_value (exec c st) r"
  "exec_body cs st r \<Longrightarrow> only_value (exec_body cs st) r"
proof (induction rule: exec_exec_body.inducts)
  case (If_True s e v body out r)
  show ?case
  proof (rule only_valueI)
    fix r' assume "exec (NODE_IF e body) (s, out) r'"
    then show "r' = r" by (rule exec_ifE) (use If_True in \<open>auto dest: only_valueD\<close>)
  qed
next
  case (If_False s e body out)
  show ?case
  proof (rule only_valueI)
    fix r' assume "exec (NODE_IF e body) (s, out) r'"
    then show "r' = Inr (s, out)" by (rule exec_ifE) (use If_False in \<open>auto dest: only_valueD\<close>)
  qed
next
  case (If_Fault s e f body out)
  show ?case
  proof (rule only_valueI)
    fix r' assume "exec (NODE_IF e body) (s, out) r'"
    then show "r' = Inl (f, out)" by (rule exec_ifE) (use If_Fault in \<open>auto dest: only_valueD\<close>)
  qed
next
  case (While_True s e v body out t r)
  show ?case
  proof (rule only_valueI)
    fix r' assume "exec (NODE_WHILE e body) (s, out) r'"
    then show "r' = r" by (rule exec_whileE) (use While_True in \<open>auto dest: only_valueD\<close>)
  qed
next
  case (While_Body_Fault s e v body out f)
  show ?case
  proof (rule only_valueI)
    fix r' assume "exec (NODE_WHILE e body) (s, out) r'"
    then show "r' = Inl f" by (rule exec_whileE) (use While_Body_Fault in \<open>auto dest: only_valueD\<close>)
  qed
next
  case (While_False s e body out)
  show ?case
  proof (rule only_valueI)
    fix r' assume "exec (NODE_WHILE e body) (s, out) r'"
    then show "r' = Inr (s, out)" by (rule exec_whileE) (use While_False in \<open>auto dest: only_valueD\<close>)
  qed
next
  case (While_Fault s e f body out)
  show ?case
  proof (rule only_valueI)
    fix r' assume "exec (NODE_WHILE e body) (s, out) r'"
    then show "r' = Inl (f, out)" by (rule exec_whileE) (use While_Fault in \<open>auto dest: only_valueD\<close>)
  qed
next
  case (Body_Cons c st t cs r)
  show ?case
  proof (rule only_valueI)
    fix r' assume "exec_body (c # cs) st r'"
    then show "r' = r" by (rule exec_consE) (use Body_Cons in \<open>auto dest: only_valueD\<close>)
  qed
next
  case (Body_Fault c st f cs)
  show ?case
  proof (rule only_valueI)
    fix r' assume "exec_body (c # cs) st r'"
    then show "r' = Inl f" by (rule exec_consE) (use Body_Fault in \<open>auto dest: only_valueD\<close>)
  qed
qed (auto intro!: only_valueI)

lemmas exec_deterministic = only_valueD [OF exec_deterministic_aux(1)]
lemmas exec_body_deterministic = only_valueD [OF exec_deterministic_aux(2)]

section \<open>An interpreter\<close>

text \<open>The semantics as a program, for concrete runs: \<open>None\<close> when the fuel runs out.\<close>

fun interp :: "nat \<Rightarrow> node list \<Rightarrow> sstate \<Rightarrow> outcome option" where
  "interp 0 ss st = None"
| "interp (Suc n) [] st = Some (Inr st)"
| "interp (Suc n) (NODE_ASSIGN (NODE_IDENT x) e # ss) (s, out) = (case eval s e of
     Inl f \<Rightarrow> Some (Inl (f, out)) | Inr v \<Rightarrow> interp n ss (s(x := v), out))"
| "interp (Suc n) (NODE_PRINT e # ss) (s, out) = (case eval s e of
     Inl f \<Rightarrow> Some (Inl (f, out)) | Inr v \<Rightarrow> interp n ss (s, out @ [v]))"
| "interp (Suc n) (NODE_IF e body # ss) (s, out) = (case eval s e of
     Inl f \<Rightarrow> Some (Inl (f, out))
   | Inr v \<Rightarrow> if v = 0 then interp n ss (s, out) else (case interp n body (s, out) of
       Some (Inr t) \<Rightarrow> interp n ss t | r \<Rightarrow> r))"
| "interp (Suc n) (NODE_WHILE e body # ss) (s, out) = (case eval s e of
     Inl f \<Rightarrow> Some (Inl (f, out))
   | Inr v \<Rightarrow> if v = 0 then interp n ss (s, out) else (case interp n body (s, out) of
       Some (Inr t) \<Rightarrow> interp n (NODE_WHILE e body # ss) t | r \<Rightarrow> r))"
| "interp (Suc n) _ st = None"

lemma while_step:
  assumes "eval s e = Inr v" "v \<noteq> 0" "exec_body body (s, out) (Inr t)"
    and "exec_body (NODE_WHILE e body # ss) t r"
  shows "exec_body (NODE_WHILE e body # ss) (s, out) r"
  using assms(4)
  by (rule exec_consE) (use assms(1-3) in \<open>auto intro: Body_Cons Body_Fault While_True\<close>)

lemma interp_sound: "interp n ss st = Some r \<Longrightarrow> exec_body ss st r"
proof (induction n ss st arbitrary: r rule: interp.induct)
  case (6 n e body ss s out)
  then show ?case
    by (auto split: sum.splits if_splits option.splits
        intro: Body_Fault While_Fault Body_Cons While_False While_Body_Fault)
      (blast intro: while_step)
next
  case (5 n e body ss s out)
  then show ?case
    by (auto split: sum.splits if_splits option.splits
        intro: Body_Fault If_Fault Body_Cons If_False If_True)
      (blast intro: Body_Cons If_True)
qed (auto split: sum.splits intro: Body_Nil Body_Cons Body_Fault Assign Assign_Fault Print Print_Fault)

end
