(* ===== verification/Vm_Spec.thy ===== *)
theory Vm_Spec
  imports Vm
begin

text \<open>
  What the machine of \<^verbatim>\<open>vm.c\<close> promises: two bounded LIFO stacks (a locale, interpreted on
  \<open>vm_push\<close>/\<open>vm_pop\<close> and on \<open>vm_push_cs\<close>/\<open>vm_pop_cs\<close>), a type invariant \<open>vm_wf\<close> kept by
  every step, and an abstract machine over lists that the array machine implements step by step,
  errors included.
\<close>

section \<open>Bounded stacks\<close>

fun push_all :: "('s \<Rightarrow> int \<Rightarrow> 's result) \<Rightarrow> 's \<Rightarrow> int list \<Rightarrow> 's result" where
  "push_all push s [] = Inr s"
| "push_all push s (v # vs) = andthen (push s v) (\<lambda>s. push_all push s vs)"

fun pop_many :: "('s \<Rightarrow> (int \<times> 's) result) \<Rightarrow> 's \<Rightarrow> nat \<Rightarrow> (int list \<times> 's) result" where
  "pop_many pop s 0 = Inr ([], s)"
| "pop_many pop s (Suc n) =
     andthen (pop s) (\<lambda>(v, s). andthen (pop_many pop s n) (\<lambda>(vs, s). Inr (v # vs, s)))"

locale bounded_stack =
  fixes push :: "'s \<Rightarrow> int \<Rightarrow> 's result"
    and pop :: "'s \<Rightarrow> (int \<times> 's) result"
    and contents :: "'s \<Rightarrow> int list"
    and wf :: "'s \<Rightarrow> bool"
    and cap :: nat
    and overflow :: c_error
    and underflow :: c_error
  assumes contents_cap: "wf s \<Longrightarrow> length (contents s) \<le> cap"
    and push_ok: "wf s \<Longrightarrow> in_int v \<Longrightarrow> length (contents s) < cap \<Longrightarrow>
      \<exists>s'. push s v = Inr s' \<and> wf s' \<and> contents s' = v # contents s"
    and push_full: "wf s \<Longrightarrow> length (contents s) = cap \<Longrightarrow> push s v = Inl overflow"
    and pop_ok: "wf s \<Longrightarrow> contents s = v # vs \<Longrightarrow>
      \<exists>s'. pop s = Inr (v, s') \<and> wf s' \<and> contents s' = vs \<and> in_int v"
    and pop_empty: "wf s \<Longrightarrow> contents s = [] \<Longrightarrow> pop s = Inl underflow"
begin

lemma push_all_ok:
  assumes "wf s" "\<And>v. v \<in> set vs \<Longrightarrow> in_int v" "length vs + length (contents s) \<le> cap"
  shows "\<exists>s'. push_all push s vs = Inr s' \<and> wf s' \<and> contents s' = rev vs @ contents s"
  using assms
proof (induction vs arbitrary: s)
  case (Cons v vs)
  then obtain s1 where s1: "push s v = Inr s1" "wf s1" "contents s1 = v # contents s"
    using push_ok [of s v] by fastforce
  with Cons.prems Cons.IH [of s1] show ?case by auto
qed simp

lemma pop_many_ok:
  assumes "wf s" "contents s = vs @ rest"
  shows "\<exists>s'. pop_many pop s (length vs) = Inr (vs, s') \<and> wf s' \<and> contents s' = rest"
  using assms
proof (induction vs arbitrary: s)
  case (Cons v vs)
  then obtain s1 where s1: "pop s = Inr (v, s1)" "wf s1" "contents s1 = vs @ rest"
    using pop_ok [of s v] by fastforce
  with Cons.IH [of s1] show ?case by auto
qed simp

lemma lifo:
  assumes "wf s" "\<And>v. v \<in> set vs \<Longrightarrow> in_int v" "length vs + length (contents s) \<le> cap"
  shows "\<exists>s1 s2. push_all push s vs = Inr s1 \<and> pop_many pop s1 (length vs) = Inr (rev vs, s2)
    \<and> wf s2 \<and> contents s2 = contents s"
proof -
  obtain s1 where s1: "push_all push s vs = Inr s1" "wf s1" "contents s1 = rev vs @ contents s"
    using push_all_ok [OF assms] by blast
  then obtain s2 where "pop_many pop s1 (length vs) = Inr (rev vs, s2)" "wf s2" "contents s2 = contents s"
    using pop_many_ok [of s1 "rev vs" "contents s"] by auto
  with s1 show ?thesis by blast
qed

lemma pop_many_underflow:
  assumes "wf s" "length (contents s) < n"
  shows "pop_many pop s n = Inl underflow"
  using assms
proof (induction n arbitrary: s)
  case (Suc n)
  show ?case
  proof (cases "contents s")
    case Nil
    with Suc.prems pop_empty show ?thesis by simp
  next
    case (Cons v vs)
    with Suc.prems pop_ok [of s v vs] Suc.IH show ?thesis by fastforce
  qed
qed simp

lemma push_all_overflow:
  assumes "wf s" "\<And>v. v \<in> set vs \<Longrightarrow> in_int v" "cap < length vs + length (contents s)"
  shows "push_all push s vs = Inl overflow"
  using assms
proof (induction vs arbitrary: s)
  case Nil
  with contents_cap [of s] show ?case by simp
next
  case (Cons v vs)
  show ?case
  proof (cases "length (contents s) = cap")
    case True
    with Cons.prems push_full show ?thesis by simp
  next
    case False
    with Cons.prems(1) contents_cap [of s] have "length (contents s) < cap" by simp
    with Cons.prems push_ok [of s v] obtain s1 where
      "push s v = Inr s1" "wf s1" "contents s1 = v # contents s" by auto
    with Cons.prems Cons.IH [of s1] show ?thesis by auto
  qed
qed

end

section \<open>The type invariant\<close>

definition stack_ok :: "int list \<Rightarrow> int \<Rightarrow> bool" where
  "stack_ok st sp \<longleftrightarrow> length st = 256 \<and> 0 \<le> sp \<and> sp \<le> 256 \<and> list_all in_int st"

definition vm_wf :: "vm \<Rightarrow> bool" where
  "vm_wf vm \<longleftrightarrow> stack_ok (vm_stack vm) (vm_sp vm) \<and> stack_ok (vm_cstack vm) (vm_csp vm)
     \<and> length (vm_globals vm) = 256 \<and> list_all in_int (vm_globals vm)"

text \<open>The part of a stack array in use, top first.\<close>

definition used :: "int list \<Rightarrow> int \<Rightarrow> int list" where
  "used st sp = rev (take (nat sp) st)"

lemma used_length [simp]: "stack_ok st sp \<Longrightarrow> length (used st sp) = nat sp"
  by (auto simp: used_def stack_ok_def)

lemma stack_ok_push:
  assumes "stack_ok st sp" "sp \<noteq> 256" "in_int v"
  shows "arr_set st sp v = Inr (st[nat sp := v])" "stack_ok (st[nat sp := v]) (sp + 1)"
    "used (st[nat sp := v]) (sp + 1) = v # used st sp"
proof -
  have b: "0 \<le> sp" "nat sp < length st" "length st = 256" "sp < 256"
    using assms by (auto simp: stack_ok_def)
  then show "arr_set st sp v = Inr (st[nat sp := v])" by (simp add: arr_set_def)
  show "stack_ok (st[nat sp := v]) (sp + 1)"
    using assms b by (auto simp: stack_ok_def list_all_iff dest!: set_update_subset_insert [THEN subsetD])
  have "nat (sp + 1) = Suc (nat sp)" using b by simp
  then show "used (st[nat sp := v]) (sp + 1) = v # used st sp"
    using b by (simp add: used_def take_Suc_conv_app_nth)
qed

lemma stack_ok_pop:
  assumes "stack_ok st sp" "0 < sp"
  shows "arr_get st (sp - 1) = Inr (st ! nat (sp - 1))" "stack_ok st (sp - 1)"
    "used st sp = st ! nat (sp - 1) # used st (sp - 1)" "in_int (st ! nat (sp - 1))"
proof -
  have b: "nat (sp - 1) < length st" "nat sp = Suc (nat (sp - 1))"
    using assms by (auto simp: stack_ok_def)
  show "arr_get st (sp - 1) = Inr (st ! nat (sp - 1))"
    using assms b by (simp add: arr_get_def stack_ok_def)
  show "stack_ok st (sp - 1)" using assms by (simp add: stack_ok_def)
  show "used st sp = st ! nat (sp - 1) # used st (sp - 1)"
    using b by (simp add: used_def take_Suc_conv_app_nth)
  show "in_int (st ! nat (sp - 1))"
    using assms b by (simp add: stack_ok_def list_all_length)
qed

lemma used_eq_Nil [simp]: "stack_ok st sp \<Longrightarrow> used st sp = [] \<longleftrightarrow> sp = 0"
  by (auto simp: used_def stack_ok_def)

lemma used_Cons_pos: "stack_ok st sp \<Longrightarrow> used st sp = v # vs \<Longrightarrow> 0 < sp"
  using used_eq_Nil [of st sp] by (fastforce simp: stack_ok_def)

interpretation opstack: bounded_stack vm_push vm_pop "\<lambda>vm. used (vm_stack vm) (vm_sp vm)" vm_wf 256
  "Exit Stack_Overflow" "Exit Stack_Underflow"
proof unfold_locales
  fix vm :: vm and v :: int and vs
  assume wf: "vm_wf vm"
  then have ok: "stack_ok (vm_stack vm) (vm_sp vm)" by (simp add: vm_wf_def)
  show "length (used (vm_stack vm) (vm_sp vm)) \<le> 256" using ok by (auto simp: stack_ok_def)
  show "\<exists>s'. vm_push vm v = Inr s' \<and> vm_wf s' \<and> used (vm_stack s') (vm_sp s') = v # used (vm_stack vm) (vm_sp vm)"
    if "in_int v" "length (used (vm_stack vm) (vm_sp vm)) < 256"
  proof -
    have "vm_sp vm \<noteq> 256" using that ok by auto
    with stack_ok_push [OF ok this that(1)] wf show ?thesis by (simp add: vm_push_def vm_wf_def)
  qed
  show "vm_push vm v = Inl (Exit Stack_Overflow)" if "length (used (vm_stack vm) (vm_sp vm)) = 256"
    using that ok by (simp add: vm_push_def)
  show "\<exists>s'. vm_pop vm = Inr (v, s') \<and> vm_wf s' \<and> used (vm_stack s') (vm_sp s') = vs \<and> in_int v"
    if "used (vm_stack vm) (vm_sp vm) = v # vs"
  proof -
    have "0 < vm_sp vm" using ok that by (rule used_Cons_pos)
    with stack_ok_pop [OF ok this] wf that show ?thesis by (simp add: vm_pop_def vm_wf_def)
  qed
  show "vm_pop vm = Inl (Exit Stack_Underflow)" if "used (vm_stack vm) (vm_sp vm) = []"
    using that ok by (simp add: vm_pop_def)
qed

interpretation callstack: bounded_stack vm_push_cs vm_pop_cs "\<lambda>vm. used (vm_cstack vm) (vm_csp vm)" vm_wf 256
  "Exit Call_Overflow" "Exit Call_Underflow"
proof unfold_locales
  fix vm :: vm and v :: int and vs
  assume wf: "vm_wf vm"
  then have ok: "stack_ok (vm_cstack vm) (vm_csp vm)" by (simp add: vm_wf_def)
  show "length (used (vm_cstack vm) (vm_csp vm)) \<le> 256" using ok by (auto simp: stack_ok_def)
  show "\<exists>s'. vm_push_cs vm v = Inr s' \<and> vm_wf s' \<and> used (vm_cstack s') (vm_csp s') = v # used (vm_cstack vm) (vm_csp vm)"
    if "in_int v" "length (used (vm_cstack vm) (vm_csp vm)) < 256"
  proof -
    have "vm_csp vm \<noteq> 256" using that ok by auto
    with stack_ok_push [OF ok this that(1)] wf show ?thesis by (simp add: vm_push_cs_def vm_wf_def)
  qed
  show "vm_push_cs vm v = Inl (Exit Call_Overflow)" if "length (used (vm_cstack vm) (vm_csp vm)) = 256"
    using that ok by (simp add: vm_push_cs_def)
  show "\<exists>s'. vm_pop_cs vm = Inr (v, s') \<and> vm_wf s' \<and> used (vm_cstack s') (vm_csp s') = vs \<and> in_int v"
    if "used (vm_cstack vm) (vm_csp vm) = v # vs"
  proof -
    have "0 < vm_csp vm" using ok that by (rule used_Cons_pos)
    with stack_ok_pop [OF ok this] wf that show ?thesis by (simp add: vm_pop_cs_def vm_wf_def)
  qed
  show "vm_pop_cs vm = Inl (Exit Call_Underflow)" if "used (vm_cstack vm) (vm_csp vm) = []"
    using that ok by (simp add: vm_pop_cs_def)
qed

section \<open>The abstract machine\<close>

record avm =
  av_ip :: nat
  av_stack :: "int list"
  av_cstack :: "int list"
  av_globals :: "int list"
  av_running :: bool
  av_out :: "vm_event list"

definition abs_vm :: "vm \<Rightarrow> avm" where
  "abs_vm vm = \<lparr>av_ip = vm_ip vm, av_stack = used (vm_stack vm) (vm_sp vm),
     av_cstack = used (vm_cstack vm) (vm_csp vm), av_globals = vm_globals vm,
     av_running = vm_running vm, av_out = vm_out vm\<rparr>"

lemma abs_vm_sel [simp]:
  "av_ip (abs_vm vm) = vm_ip vm"
  "av_stack (abs_vm vm) = used (vm_stack vm) (vm_sp vm)"
  "av_cstack (abs_vm vm) = used (vm_cstack vm) (vm_csp vm)"
  "av_globals (abs_vm vm) = vm_globals vm"
  "av_running (abs_vm vm) = vm_running vm"
  "av_out (abs_vm vm) = vm_out vm"
  by (simp_all add: abs_vm_def)

definition av_push :: "avm \<Rightarrow> int \<Rightarrow> avm result" where
  "av_push a v = (if length (av_stack a) = 256 then Inl (Exit Stack_Overflow)
     else Inr (a\<lparr>av_stack := v # av_stack a\<rparr>))"

definition av_pop :: "avm \<Rightarrow> (int \<times> avm) result" where
  "av_pop a = (case av_stack a of [] \<Rightarrow> Inl (Exit Stack_Underflow)
     | v # vs \<Rightarrow> Inr (v, a\<lparr>av_stack := vs\<rparr>))"

definition av_fetch :: "u8 list \<Rightarrow> avm \<Rightarrow> (u8 \<times> avm) result" where
  "av_fetch c a = (if av_ip a < length c then Inr (c ! av_ip a, a\<lparr>av_ip := av_ip a + 1\<rparr>)
     else Inl (Undef Out_Of_Bounds))"

definition av_jump :: "u8 list \<Rightarrow> avm \<Rightarrow> avm result" where
  "av_jump c a = (if av_ip a < length c then Inr (a\<lparr>av_ip := unat (c ! av_ip a)\<rparr>)
     else Inl (Undef Out_Of_Bounds))"

text \<open>A binary instruction: the right operand is on top of the left one.\<close>

definition av_bin :: "(int \<Rightarrow> int \<Rightarrow> int result) \<Rightarrow> avm \<Rightarrow> avm result" where
  "av_bin f a = andthen (av_pop a) (\<lambda>(r, a). andthen (av_pop a) (\<lambda>(l, a).
     andthen (f l r) (av_push a)))"

fun av_exec :: "u8 list \<Rightarrow> OpCode \<Rightarrow> avm \<Rightarrow> avm result" where
  "av_exec c OP_PUSH a = andthen (av_fetch c a) (\<lambda>(b, a). av_push a (uint b))"
| "av_exec c OP_POP a = andthen (av_pop a) (\<lambda>(_, a). Inr a)"
| "av_exec c OP_ADD a = av_bin (\<lambda>l r. c_int (l + r)) a"
| "av_exec c OP_SUB a = av_bin (\<lambda>l r. c_int (l - r)) a"
| "av_exec c OP_MUL a = av_bin (\<lambda>l r. c_int (l * r)) a"
| "av_exec c OP_DIV a = av_bin c_div a"
| "av_exec c OP_EQ a = av_bin (\<lambda>l r. Inr (c_bool (l = r))) a"
| "av_exec c OP_GT a = av_bin (\<lambda>l r. Inr (c_bool (l > r))) a"
| "av_exec c OP_LT a = av_bin (\<lambda>l r. Inr (c_bool (l < r))) a"
| "av_exec c OP_JMP a = av_jump c a"
| "av_exec c OP_JMP_IF_FALSE a = andthen (av_pop a) (\<lambda>(v, a).
     if v \<noteq> 0 then Inr (a\<lparr>av_ip := av_ip a + 1\<rparr>) else av_jump c a)"
| "av_exec c OP_STORE a = andthen (av_pop a) (\<lambda>(v, a). andthen (av_fetch c a) (\<lambda>(b, a).
     Inr (a\<lparr>av_globals := (av_globals a)[unat b := v]\<rparr>)))"
| "av_exec c OP_LOAD a = andthen (av_fetch c a) (\<lambda>(b, a). av_push a (av_globals a ! unat b))"
| "av_exec c OP_CALL a = andthen (av_fetch c a) (\<lambda>(b, a).
     if length (av_cstack a) = 256 then Inl (Exit Call_Overflow)
     else Inr (a\<lparr>av_cstack := int_of_size (av_ip a) # av_cstack a, av_ip := unat b\<rparr>))"
| "av_exec c OP_RET a = (case av_cstack a of [] \<Rightarrow> Inl (Exit Call_Underflow)
     | r # rs \<Rightarrow> Inr (a\<lparr>av_cstack := rs, av_ip := size_of_int r\<rparr>))"
| "av_exec c OP_PRINT a = andthen (av_pop a) (\<lambda>(v, a). Inr (a\<lparr>av_out := av_out a @ [Printed v]\<rparr>))"
| "av_exec c OP_HALT a = Inr (a\<lparr>av_running := False\<rparr>)"

definition av_step :: "u8 list \<Rightarrow> avm \<Rightarrow> avm result" where
  "av_step c a = andthen (av_fetch c a) (\<lambda>(b, a). let a = a\<lparr>av_out := av_out a @ [Running_Op b]\<rparr>
     in case op_decode b of None \<Rightarrow> Inl (Exit (Unknown_Opcode b)) | Some op \<Rightarrow> av_exec c op a)"

subsection \<open>The array machine refines it\<close>

text \<open>Two computations agree: the same error, or results related by \<open>R\<close>.\<close>

lemma rel_andthen:
  assumes "rel_sum (=) R r a" "\<And>x y. R x y \<Longrightarrow> rel_sum (=) S (f x) (g y)"
  shows "rel_sum (=) S (andthen r f) (andthen a g)"
  using assms by (cases r; cases a) auto

definition vm_rel :: "u8 list \<Rightarrow> vm \<Rightarrow> avm \<Rightarrow> bool" where
  "vm_rel c vm a \<longleftrightarrow> vm_wf vm \<and> vm_code vm = c \<and> a = abs_vm vm"

definition val_rel :: "u8 list \<Rightarrow> (int \<times> vm) \<Rightarrow> (int \<times> avm) \<Rightarrow> bool" where
  "val_rel c p q \<longleftrightarrow> fst p = fst q \<and> in_int (fst p) \<and> vm_rel c (snd p) (snd q)"

definition byte_rel :: "u8 list \<Rightarrow> (u8 \<times> vm) \<Rightarrow> (u8 \<times> avm) \<Rightarrow> bool" where
  "byte_rel c p q \<longleftrightarrow> fst p = fst q \<and> vm_rel c (snd p) (snd q)"

lemma push_rel:
  assumes "vm_rel c vm a" "in_int v"
  shows "rel_sum (=) (vm_rel c) (vm_push vm v) (av_push a v)"
proof -
  have ok: "stack_ok (vm_stack vm) (vm_sp vm)" using assms by (simp add: vm_rel_def vm_wf_def)
  show ?thesis
  proof (cases "vm_sp vm = 256")
    case True
    with ok assms show ?thesis by (simp add: vm_push_def av_push_def vm_rel_def)
  next
    case False
    with ok have "nat (vm_sp vm) \<noteq> 256" by (simp add: stack_ok_def)
    with stack_ok_push [OF ok False assms(2)] False assms ok show ?thesis
      by (simp add: vm_push_def av_push_def vm_rel_def vm_wf_def abs_vm_def)
  qed
qed

lemma pop_rel:
  assumes "vm_rel c vm a"
  shows "rel_sum (=) (val_rel c) (vm_pop vm) (av_pop a)"
proof -
  have ok: "stack_ok (vm_stack vm) (vm_sp vm)" using assms by (simp add: vm_rel_def vm_wf_def)
  show ?thesis
  proof (cases "vm_sp vm \<le> 0")
    case True
    then have "used (vm_stack vm) (vm_sp vm) = []" by (simp add: used_def)
    with True assms show ?thesis by (simp add: vm_pop_def av_pop_def vm_rel_def)
  next
    case False
    then have "0 < vm_sp vm" by simp
    with stack_ok_pop [OF ok this] assms show ?thesis
      by (simp add: vm_pop_def av_pop_def vm_rel_def val_rel_def vm_wf_def abs_vm_def)
  qed
qed

lemma fetch_rel: "vm_rel c vm a \<Longrightarrow> rel_sum (=) (byte_rel c) (vm_fetch vm) (av_fetch c a)"
  by (auto simp: vm_fetch_def av_fetch_def vm_rel_def byte_rel_def vm_wf_def abs_vm_def arr_get_def)

lemma jump_rel:
  "vm_rel c vm a \<Longrightarrow> rel_sum (=) (vm_rel c)
     (andthen (arr_get (vm_code vm) (int (vm_ip vm))) (\<lambda>b. Inr (vm\<lparr>vm_ip := unat b\<rparr>))) (av_jump c a)"
  by (auto simp: av_jump_def vm_rel_def vm_wf_def abs_vm_def arr_get_def)

lemma in_int_c_bool [simp]: "in_int (c_bool p)"
  by (simp add: c_bool_def)

lemma in_int_int_of_size [simp]: "in_int (int_of_size n)"
  using signed_take_bit_int_greater_eq_minus_exp [of 31 "int n"] signed_take_bit_int_less_exp [of 31 "int n"]
  by (simp add: int_of_size_def in_int_def)

lemma in_int_sdivD: "c_div x y = Inr v \<Longrightarrow> in_int v"
  by (auto simp: c_div_def dest: c_int_InrD split: if_splits)

lemma binop_rel:
  assumes "vm_rel c vm a" "\<And>l r v. f l r = Inr v \<Longrightarrow> in_int v"
  shows "rel_sum (=) (vm_rel c) (vm_binop f vm) (av_bin f a)"
  unfolding vm_binop_def av_bin_def
proof (rule rel_andthen [OF pop_rel [OF assms(1)]], clarsimp simp: val_rel_def)
  fix r vm' a'
  assume "vm_rel c vm' a'"
  then show "rel_sum (=) (vm_rel c)
    (andthen (vm_pop vm') (\<lambda>(l, vm). andthen (f l r) (vm_push vm)))
    (andthen (av_pop a') (\<lambda>(l, a). andthen (f l r) (av_push a)))"
  proof (rule rel_andthen [OF pop_rel], clarsimp simp: val_rel_def)
    fix l vm'' a''
    assume "vm_rel c vm'' a''"
    then show "rel_sum (=) (vm_rel c) (andthen (f l r) (vm_push vm'')) (andthen (f l r) (av_push a''))"
      using push_rel assms(2) by (cases "f l r") auto
  qed
qed

text \<open>The comparisons pop the right operand into \<open>a\<close> and the left one into \<open>b\<close>.\<close>

lemma vm_exec_compare:
  "vm_exec OP_EQ vm = vm_binop (\<lambda>l r. Inr (c_bool (l = r))) vm"
  "vm_exec OP_GT vm = vm_binop (\<lambda>l r. Inr (c_bool (l > r))) vm"
  "vm_exec OP_LT vm = vm_binop (\<lambda>l r. Inr (c_bool (l < r))) vm"
  by (simp_all add: vm_binop_def eq_commute)

lemma push_cs_rel:
  assumes "vm_rel c vm a"
  shows "rel_sum (=) (vm_rel c)
    (andthen (vm_push_cs vm (int_of_size (vm_ip vm))) (\<lambda>vm. Inr (vm\<lparr>vm_ip := d\<rparr>)))
    (if length (av_cstack a) = 256 then Inl (Exit Call_Overflow)
     else Inr (a\<lparr>av_cstack := int_of_size (av_ip a) # av_cstack a, av_ip := d\<rparr>))"
proof -
  have ok: "stack_ok (vm_cstack vm) (vm_csp vm)" using assms by (simp add: vm_rel_def vm_wf_def)
  show ?thesis
  proof (cases "vm_csp vm = 256")
    case True
    with ok assms show ?thesis by (simp add: vm_push_cs_def vm_rel_def)
  next
    case False
    with ok have "nat (vm_csp vm) \<noteq> 256" by (simp add: stack_ok_def)
    with stack_ok_push [OF ok False in_int_int_of_size [of "vm_ip vm"]] False assms ok show ?thesis
      by (simp add: vm_push_cs_def vm_rel_def vm_wf_def abs_vm_def)
  qed
qed

lemma pop_cs_rel:
  assumes "vm_rel c vm a"
  shows "rel_sum (=) (vm_rel c)
    (andthen (vm_pop_cs vm) (\<lambda>(ip, vm). Inr (vm\<lparr>vm_ip := size_of_int ip\<rparr>)))
    (case av_cstack a of [] \<Rightarrow> Inl (Exit Call_Underflow)
     | r # rs \<Rightarrow> Inr (a\<lparr>av_cstack := rs, av_ip := size_of_int r\<rparr>))"
proof -
  have ok: "stack_ok (vm_cstack vm) (vm_csp vm)" using assms by (simp add: vm_rel_def vm_wf_def)
  show ?thesis
  proof (cases "vm_csp vm \<le> 0")
    case True
    then have "used (vm_cstack vm) (vm_csp vm) = []" by (simp add: used_def)
    with True assms show ?thesis by (simp add: vm_pop_cs_def vm_rel_def)
  next
    case False
    then have "0 < vm_csp vm" by simp
    with stack_ok_pop [OF ok this] assms show ?thesis
      by (simp add: vm_pop_cs_def vm_rel_def vm_wf_def abs_vm_def)
  qed
qed

lemma store_rel:
  assumes "vm_rel c vm a" "in_int v"
  shows "rel_sum (=) (vm_rel c)
    (andthen (arr_set (vm_globals vm) (uint b) v) (\<lambda>g. Inr (vm\<lparr>vm_globals := g\<rparr>)))
    (Inr (a\<lparr>av_globals := (av_globals a)[unat (b :: u8) := v]\<rparr>))"
proof -
  have len: "length (vm_globals vm) = 256" "list_all in_int (vm_globals vm)"
    using assms by (simp_all add: vm_rel_def vm_wf_def)
  then have "list_all in_int ((vm_globals vm)[unat b := v])"
    using assms(2) by (auto simp: list_all_iff dest!: set_update_subset_insert [THEN subsetD])
  with len assms show ?thesis
    by (simp add: vm_rel_def vm_wf_def abs_vm_def)
qed

lemma load_rel:
  assumes "vm_rel c vm a"
  shows "rel_sum (=) (vm_rel c) (andthen (arr_get (vm_globals vm) (uint b)) (vm_push vm))
    (av_push a (av_globals a ! unat (b :: u8)))"
proof -
  have len: "length (vm_globals vm) = 256" "list_all in_int (vm_globals vm)"
    using assms by (simp_all add: vm_rel_def vm_wf_def)
  then have "in_int (vm_globals vm ! unat b)" by (simp add: list_all_length)
  with len push_rel [OF assms] assms show ?thesis by (simp add: vm_rel_def)
qed

lemma exec_rel:
  assumes "vm_rel c vm a"
  shows "rel_sum (=) (vm_rel c) (vm_exec op vm) (av_exec c op a)"
proof (cases op)
  case OP_PUSH
  then show ?thesis
    by (auto intro!: rel_andthen [OF fetch_rel [OF assms]] push_rel simp: byte_rel_def)
next
  case OP_POP
  then show ?thesis by (auto intro!: rel_andthen [OF pop_rel [OF assms]] simp: val_rel_def)
next
  case OP_DIV
  then show ?thesis using binop_rel [OF assms in_int_sdivD] by simp
next
  case OP_PRINT
  then show ?thesis
    by (auto intro!: rel_andthen [OF pop_rel [OF assms]]
        simp: val_rel_def vm_rel_def vm_emit_def vm_wf_def abs_vm_def)
next
  case OP_JMP
  then show ?thesis using jump_rel [OF assms] by simp
next
  case OP_JMP_IF_FALSE
  then show ?thesis
    using jump_rel
    by (auto intro!: rel_andthen [OF pop_rel [OF assms]] simp: val_rel_def)
      (auto simp: vm_rel_def vm_wf_def abs_vm_def)
next
  case OP_STORE
  then show ?thesis
    by (auto intro!: rel_andthen [OF pop_rel [OF assms]] rel_andthen [OF fetch_rel] store_rel
        simp: val_rel_def byte_rel_def)
next
  case OP_LOAD
  then show ?thesis
    by (auto intro!: rel_andthen [OF fetch_rel [OF assms]] load_rel simp: byte_rel_def)
next
  case OP_CALL
  then show ?thesis
    by (auto intro!: rel_andthen [OF fetch_rel [OF assms]] push_cs_rel
        simp: byte_rel_def split del: if_split)
next
  case OP_RET
  then show ?thesis using pop_cs_rel [OF assms] by simp
next
  case OP_HALT
  then show ?thesis using assms by (simp add: vm_rel_def vm_wf_def abs_vm_def)
qed (simp_all del: vm_exec.simps add: vm_exec_compare binop_rel [OF assms], 
    auto intro!: binop_rel [OF assms] dest: c_int_InrD)

lemma step_rel:
  assumes "vm_rel c vm a"
  shows "rel_sum (=) (vm_rel c) (vm_step vm) (av_step c a)"
  unfolding vm_step_def av_step_def
proof (rule rel_andthen [OF fetch_rel [OF assms]], clarsimp simp: byte_rel_def Let_def)
  fix b vm' a'
  assume "vm_rel c vm' a'"
  then have "vm_rel c (vm_emit (Running_Op b) vm') (a'\<lparr>av_out := av_out a' @ [Running_Op b]\<rparr>)"
    by (auto simp: vm_rel_def vm_emit_def vm_wf_def abs_vm_def)
  from exec_rel [OF this] show "rel_sum (=) (vm_rel c)
    (case op_decode b of None \<Rightarrow> Inl (Exit (Unknown_Opcode b))
     | Some op \<Rightarrow> vm_exec op (vm_emit (Running_Op b) vm'))
    (case op_decode b of None \<Rightarrow> Inl (Exit (Unknown_Opcode b))
     | Some op \<Rightarrow> av_exec c op (a'\<lparr>av_out := av_out a' @ [Running_Op b]\<rparr>))"
    by (cases "op_decode b") auto
qed

lemma vm_rel_abs: "vm_wf vm \<Longrightarrow> vm_rel (vm_code vm) vm (abs_vm vm)"
  by (simp add: vm_rel_def)

lemma vm_step_refines_aux:
  assumes "vm_wf vm"
  shows "map_sum id abs_vm (vm_step vm) = av_step (vm_code vm) (abs_vm vm)"
    "vm_step vm = Inr vm' \<Longrightarrow> vm_wf vm' \<and> vm_code vm' = vm_code vm"
  using step_rel [OF vm_rel_abs [OF assms]]
  by (cases "vm_step vm"; cases "av_step (vm_code vm) (abs_vm vm)"; simp add: vm_rel_def)+

lemma vm_wf_step: "vm_step vm = Inr vm' \<Longrightarrow> vm_wf vm \<Longrightarrow> vm_wf vm'"
  using vm_step_refines_aux(2) by blast

lemma vm_code_step: "vm_step vm = Inr vm' \<Longrightarrow> vm_wf vm \<Longrightarrow> vm_code vm' = vm_code vm"
  using vm_step_refines_aux(2) by blast

lemma vm_wf_init: "vm_wf (vm_init vm (Some code))"
  by (auto simp: vm_init_def vm_emit_def vm_wf_def stack_ok_def list_all_iff in_int_def)

subsection \<open>Runs\<close>

fun av_run :: "u8 list \<Rightarrow> nat \<Rightarrow> avm \<Rightarrow> ((c_error \<times> avm) + avm) option" where
  "av_run c 0 a = (if av_running a then None else Some (Inr a))"
| "av_run c (Suc n) a = (if av_running a
     then (case av_step c a of Inl e \<Rightarrow> Some (Inl (e, a)) | Inr a' \<Rightarrow> av_run c n a')
     else Some (Inr a))"

lemma vm_run_refines_aux:
  assumes "vm_wf vm" "vm_code vm = c"
  shows "map_option (map_sum (map_prod id abs_vm) abs_vm) (vm_run n vm) = av_run c n (abs_vm vm)"
  using assms
proof (induction n arbitrary: vm)
  case (Suc n)
  show ?case
  proof (cases "vm_running vm")
    case True
    show ?thesis
    proof (cases "vm_step vm")
      case (Inl e)
      then have "av_step c (abs_vm vm) = Inl e"
        using vm_step_refines_aux(1) [OF Suc.prems(1)] Suc.prems(2) by simp
      with Inl True show ?thesis by simp
    next
      case (Inr vm')
      then have "av_step c (abs_vm vm) = Inr (abs_vm vm')" "vm_wf vm'" "vm_code vm' = c"
        using vm_step_refines_aux [OF Suc.prems(1)] Suc.prems(2) by simp_all
      with Inr True Suc.IH [of vm'] show ?thesis by simp
    qed
  qed simp
qed simp

lemma vm_run_wf:
  "vm_run n vm = Some (Inr vm') \<Longrightarrow> vm_wf vm \<Longrightarrow> vm_wf vm' \<and> vm_code vm' = vm_code vm \<and> \<not> vm_running vm'"
proof (induction n arbitrary: vm)
  case (Suc n)
  show ?case
  proof (cases "vm_running vm")
    case True
    with Suc.prems obtain vm1 where vm1: "vm_step vm = Inr vm1" "vm_run n vm1 = Some (Inr vm')"
      by (auto split: sum.splits)
    then have "vm_wf vm1" "vm_code vm1 = vm_code vm"
      using vm_step_refines_aux(2) [OF Suc.prems(2)] by blast+
    with Suc.IH [OF vm1(2)] show ?thesis by simp
  qed (use Suc.prems in simp)
qed (auto split: if_splits)

lemma vm_run_mono: "vm_run n vm = Some r \<Longrightarrow> n \<le> m \<Longrightarrow> vm_run m vm = Some r"
proof (induction n arbitrary: m vm)
  case 0
  then show ?case by (cases m) (auto split: if_splits)
next
  case (Suc n)
  then obtain k where "m = Suc k" "n \<le> k" by (cases m) auto
  with Suc show ?case by (auto split: if_splits sum.splits)
qed

section \<open>The machine's contract\<close>

text \<open>A machine object before \<open>vm_init\<close>.\<close>

definition blank_vm :: vm where
  "blank_vm = \<lparr>vm_code = [], vm_ip = 0, vm_stack = [], vm_sp = 0, vm_globals = [], vm_cstack = [],
     vm_csp = 0, vm_running = False, vm_out = []\<rparr>"

lemma vm_code_init [simp]: "vm_code (vm_init vm (Some code)) = code"
  by (simp add: vm_init_def vm_emit_def)

text \<open>
  Property C7. Refinement: the machine with its fixed arrays and indices computes, step for step
  and fault for fault, what the machine with lists for stacks computes.
\<close>

theorem vm_run_refines:
  assumes "vm_wf vm"
  shows "map_option (map_sum (map_prod id abs_vm) abs_vm) (vm_run n vm) = av_run (vm_code vm) n (abs_vm vm)"
  using vm_run_refines_aux [OF assms refl] .

theorem vm_run_refines_witness:
  "map_option (map_sum (map_prod id abs_vm) abs_vm) (vm_run 1 (vm_init blank_vm (Some [0xFF]))) =
    av_run [0xFF] 1 (abs_vm (vm_init blank_vm (Some [0xFF])))"
  using vm_run_refines [OF vm_wf_init [of blank_vm "[0xFF]"], of 1] by simp

text \<open>How a run ended: the machine it left, and whether a bounds fault is a fetch past the code.\<close>

definition final_vm :: "(c_error \<times> vm) + vm \<Rightarrow> vm" where
  "final_vm r = (case r of Inl (e, vm) \<Rightarrow> vm | Inr vm \<Rightarrow> vm)"

definition only_fetch_faults :: "(c_error \<times> vm) + vm \<Rightarrow> bool" where
  "only_fetch_faults r = (case r of
     Inl (Undef Out_Of_Bounds, vm) \<Rightarrow> length (vm_code vm) \<le> vm_ip vm + 1
   | _ \<Rightarrow> True)"

lemma c_int_bounds: "c_int v \<noteq> Inl (Undef Out_Of_Bounds)" "c_div v w \<noteq> Inl (Undef Out_Of_Bounds)"
  by (simp_all add: c_int_def c_div_def)

lemma av_bin_bounds:
  "(\<And>l r. f l r \<noteq> Inl (Undef Out_Of_Bounds)) \<Longrightarrow> av_bin f a \<noteq> Inl (Undef Out_Of_Bounds)"
  by (auto simp: av_bin_def av_pop_def av_push_def andthen_Inl_iff split: list.splits if_splits)

lemma av_exec_bounds:
  assumes "av_exec c op a = Inl (Undef Out_Of_Bounds)"
  shows "length c \<le> av_ip a"
  using assms
  by (cases op)
    (auto simp: av_bin_bounds c_int_bounds av_fetch_def av_pop_def av_push_def av_jump_def andthen_Inl_iff
      split: list.splits if_splits)

lemma av_step_bounds:
  assumes "av_step c a = Inl (Undef Out_Of_Bounds)"
  shows "length c \<le> av_ip a + 1"
  using assms av_exec_bounds [of c]
  by (fastforce simp: av_step_def av_fetch_def Let_def andthen_Inl_iff split: if_splits option.splits)

lemma vm_run_final:
  "vm_run n vm = Some r \<Longrightarrow> vm_wf vm \<Longrightarrow>
    vm_wf (final_vm r) \<and> vm_code (final_vm r) = vm_code vm \<and> only_fetch_faults r"
proof (induction n arbitrary: vm)
  case 0
  then show ?case by (auto simp: final_vm_def only_fetch_faults_def split: if_splits)
next
  case (Suc n)
  show ?case
  proof (cases "vm_running vm")
    case False
    with Suc.prems show ?thesis by (auto simp: final_vm_def only_fetch_faults_def)
  next
    case True
    show ?thesis
    proof (cases "vm_step vm")
      case (Inl e)
      then have "av_step (vm_code vm) (abs_vm vm) = Inl e"
        using vm_step_refines_aux(1) [OF Suc.prems(2)] by simp
      with Inl True Suc.prems av_step_bounds [of "vm_code vm" "abs_vm vm"] show ?thesis
        by (auto simp: final_vm_def only_fetch_faults_def split: c_error.splits undef_cause.splits)
    next
      case (Inr vm1)
      with True Suc.prems Suc.IH [of vm1] vm_step_refines_aux(2) [OF Suc.prems(2) Inr] show ?thesis by simp
    qed
  qed
qed

text \<open>
  Property C8. Safety of any bytecode: from \<open>vm_init\<close> on, in whatever way a run ends, both stack
  pointers are within their arrays, every stored value is an \<open>int\<close>, and the code is untouched; and
  the only accesses out of bounds are fetches past the end of the code, never of a stack or of the
  globals.
\<close>

theorem vm_run_safe:
  assumes "vm_run n (vm_init vm0 (Some code)) = Some r"
  shows "vm_wf (final_vm r) \<and> vm_code (final_vm r) = code \<and> only_fetch_faults r"
  using vm_run_final [OF assms vm_wf_init] by simp

text \<open>Three bytes that run past their end.\<close>

theorem vm_run_safe_witness:
  "\<exists>r. vm_run 3 (vm_init blank_vm (Some [1, 5, 1])) = Some r \<and> vm_wf (final_vm r)"
proof -
  have "vm_run 3 (vm_init blank_vm (Some [1, 5, 1])) \<noteq> None"
    by (simp add: eval_nat_numeral vm_step_def vm_fetch_def vm_init_def vm_emit_def Let_def op_decode_def
        op_codes_def op_byte.simps vm_push_def arr_get_def)
  then obtain r where "vm_run 3 (vm_init blank_vm (Some [1, 5, 1])) = Some r" by blast
  with vm_run_safe [OF this] show ?thesis by blast
qed

text \<open>What pushing and popping a list of values does, within and beyond the capacity.\<close>

definition stack_contract :: "vm \<Rightarrow> int list \<Rightarrow> bool" where
  "stack_contract vm vs = (
     if length vs + nat (vm_sp vm) \<le> 256
     then (case push_all vm_push vm vs of
         Inr vm1 \<Rightarrow> (case pop_many vm_pop vm1 (length vs) of
             Inr (us, vm2) \<Rightarrow> us = rev vs \<and> vm_wf vm2 \<and>
               used (vm_stack vm2) (vm_sp vm2) = used (vm_stack vm) (vm_sp vm)
           | Inl e \<Rightarrow> False)
       | Inl e \<Rightarrow> False)
     else push_all vm_push vm vs = Inl (Exit Stack_Overflow))"

text \<open>
  The operand stack is last in, first out within its 256 entries: pushed values come
  back in reverse order and leave the rest of the stack as it was; one value too many is the
  overflow exit, one pop too many the underflow exit.
\<close>

theorem operand_stack_lifo:
  assumes "vm_wf vm" "list_all in_int vs"
  shows "stack_contract vm vs \<and> pop_many vm_pop vm (nat (vm_sp vm) + 1) = Inl (Exit Stack_Underflow)"
proof -
  have len: "length (used (vm_stack vm) (vm_sp vm)) = nat (vm_sp vm)"
    using assms(1) by (simp add: vm_wf_def)
  have vs: "\<And>v. v \<in> set vs \<Longrightarrow> in_int v" using assms(2) by (simp add: list_all_iff)
  have "stack_contract vm vs"
  proof (cases "length vs + nat (vm_sp vm) \<le> 256")
    case True
    with opstack.lifo [OF assms(1) vs] len show ?thesis by (fastforce simp: stack_contract_def)
  next
    case False
    with opstack.push_all_overflow [OF assms(1) vs] len show ?thesis by (simp add: stack_contract_def)
  qed
  moreover have "pop_many vm_pop vm (nat (vm_sp vm) + 1) = Inl (Exit Stack_Underflow)"
    by (rule opstack.pop_many_underflow [OF assms(1)]) (simp add: len)
  ultimately show ?thesis ..
qed

theorem operand_stack_lifo_witness:
  "stack_contract (vm_init blank_vm (Some [])) [1, 2, 3]"
  using operand_stack_lifo [OF vm_wf_init [of blank_vm "[]"], of "[1, 2, 3]"] by (simp add: in_int_def)

text \<open>
  Calls return: \<open>OP_CALL d\<close> with room on the call stack goes to \<open>d\<close>, and an
  \<open>OP_RET\<close> there comes back to the instruction after the call, with both stacks and the globals
  as before.
\<close>

theorem call_returns:
  assumes "vm_wf vm" "vm_ip vm + 1 < length (vm_code vm)" "vm_ip vm + 2 < 2 ^ 31" "vm_csp vm < 256"
    and "vm_code vm ! vm_ip vm = op_byte OP_CALL" "vm_code vm ! (vm_ip vm + 1) = d"
    and "unat d < length (vm_code vm)" "vm_code vm ! unat d = op_byte OP_RET"
  shows "\<exists>vm1 vm2. vm_step vm = Inr vm1 \<and> vm_ip vm1 = unat d \<and> vm_step vm1 = Inr vm2 \<and>
    vm_ip vm2 = vm_ip vm + 2 \<and> vm_csp vm2 = vm_csp vm \<and> vm_sp vm2 = vm_sp vm \<and>
    used (vm_cstack vm2) (vm_csp vm2) = used (vm_cstack vm) (vm_csp vm) \<and>
    used (vm_stack vm2) (vm_sp vm2) = used (vm_stack vm) (vm_sp vm) \<and> vm_globals vm2 = vm_globals vm"
proof -
  have ok: "stack_ok (vm_cstack vm) (vm_csp vm)" using assms(1) by (simp add: vm_wf_def)
  have ip: "int_of_size (vm_ip vm + 2) = int (vm_ip vm + 2)" "size_of_int (int (vm_ip vm + 2)) = vm_ip vm + 2"
    using assms(3) by (simp_all only: int_of_size_small) (simp add: size_of_int_nonneg)
  have ret: "arr_get (vm_code vm) (uint d) = Inr (op_byte OP_RET)"
    using arr_get_nat [OF assms(7)] assms(8) by simp
  let ?n = "nat (vm_csp vm)"
  let ?vm1 = "vm\<lparr>vm_ip := unat d, vm_cstack := (vm_cstack vm)[?n := int (vm_ip vm + 2)],
    vm_csp := vm_csp vm + 1, vm_out := vm_out vm @ [Running_Op (op_byte OP_CALL)]\<rparr>"
  let ?vm2 = "?vm1\<lparr>vm_ip := vm_ip vm + 2, vm_csp := vm_csp vm,
    vm_out := vm_out vm @ [Running_Op (op_byte OP_CALL), Running_Op (op_byte OP_RET)]\<rparr>"
  have "arr_get (vm_code vm) (1 + int (vm_ip vm)) = Inr d"
    using arr_get_nat [OF assms(2)] assms(6) by (simp add: add.commute)
  then have "vm_step vm = Inr ?vm1"
    using assms ok ip
    by (simp add: vm_step_def vm_fetch_def vm_emit_def vm_push_cs_def Let_def stack_ok_def)
  moreover have "vm_step ?vm1 = Inr ?vm2"
    using ret ok ip assms(4)
    by (simp add: vm_step_def vm_fetch_def vm_emit_def vm_pop_cs_def Let_def stack_ok_def)
  moreover have "take ?n ((vm_cstack vm)[?n := int (vm_ip vm + 2)]) = take ?n (vm_cstack vm)" by simp
  ultimately show ?thesis by (intro exI [of _ ?vm1] exI [of _ ?vm2]) (simp add: used_def)
qed

theorem call_returns_witness:
  "\<exists>vm1 vm2. vm_step (vm_init blank_vm (Some [0x0F, 3, 0xFF, 0x1F])) = Inr vm1 \<and> vm_ip vm1 = 3 \<and>
    vm_step vm1 = Inr vm2 \<and> vm_ip vm2 = 2"
  using call_returns [of "vm_init blank_vm (Some [0x0F, 3, 0xFF, 0x1F])" 3, OF vm_wf_init]
  by (auto simp: vm_init_def vm_emit_def op_byte.simps)

end
