(* ===== verification/Compile_Correct.thy ===== *)
theory Compile_Correct
  imports Compile Source_Sem Vm_Spec "HOL-Library.Sublist"
begin

text \<open>
  Semantic preservation: the bytes of \<open>generate_byte\<close>, run by \<open>vm_run\<close>, print and fault exactly
  as the program means. The proof is a forward simulation on the abstract machine of \<open>Vm_Spec\<close>
  and a converse that follows the machine's run back to the program.
\<close>

section \<open>Runs of the abstract machine\<close>

fun printed :: "vm_event list \<Rightarrow> int list" where
  "printed [] = []"
| "printed (Printed v # es) = v # printed es"
| "printed (_ # es) = printed es"

lemma printed_append [simp]: "printed (es @ fs) = printed es @ printed fs"
  by (induction es rule: printed.induct) simp_all

text \<open>\<open>n\<close> steps lead from \<open>a\<close> to \<open>a'\<close>; a run from \<open>a\<close> faults.\<close>

definition goes :: "u8 list \<Rightarrow> nat \<Rightarrow> avm \<Rightarrow> avm \<Rightarrow> bool" where
  "goes c n a a' \<longleftrightarrow> (\<forall>k. av_run c (n + k) a = av_run c k a')"

definition fails :: "u8 list \<Rightarrow> avm \<Rightarrow> c_error \<Rightarrow> int list \<Rightarrow> bool" where
  "fails c a f out \<longleftrightarrow> (\<exists>n a'. av_run c n a = Some (Inl (f, a')) \<and> printed (av_out a') = out)"

lemma goes_refl [simp]: "goes c 0 a a"
  by (simp add: goes_def)

lemma goes_trans: "goes c n a b \<Longrightarrow> goes c m b d \<Longrightarrow> goes c (n + m) a d"
  by (simp add: goes_def add.assoc)

lemma goes_step: "av_running a \<Longrightarrow> av_step c a = Inr a' \<Longrightarrow> goes c 1 a a'"
  by (simp add: goes_def)

lemma goes_fails: "goes c n a b \<Longrightarrow> fails c b f out \<Longrightarrow> fails c a f out"
  unfolding goes_def fails_def by metis

lemma fails_step: "av_running a \<Longrightarrow> av_step c a = Inl f \<Longrightarrow> fails c a f (printed (av_out a))"
  unfolding fails_def by (intro exI [of _ 1] exI [of _ a]) simp

section \<open>Segments of code\<close>

definition seg :: "u8 list \<Rightarrow> nat \<Rightarrow> u8 list \<Rightarrow> bool" where
  "seg c pos code \<longleftrightarrow> (\<exists>xs ys. c = xs @ code @ ys \<and> length xs = pos)"

lemma seg_append: "seg c pos (a @ b) \<Longrightarrow> seg c pos a \<and> seg c (pos + length a) b"
proof -
  assume "seg c pos (a @ b)"
  then obtain xs ys where c: "c = xs @ (a @ b) @ ys" "length xs = pos" by (auto simp: seg_def)
  have "seg c pos a" unfolding seg_def using c by (intro exI [of _ xs] exI [of _ "b @ ys"]) simp
  moreover have "seg c (pos + length a) b"
    unfolding seg_def using c by (intro exI [of _ "xs @ a"] exI [of _ ys]) simp
  ultimately show ?thesis ..
qed

lemma seg_Cons: "seg c pos (b # bs) \<Longrightarrow> pos < length c \<and> c ! pos = b \<and> seg c (Suc pos) bs"
proof -
  assume s: "seg c pos (b # bs)"
  then obtain xs ys where "c = xs @ (b # bs) @ ys" "length xs = pos" by (auto simp: seg_def)
  then have "pos < length c" "c ! pos = b" by auto
  with seg_append [of c pos "[b]" bs] s show ?thesis by simp
qed

lemma seg_two: "seg c pos [b, d] \<Longrightarrow> pos < length c \<and> c ! pos = b \<and> Suc pos < length c \<and> c ! Suc pos = d"
  by (auto dest!: seg_Cons)

section \<open>Machine states that represent source states\<close>

text \<open>\<open>V\<close> is the final variable table: row \<open>i\<close> lives in global \<open>i\<close>.\<close>

definition at :: "string list \<Rightarrow> nat \<Rightarrow> int list \<Rightarrow> sstate \<Rightarrow> avm \<Rightarrow> bool" where
  "at V ip stk st a \<longleftrightarrow> av_ip a = ip \<and> av_stack a = stk \<and> av_running a \<and>
     printed (av_out a) = snd st \<and> length (av_globals a) = 256 \<and>
     (\<forall>i < length V. av_globals a ! i = fst st (V ! i))"

lemmas step_defs = av_step_def av_fetch_def av_push_def av_pop_def av_bin_def av_jump_def Let_def

lemma at_goes: "at V pos stk st a \<Longrightarrow> av_step c a = Inr a' \<Longrightarrow> goes c 1 a a'"
  by (rule goes_step) (simp_all add: at_def)

lemma step_PUSH:
  assumes "at V pos stk st a" "seg c pos [op_byte OP_PUSH, b]" "length stk < 256"
  shows "\<exists>a'. goes c 1 a a' \<and> at V (pos + 2) (uint b # stk) st a'"
proof -
  from assms seg_two [OF assms(2)] obtain a' where
    "av_step c a = Inr a'" "at V (pos + 2) (uint b # stk) st a'"
    by (auto simp: at_def step_defs)
  with at_goes [OF assms(1)] show ?thesis by blast
qed

lemma step_LOAD:
  assumes "at V pos stk st a" "seg c pos [op_byte OP_LOAD, of_nat i]" "length stk < 256"
    and "i < length V" "length V \<le> 256"
  shows "\<exists>a'. goes c 1 a a' \<and> at V (pos + 2) (fst st (V ! i) # stk) st a'"
proof -
  have "unat (of_nat i :: u8) = i" using assms(4,5) by (simp add: unat_of_nat)
  with assms seg_two [OF assms(2)] obtain a' where
    "av_step c a = Inr a'" "at V (pos + 2) (fst st (V ! i) # stk) st a'"
    by (auto simp: at_def step_defs)
  with at_goes [OF assms(1)] show ?thesis by blast
qed

lemma step_binary:
  assumes "at V pos (r # l # stk) st a" "seg c pos [op_byte op]" "length stk < 256"
    and "\<And>a. av_exec c op a = av_bin f a"
  shows "case f l r of Inr v \<Rightarrow> \<exists>a'. goes c 1 a a' \<and> at V (pos + 1) (v # stk) st a'
    | Inl e \<Rightarrow> fails c a e (snd st)"
proof -
  have s: "av_step c a = andthen (f l r) (\<lambda>v. Inr (a\<lparr>av_ip := pos + 1, av_stack := v # stk,
      av_out := av_out a @ [Running_Op (op_byte op)]\<rparr>))"
    using assms seg_Cons [OF assms(2)] by (cases "f l r") (auto simp: at_def step_defs)
  show ?thesis
  proof (cases "f l r")
    case (Inl e)
    then show ?thesis using s fails_step [of a c e] assms(1) by (simp add: at_def)
  next
    case (Inr v)
    then show ?thesis using s goes_step [of a c] assms(1) by (auto simp: at_def)
  qed
qed

section \<open>Expressions\<close>

text \<open>Constants that fit the operand byte and the stack an expression needs.\<close>

fun nums_ok :: "node \<Rightarrow> bool" where
  "nums_ok (NODE_NUM n) \<longleftrightarrow> 0 \<le> n \<and> n < 256"
| "nums_ok (NODE_ADD l r) \<longleftrightarrow> nums_ok l \<and> nums_ok r"
| "nums_ok (NODE_SUB l r) \<longleftrightarrow> nums_ok l \<and> nums_ok r"
| "nums_ok (NODE_MUL l r) \<longleftrightarrow> nums_ok l \<and> nums_ok r"
| "nums_ok (NODE_DIV l r) \<longleftrightarrow> nums_ok l \<and> nums_ok r"
| "nums_ok (NODE_GT l r) \<longleftrightarrow> nums_ok l \<and> nums_ok r"
| "nums_ok (NODE_LT l r) \<longleftrightarrow> nums_ok l \<and> nums_ok r"
| "nums_ok (NODE_EQEQ l r) \<longleftrightarrow> nums_ok l \<and> nums_ok r"
| "nums_ok _ \<longleftrightarrow> True"

fun need :: "node \<Rightarrow> nat" where
  "need (NODE_ADD l r) = max (need l) (need r + 1)"
| "need (NODE_SUB l r) = max (need l) (need r + 1)"
| "need (NODE_MUL l r) = max (need l) (need r + 1)"
| "need (NODE_DIV l r) = max (need l) (need r + 1)"
| "need (NODE_GT l r) = max (need l) (need r + 1)"
| "need (NODE_LT l r) = max (need l) (need r + 1)"
| "need (NODE_EQEQ l r) = max (need l) (need r + 1)"
| "need _ = 1"

definition expr_sim :: "string list \<Rightarrow> u8 list \<Rightarrow> string list \<Rightarrow> node \<Rightarrow> bool" where
  "expr_sim V c vs e \<longleftrightarrow> (\<forall>pos stk st a. seg c pos (expr_code vs e) \<longrightarrow> at V pos stk st a \<longrightarrow>
     length stk + need e \<le> 256 \<longrightarrow>
     (case eval (fst st) e of
        Inr v \<Rightarrow> \<exists>n a'. 0 < n \<and> goes c n a a' \<and> at V (pos + length (expr_code vs e)) (v # stk) st a'
      | Inl f \<Rightarrow> fails c a f (snd st)))"

lemma expr_simD:
  assumes "expr_sim V c vs e" "seg c pos (expr_code vs e)" "at V pos stk st a" "length stk + need e \<le> 256"
  shows "eval (fst st) e = Inr v \<Longrightarrow>
      \<exists>n a'. 0 < n \<and> goes c n a a' \<and> at V (pos + length (expr_code vs e)) (v # stk) st a'"
    and "eval (fst st) e = Inl f \<Longrightarrow> fails c a f (snd st)"
  using assms(1) [unfolded expr_sim_def, rule_format, OF assms(2-4)] by simp_all

lemma expr_sim_binary:
  assumes L: "expr_sim V c vs l" and R: "expr_sim V c vs r"
    and e: "expr_code vs e = expr_code vs l @ expr_code vs r @ [op_byte op]"
      "need e = max (need l) (need r + 1)"
      "\<And>s. eval s e = andthen (eval s l) (\<lambda>x. andthen (eval s r) (f x))"
    and op: "\<And>a. av_exec c op a = av_bin f a"
  shows "expr_sim V c vs e"
  unfolding expr_sim_def
proof (intro allI impI)
  fix pos stk st a
  assume s: "seg c pos (expr_code vs e)" and a: "at V pos stk st a" and need: "length stk + need e \<le> 256"
  let ?p = "pos + length (expr_code vs l)"
  let ?q = "?p + length (expr_code vs r)"
  have segs: "seg c pos (expr_code vs l)" "seg c ?p (expr_code vs r)" "seg c ?q [op_byte op]"
    using s seg_append unfolding e(1) by blast+
  have nl: "length stk + need l \<le> 256" and nr: "length (v # stk) + need r \<le> 256" for v
    using need e(2) by simp_all
  have "0 < need r" by (cases r) simp_all
  then have stk: "length stk < 256" using nr by simp
  show "case eval (fst st) e of
        Inr v \<Rightarrow> \<exists>n a'. 0 < n \<and> goes c n a a' \<and> at V (pos + length (expr_code vs e)) (v # stk) st a'
      | Inl f \<Rightarrow> fails c a f (snd st)"
  proof (cases "eval (fst st) l")
    case (Inl g)
    then show ?thesis using expr_simD(2) [OF L segs(1) a nl] by (simp add: e(3))
  next
    case x: (Inr x)
    then obtain n a1 where a1: "0 < n" "goes c n a a1" "at V ?p (x # stk) st a1"
      using expr_simD(1) [OF L segs(1) a nl] by blast
    show ?thesis
    proof (cases "eval (fst st) r")
      case (Inl g)
      then have "fails c a1 g (snd st)" using expr_simD(2) [OF R segs(2) a1(3) nr] by simp
      then show ?thesis using x Inl a1(2) by (auto simp: e(3) intro: goes_fails)
    next
      case y: (Inr y)
      then obtain m a2 where a2: "goes c m a1 a2" "at V ?q (y # x # stk) st a2"
        using expr_simD(1) [OF R segs(2) a1(3) nr] by blast
      note g = goes_trans [OF a1(2) a2(1)]
      show ?thesis
      proof (cases "f x y")
        case (Inl h)
        then have "fails c a2 h (snd st)" using step_binary [OF a2(2) segs(3) stk op] by simp
        then show ?thesis using x y Inl g by (auto simp: e(3) intro: goes_fails)
      next
        case (Inr v)
        then obtain a3 where a3: "goes c 1 a2 a3" "at V (?q + 1) (v # stk) st a3"
          using step_binary [OF a2(2) segs(3) stk op] by auto
        have "goes c (n + m + 1) a a3" using g a3(1) by (rule goes_trans)
        moreover have len: "pos + length (expr_code vs e) = ?q + 1" by (simp add: e(1))
        ultimately have "\<exists>n a'. 0 < n \<and> goes c n a a' \<and> at V (?q + 1) (v # stk) st a'"
          using a3(2) by (intro exI [of _ "n + m + 1"] exI [of _ a3]) simp
        then show ?thesis using x y Inr unfolding len by (simp add: e(3))
      qed
    qed
  qed
qed

lemma index_of_prefix:
  assumes "x \<in> set vs" "prefix vs V"
  shows "index_of vs x < length V" "V ! index_of vs x = x"
proof -
  have "index_of vs x < length vs \<and> vs ! index_of vs x = x" using assms(1) by (induction vs) auto
  then show "index_of vs x < length V" "V ! index_of vs x = x"
    using assms(2) by (auto simp: prefix_def nth_append)
qed

lemma expr_simI_leaf:
  assumes "\<And>pos stk st a. seg c pos (expr_code vs e) \<Longrightarrow> at V pos stk st a \<Longrightarrow> length stk < 256 \<Longrightarrow>
      \<exists>v a'. eval (fst st) e = Inr v \<and> goes c 1 a a' \<and> at V (pos + length (expr_code vs e)) (v # stk) st a'"
    and "need e = 1"
  shows "expr_sim V c vs e"
  unfolding expr_sim_def
proof (intro allI impI)
  fix pos stk st a
  assume "seg c pos (expr_code vs e)" "at V pos stk st a" "length stk + need e \<le> 256"
  with assms obtain v a' where
    "eval (fst st) e = Inr v" "goes c 1 a a'" "at V (pos + length (expr_code vs e)) (v # stk) st a'"
    by (metis Suc_eq_plus1 less_eq_Suc_le)
  then show "case eval (fst st) e of
        Inr v \<Rightarrow> \<exists>n a'. 0 < n \<and> goes c n a a' \<and> at V (pos + length (expr_code vs e)) (v # stk) st a'
      | Inl f \<Rightarrow> fails c a f (snd st)"
    by (auto intro!: exI [of _ 1] simp del: One_nat_def)
qed

lemma uint_byte: "0 \<le> n \<Longrightarrow> n < 256 \<Longrightarrow> uint (word_of_int n :: u8) = n"
  by (simp add: uint_word_of_int)

lemma expr_correct:
  assumes "prefix vs V" "length V \<le> 256"
  shows "names_ok vs e \<Longrightarrow> nums_ok e \<Longrightarrow> expr_sim V c vs e"
proof (induction e)
  case (NODE_NUM n)
  show ?case
  proof (rule expr_simI_leaf)
    fix pos stk st a
    assume "seg c pos (expr_code vs (NODE_NUM n))" "at V pos stk st a" "length (stk :: int list) < 256"
    with step_PUSH [of V pos stk st a c "word_of_int n"] NODE_NUM.prems
    show "\<exists>v a'. eval (fst st) (NODE_NUM n) = Inr v \<and> goes c 1 a a' \<and>
        at V (pos + length (expr_code vs (NODE_NUM n))) (v # stk) st a'"
      by (simp add: uint_byte)
  qed simp
next
  case (NODE_IDENT x)
  then have x: "x \<in> set vs" by simp
  show ?case
  proof (rule expr_simI_leaf)
    fix pos stk st a
    assume "seg c pos (expr_code vs (NODE_IDENT x))" "at V pos stk st a" "length (stk :: int list) < 256"
    with step_LOAD [of V pos stk st a c "index_of vs x"] index_of_prefix [OF x assms(1)] assms(2)
    show "\<exists>v a'. eval (fst st) (NODE_IDENT x) = Inr v \<and> goes c 1 a a' \<and>
        at V (pos + length (expr_code vs (NODE_IDENT x))) (v # stk) st a'"
      by simp
  qed simp
next
  case (NODE_ADD l r)
  then show ?case
    by - (rule expr_sim_binary [where l = l and r = r and op = OP_ADD and f = "\<lambda>x y. c_int (x + y)"], auto)
next
  case (NODE_SUB l r)
  then show ?case
    by - (rule expr_sim_binary [where l = l and r = r and op = OP_SUB and f = "\<lambda>x y. c_int (x - y)"], auto)
next
  case (NODE_MUL l r)
  then show ?case
    by - (rule expr_sim_binary [where l = l and r = r and op = OP_MUL and f = "\<lambda>x y. c_int (x * y)"], auto)
next
  case (NODE_DIV l r)
  then show ?case
    by - (rule expr_sim_binary [where l = l and r = r and op = OP_DIV and f = c_div], (auto simp: c_div_def [abs_def]))
next
  case (NODE_GT l r)
  then show ?case
    by - (rule expr_sim_binary [where l = l and r = r and op = OP_GT and f = "\<lambda>x y. Inr (c_bool (x > y))"], (auto simp: c_bool_def))
next
  case (NODE_LT l r)
  then show ?case
    by - (rule expr_sim_binary [where l = l and r = r and op = OP_LT and f = "\<lambda>x y. Inr (c_bool (x < y))"], (auto simp: c_bool_def))
next
  case (NODE_EQEQ l r)
  then show ?case
    by - (rule expr_sim_binary [where l = l and r = r and op = OP_EQ and f = "\<lambda>x y. Inr (c_bool (x = y))"], (auto simp: c_bool_def))
qed simp_all

section \<open>Statements\<close>

lemma step_STORE:
  assumes "at V pos [v] (s, out) a" "seg c pos [op_byte OP_STORE, of_nat (index_of vs x)]"
    and "x \<in> set vs" "prefix vs V" "distinct V" "length V \<le> 256"
  shows "\<exists>a'. goes c 1 a a' \<and> at V (pos + 2) [] (s(x := v), out) a'"
proof -
  let ?i = "index_of vs x"
  have i: "?i < length V" "V ! ?i = x" using index_of_prefix [OF assms(3,4)] .
  have u: "unat (of_nat ?i :: u8) = ?i" using i(1) assms(6) by (simp add: unat_of_nat)
  have eq: "V ! j = x \<longleftrightarrow> j = ?i" if "j < length V" for j
    using that i assms(5) nth_eq_iff_index_eq [of V j ?i] by auto
  have "av_step c a = Inr (a\<lparr>av_ip := pos + 2, av_stack := [], av_globals := (av_globals a)[?i := v],
      av_out := av_out a @ [Running_Op (op_byte OP_STORE)]\<rparr>)"
    using assms(1) seg_two [OF assms(2)] u by (auto simp: at_def step_defs)
  moreover have "at V (pos + 2) [] (s(x := v), out) (a\<lparr>av_ip := pos + 2, av_stack := [],
      av_globals := (av_globals a)[?i := v], av_out := av_out a @ [Running_Op (op_byte OP_STORE)]\<rparr>)"
    using assms(1,6) i(1) eq by (auto simp: at_def nth_list_update)
  ultimately show ?thesis using goes_step assms(1) unfolding at_def by blast
qed

lemma step_PRINT:
  assumes "at V pos [v] (s, out) a" "seg c pos [op_byte OP_PRINT]"
  shows "\<exists>a'. goes c 1 a a' \<and> at V (pos + 1) [] (s, out @ [v]) a'"
proof -
  from assms seg_Cons [OF assms(2)] obtain a' where
    "av_step c a = Inr a'" "at V (pos + 1) [] (s, out @ [v]) a'"
    by (auto simp: at_def step_defs)
  with at_goes [OF assms(1)] show ?thesis by blast
qed

lemma unat_target: "p < 256 \<Longrightarrow> unat (of_nat p :: u8) = p"
  by (simp add: unat_of_nat)

lemma step_JMP_IF_FALSE:
  assumes "at V pos [v] st a" "seg c pos [op_byte OP_JMP_IF_FALSE, of_nat p]" "p < 256"
  shows "\<exists>a'. goes c 1 a a' \<and> at V (if v = 0 then p else pos + 2) [] st a'"
proof -
  obtain a' where "av_step c a = Inr a'" "at V (if v = 0 then p else pos + 2) [] st a'"
    using assms(1) seg_two [OF assms(2)] unat_target [OF assms(3)]
    by (cases "v = 0") (auto simp: at_def step_defs)
  with at_goes [OF assms(1)] show ?thesis by blast
qed

lemma step_JMP:
  assumes "at V pos [] st a" "seg c pos [op_byte OP_JMP, of_nat p]" "p < 256"
  shows "\<exists>a'. goes c 1 a a' \<and> at V p [] st a'"
proof -
  from assms(1) seg_two [OF assms(2)] unat_target [OF assms(3)] obtain a' where
    "av_step c a = Inr a'" "at V p [] st a'"
    by (auto simp: at_def step_defs)
  with at_goes [OF assms(1)] show ?thesis by blast
qed

text \<open>The constants and stack depth of every expression of a statement.\<close>

definition expr_limits :: "node \<Rightarrow> bool" where
  "expr_limits e \<longleftrightarrow> nums_ok e \<and> need e \<le> 256"

fun limits_ok :: "node \<Rightarrow> bool" where
  "limits_ok (NODE_ASSIGN l e) \<longleftrightarrow> expr_limits e"
| "limits_ok (NODE_PRINT e) \<longleftrightarrow> expr_limits e"
| "limits_ok (NODE_IF e body) \<longleftrightarrow> expr_limits e \<and> list_all limits_ok body"
| "limits_ok (NODE_WHILE e body) \<longleftrightarrow> expr_limits e \<and> list_all limits_ok body"
| "limits_ok _ \<longleftrightarrow> False"

text \<open>Where the machine is after a statement that ends like \<open>r\<close>: at \<open>q\<close>, or faulted.\<close>

definition reaches :: "string list \<Rightarrow> u8 list \<Rightarrow> avm \<Rightarrow> nat \<Rightarrow> outcome \<Rightarrow> bool" where
  "reaches V c a q r \<longleftrightarrow> (case r of
     Inr st \<Rightarrow> \<exists>n a'. 0 < n \<and> goes c n a a' \<and> at V q [] st a'
   | Inl (f, out) \<Rightarrow> fails c a f out)"

lemma reaches_Inr: "reaches V c a q (Inr st) \<longleftrightarrow> (\<exists>n a'. 0 < n \<and> goes c n a a' \<and> at V q [] st a')"
  by (simp add: reaches_def)

lemma reaches_Inl: "reaches V c a q (Inl (f, out)) \<longleftrightarrow> fails c a f out"
  by (simp add: reaches_def)

lemma goes_reaches: "goes c n a b \<Longrightarrow> reaches V c b q r \<Longrightarrow> reaches V c a q r"
  unfolding reaches_def
  by (auto split: sum.splits prod.splits intro: goes_fails) (metis goes_trans add_gr_0)

lemma goes_at_reaches: "0 < n \<Longrightarrow> goes c n a b \<Longrightarrow> at V q [] st b \<Longrightarrow> reaches V c a q (Inr st)"
  by (auto simp: reaches_Inr)

text \<open>The condition of a statement, evaluated at its start with an empty stack.\<close>

lemma expr_at_start:
  assumes "names_ok vs e" "expr_limits e" "prefix vs V" "length V \<le> 256"
    and "seg c pos (expr_code vs e)" "at V pos [] (s, out) a"
  shows "eval s e = Inr v \<Longrightarrow>
      \<exists>n a'. 0 < n \<and> goes c n a a' \<and> at V (pos + length (expr_code vs e)) [v] (s, out) a'"
    and "eval s e = Inl f \<Longrightarrow> reaches V c a q (Inl (f, out))"
  using expr_simD [OF expr_correct [OF assms(3,4,1)] assms(5,6)] assms(2)
  by (auto simp: expr_limits_def reaches_Inl)

subsection \<open>Forward simulation\<close>

lemma declare_var_prefix: "prefix vs (declare_var x vs)"
  by (simp add: declare_var_def)

lemma stmt_vars_prefix: "prefix vs (stmt_vars s vs)"
proof (induction s arbitrary: vs rule: node.induct)
  case (NODE_ASSIGN l e)
  then show ?case by (cases l) (simp_all add: declare_var_prefix)
next
  case (NODE_WHILE e body)
  have "prefix us (fold stmt_vars ss us)" if "set ss \<subseteq> set body" for ss us
    using that NODE_WHILE(2)
    by (induction ss arbitrary: us) (auto intro: prefix_order.trans)
  then show ?case by simp
next
  case (NODE_IF e body)
  have "prefix us (fold stmt_vars ss us)" if "set ss \<subseteq> set body" for ss us
    using that NODE_IF(2)
    by (induction ss arbitrary: us) (auto intro: prefix_order.trans)
  then show ?case by simp
qed simp_all

lemma body_vars_prefix: "prefix vs (fold stmt_vars ss vs)"
  by (induction ss arbitrary: vs) (auto intro: prefix_order.trans [OF stmt_vars_prefix])

text \<open>The statement runs like \<open>r\<close> wherever its code stands and whatever the table before it.\<close>

definition stmt_sim :: "string list \<Rightarrow> u8 list \<Rightarrow> node \<Rightarrow> sstate \<Rightarrow> outcome \<Rightarrow> bool" where
  "stmt_sim V c s st r \<longleftrightarrow> (\<forall>vs pos a. stmt_ok vs s \<longrightarrow> limits_ok s \<longrightarrow> prefix (stmt_vars s vs) V \<longrightarrow>
     seg c pos (stmt_code vs pos s) \<longrightarrow> pos + length (stmt_code vs pos s) < 256 \<longrightarrow> at V pos [] st a \<longrightarrow>
     reaches V c a (pos + length (stmt_code vs pos s)) r)"

text \<open>A body may be empty, so it may take no step.\<close>

definition reaches0 :: "string list \<Rightarrow> u8 list \<Rightarrow> avm \<Rightarrow> nat \<Rightarrow> outcome \<Rightarrow> bool" where
  "reaches0 V c a q r \<longleftrightarrow> (case r of
     Inr st \<Rightarrow> \<exists>n a'. goes c n a a' \<and> at V q [] st a'
   | Inl (f, out) \<Rightarrow> fails c a f out)"

definition body_sim :: "string list \<Rightarrow> u8 list \<Rightarrow> node list \<Rightarrow> sstate \<Rightarrow> outcome \<Rightarrow> bool" where
  "body_sim V c ss st r \<longleftrightarrow> (\<forall>vs pos a. body_ok vs ss \<longrightarrow> list_all limits_ok ss \<longrightarrow>
     prefix (fold stmt_vars ss vs) V \<longrightarrow> seg c pos (body_code vs pos ss) \<longrightarrow>
     pos + length (body_code vs pos ss) < 256 \<longrightarrow> at V pos [] st a \<longrightarrow>
     reaches0 V c a (pos + length (body_code vs pos ss)) r)"

lemma reaches0_Inr: "reaches0 V c a q (Inr st) \<longleftrightarrow> (\<exists>n a'. goes c n a a' \<and> at V q [] st a')"
  by (simp add: reaches0_def)

lemma reaches0_Inl: "reaches0 V c a q (Inl f) \<longleftrightarrow> reaches V c a q (Inl f)"
  by (simp add: reaches0_def reaches_def)

lemma reaches_reaches0: "reaches V c a q r \<Longrightarrow> reaches0 V c a q r"
  by (auto simp: reaches0_def reaches_def split: sum.splits)

lemma goes_reaches0: "goes c n a b \<Longrightarrow> reaches0 V c b q r \<Longrightarrow> reaches0 V c a q r"
  unfolding reaches0_def
  by (auto split: sum.splits prod.splits intro: goes_fails goes_trans)

lemma goes_pos_reaches:
  "0 < n \<Longrightarrow> goes c n a b \<Longrightarrow> reaches0 V c b q r \<Longrightarrow> reaches V c a q r"
  unfolding reaches0_def reaches_def
  by (auto split: sum.splits prod.splits intro: goes_fails) (metis goes_trans add_gr_0)

lemmas stmt_simD = stmt_sim_def [THEN iffD1, rule_format]
lemmas body_simD = body_sim_def [THEN iffD1, rule_format]

lemma cond_jump:
  assumes "names_ok vs e" "expr_limits e" "prefix vs V" "length V \<le> 256"
    and "seg c pos (expr_code vs e)" "seg c (pos + length (expr_code vs e)) [op_byte OP_JMP_IF_FALSE, of_nat p]"
    and "p < 256" "at V pos [] (s, out) a" "eval s e = Inr v"
  shows "\<exists>n a'. 0 < n \<and> goes c n a a' \<and>
    at V (if v = 0 then p else pos + length (expr_code vs e) + 2) [] (s, out) a'"
proof -
  obtain n a1 where a1: "0 < n" "goes c n a a1" "at V (pos + length (expr_code vs e)) [v] (s, out) a1"
    using expr_at_start(1) [OF assms(1-5,8,9)] by blast
  obtain a2 where a2: "goes c 1 a1 a2"
    "at V (if v = 0 then p else pos + length (expr_code vs e) + 2) [] (s, out) a2"
    using step_JMP_IF_FALSE [OF a1(3) assms(6,7)] by blast
  have "goes c (n + 1) a a2" using a1(2) a2(1) by (rule goes_trans)
  with a2(2) show ?thesis by (intro exI [of _ "n + 1"] exI [of _ a2]) simp
qed

lemma if_parts:
  assumes "seg c pos (stmt_code vs pos (NODE_IF e body))"
  shows "seg c pos (expr_code vs e)"
    "seg c (pos + length (expr_code vs e))
       [op_byte OP_JMP_IF_FALSE, of_nat (pos + length (stmt_code vs pos (NODE_IF e body)))]"
    "seg c (pos + length (expr_code vs e) + 2) (body_code vs (pos + length (expr_code vs e) + 2) body)"
    "pos + length (expr_code vs e) + 2 + length (body_code vs (pos + length (expr_code vs e) + 2) body) =
      pos + length (stmt_code vs pos (NODE_IF e body))"
proof -
  let ?ce = "expr_code vs e" and ?q = "pos + length (stmt_code vs pos (NODE_IF e body))"
  let ?cb = "body_code vs (pos + length ?ce + 2) body"
  have code: "stmt_code vs pos (NODE_IF e body) = ?ce @ [op_byte OP_JMP_IF_FALSE, of_nat ?q] @ ?cb"
    by (simp add: Let_def add_ac)
  note s = subst [OF code, where P = "seg c pos", OF assms]
  have *: "seg c pos ?ce" "seg c (pos + length ?ce) ([op_byte OP_JMP_IF_FALSE, of_nat ?q] @ ?cb)"
    using seg_append [OF s] by simp_all
  from seg_append [OF *(2)] * show "seg c pos ?ce"
    "seg c (pos + length ?ce) [op_byte OP_JMP_IF_FALSE, of_nat ?q]" "seg c (pos + length ?ce + 2) ?cb"
    by simp_all
  show "pos + length ?ce + 2 + length ?cb = ?q" by (simp add: Let_def)
qed

lemma while_parts:
  assumes "seg c pos (stmt_code vs pos (NODE_WHILE e body))"
  shows "seg c pos (expr_code vs e)"
    "seg c (pos + length (expr_code vs e))
       [op_byte OP_JMP_IF_FALSE, of_nat (pos + length (stmt_code vs pos (NODE_WHILE e body)))]"
    "seg c (pos + length (expr_code vs e) + 2) (body_code vs (pos + length (expr_code vs e) + 2) body)"
    "seg c (pos + length (expr_code vs e) + 2 + length (body_code vs (pos + length (expr_code vs e) + 2) body))
       [op_byte OP_JMP, of_nat pos]"
    "pos + length (expr_code vs e) + 2 + length (body_code vs (pos + length (expr_code vs e) + 2) body) + 2 =
      pos + length (stmt_code vs pos (NODE_WHILE e body))"
proof -
  let ?ce = "expr_code vs e" and ?q = "pos + length (stmt_code vs pos (NODE_WHILE e body))"
  let ?cb = "body_code vs (pos + length ?ce + 2) body"
  have code: "stmt_code vs pos (NODE_WHILE e body) =
      ?ce @ [op_byte OP_JMP_IF_FALSE, of_nat ?q] @ ?cb @ [op_byte OP_JMP, of_nat pos]"
    by (simp add: Let_def add_ac)
  note s = subst [OF code, where P = "seg c pos", OF assms]
  have *: "seg c pos ?ce"
    "seg c (pos + length ?ce) ([op_byte OP_JMP_IF_FALSE, of_nat ?q] @ ?cb @ [op_byte OP_JMP, of_nat pos])"
    using seg_append [OF s] by simp_all
  from seg_append [OF *(2)] * have **: "seg c pos ?ce"
    "seg c (pos + length ?ce) [op_byte OP_JMP_IF_FALSE, of_nat ?q]"
    "seg c (pos + length ?ce + 2) (?cb @ [op_byte OP_JMP, of_nat pos])"
    by simp_all
  from ** seg_append [OF **(3)] show "seg c pos ?ce"
    "seg c (pos + length ?ce) [op_byte OP_JMP_IF_FALSE, of_nat ?q]" "seg c (pos + length ?ce + 2) ?cb"
    "seg c (pos + length ?ce + 2 + length ?cb) [op_byte OP_JMP, of_nat pos]" by simp_all
  show "pos + length ?ce + 2 + length ?cb + 2 = ?q" by (simp add: Let_def)
qed

lemma stmt_simI:
  assumes "\<And>vs pos a. stmt_ok vs s \<Longrightarrow> limits_ok s \<Longrightarrow> prefix (stmt_vars s vs) V \<Longrightarrow> prefix vs V \<Longrightarrow>
     seg c pos (stmt_code vs pos s) \<Longrightarrow> pos + length (stmt_code vs pos s) < 256 \<Longrightarrow> at V pos [] st a \<Longrightarrow>
     reaches V c a (pos + length (stmt_code vs pos s)) r"
  shows "stmt_sim V c s st r"
  unfolding stmt_sim_def using assms prefix_order.trans [OF stmt_vars_prefix] by blast

lemma wf_vars_len: "wf_vars V \<Longrightarrow> length V \<le> 256" and wf_vars_distinct: "wf_vars V \<Longrightarrow> distinct V"
  by (simp_all add: wf_vars_def)

lemma sim_assign:
  assumes "wf_vars V" "eval s e = Inr v"
  shows "stmt_sim V c (NODE_ASSIGN (NODE_IDENT x) e) (s, out) (Inr (s(x := v), out))"
proof (rule stmt_simI)
  fix vs pos a
  assume h: "stmt_ok vs (NODE_ASSIGN (NODE_IDENT x) e)" "limits_ok (NODE_ASSIGN (NODE_IDENT x) e)"
    "prefix (stmt_vars (NODE_ASSIGN (NODE_IDENT x) e) vs) V" "prefix vs V"
    "seg c pos (stmt_code vs pos (NODE_ASSIGN (NODE_IDENT x) e))" "at V pos [] (s, out) a"
  let ?ce = "expr_code vs e" and ?vs = "declare_var x vs"
  have segs: "seg c pos ?ce" "seg c (pos + length ?ce) [op_byte OP_STORE, of_nat (index_of ?vs x)]"
    using h(5) seg_append [of c pos ?ce] by simp_all
  obtain n a1 where a1: "0 < n" "goes c n a a1" "at V (pos + length ?ce) [v] (s, out) a1"
    using expr_at_start(1) [OF _ _ h(4) wf_vars_len [OF assms(1)] segs(1) h(6) assms(2)] h(1,2) by auto
  have "x \<in> set ?vs" by (simp add: declare_var_def)
  then obtain a2 where a2: "goes c 1 a1 a2" "at V (pos + length ?ce + 2) [] (s(x := v), out) a2"
    using step_STORE [OF a1(3) segs(2)] h(3) assms(1) by (auto simp: wf_vars_len wf_vars_distinct)
  have "goes c (n + 1) a a2" using a1(2) a2(1) by (rule goes_trans)
  with a2(2) show "reaches V c a (pos + length (stmt_code vs pos (NODE_ASSIGN (NODE_IDENT x) e)))
      (Inr (s(x := v), out))"
    by (auto simp: reaches_Inr intro!: exI [of _ "n + 1"])
qed

lemma sim_print:
  assumes "wf_vars V" "eval s e = Inr v"
  shows "stmt_sim V c (NODE_PRINT e) (s, out) (Inr (s, out @ [v]))"
proof (rule stmt_simI)
  fix vs pos a
  assume h: "stmt_ok vs (NODE_PRINT e)" "limits_ok (NODE_PRINT e)" "prefix vs V"
    "seg c pos (stmt_code vs pos (NODE_PRINT e))" "at V pos [] (s, out) a"
  let ?ce = "expr_code vs e"
  have segs: "seg c pos ?ce" "seg c (pos + length ?ce) [op_byte OP_PRINT]"
    using h(4) seg_append [of c pos ?ce] by simp_all
  obtain n a1 where a1: "0 < n" "goes c n a a1" "at V (pos + length ?ce) [v] (s, out) a1"
    using expr_at_start(1) [OF _ _ h(3) wf_vars_len [OF assms(1)] segs(1) h(5) assms(2)] h(1,2) by auto
  obtain a2 where a2: "goes c 1 a1 a2" "at V (pos + length ?ce + 1) [] (s, out @ [v]) a2"
    using step_PRINT [OF a1(3) segs(2)] by blast
  have "goes c (n + 1) a a2" using a1(2) a2(1) by (rule goes_trans)
  with a2(2) show "reaches V c a (pos + length (stmt_code vs pos (NODE_PRINT e))) (Inr (s, out @ [v]))"
    by (auto simp: reaches_Inr intro!: exI [of _ "n + 1"])
qed

text \<open>A faulting expression at the start of a statement.\<close>

lemma sim_fault:
  assumes "wf_vars V" "eval s e = Inl f"
    and "\<And>vs. stmt_ok vs st \<Longrightarrow> names_ok vs e" "limits_ok st \<Longrightarrow> expr_limits e"
    and "\<And>vs pos. \<exists>rest. stmt_code vs pos st = expr_code vs e @ rest"
  shows "stmt_sim V c st (s, out) (Inl (f, out))"
proof (rule stmt_simI)
  fix vs pos a
  assume h: "stmt_ok vs st" "limits_ok st" "prefix vs V" "seg c pos (stmt_code vs pos st)"
    "at V pos [] (s, out) a"
  obtain rest where rest: "stmt_code vs pos st = expr_code vs e @ rest" using assms(5) by blast
  have "seg c pos (expr_code vs e)" using h(4) seg_append unfolding rest by blast
  then have "reaches V c a q (Inl (f, out))" for q
    using expr_at_start(2) [OF assms(3) [OF h(1)] assms(4) [OF h(2)] h(3) wf_vars_len [OF assms(1)] _ h(5) assms(2)]
    by (simp add: reaches_def)
  then show "reaches V c a (pos + length (stmt_code vs pos st)) (Inl (f, out))" .
qed

lemma sim_if:
  assumes "wf_vars V" "eval s e = Inr v"
    and body: "v \<noteq> 0 \<Longrightarrow> body_sim V c body (s, out) r" and skip: "v = 0 \<Longrightarrow> r = Inr (s, out)"
  shows "stmt_sim V c (NODE_IF e body) (s, out) r"
proof (rule stmt_simI)
  fix vs pos a
  assume h: "stmt_ok vs (NODE_IF e body)" "limits_ok (NODE_IF e body)"
    "prefix (stmt_vars (NODE_IF e body) vs) V" "prefix vs V"
    "seg c pos (stmt_code vs pos (NODE_IF e body))"
    "pos + length (stmt_code vs pos (NODE_IF e body)) < 256" "at V pos [] (s, out) a"
  let ?b = "pos + length (expr_code vs e) + 2"
  let ?q = "pos + length (stmt_code vs pos (NODE_IF e body))"
  note p = if_parts [OF h(5)]
  have ok: "body_ok vs body" "list_all limits_ok body" "prefix (fold stmt_vars body vs) V"
    using h(1-3) by simp_all
  obtain n a1 where a1: "0 < n" "goes c n a a1" "at V (if v = 0 then ?q else ?b) [] (s, out) a1"
    using cond_jump [OF _ _ h(4) wf_vars_len [OF assms(1)] p(1,2) h(6,7) assms(2)] h(1,2) by auto
  have "reaches0 V c a1 ?q r"
  proof (cases "v = 0")
    case True
    then show ?thesis using a1(3) skip by (auto simp: reaches0_Inr intro: goes_refl)
  next
    case False
    then show ?thesis
      using body_simD [OF body [OF False] ok p(3), unfolded p(4)] a1(3) h(6)
      by (simp del: stmt_code.simps)
  qed
  with a1(1,2) show "reaches V c a ?q r" by (rule goes_pos_reaches)
qed

lemma sim_while:
  assumes "wf_vars V" "eval s e = Inr v"
    and stop: "v = 0 \<Longrightarrow> r = Inr (s, out)"
    and body: "v \<noteq> 0 \<Longrightarrow> body_sim V c body (s, out) rb"
    and cont: "\<And>t. v \<noteq> 0 \<Longrightarrow> rb = Inr t \<Longrightarrow> stmt_sim V c (NODE_WHILE e body) t r"
    and fault: "\<And>f. v \<noteq> 0 \<Longrightarrow> rb = Inl f \<Longrightarrow> r = Inl f"
  shows "stmt_sim V c (NODE_WHILE e body) (s, out) r"
proof (rule stmt_simI)
  fix vs pos a
  assume h: "stmt_ok vs (NODE_WHILE e body)" "limits_ok (NODE_WHILE e body)"
    "prefix (stmt_vars (NODE_WHILE e body) vs) V" "prefix vs V"
    "seg c pos (stmt_code vs pos (NODE_WHILE e body))"
    "pos + length (stmt_code vs pos (NODE_WHILE e body)) < 256" "at V pos [] (s, out) a"
  let ?b = "pos + length (expr_code vs e) + 2"
  let ?j = "?b + length (body_code vs ?b body)"
  let ?q = "pos + length (stmt_code vs pos (NODE_WHILE e body))"
  note p = while_parts [OF h(5)]
  have ok: "body_ok vs body" "list_all limits_ok body" "prefix (fold stmt_vars body vs) V"
    using h(1-3) by simp_all
  have len: "?j < 256" "pos < 256" using p(5) h(6) by linarith+
  obtain n a1 where a1: "0 < n" "goes c n a a1" "at V (if v = 0 then ?q else ?b) [] (s, out) a1"
    using cond_jump [OF _ _ h(4) wf_vars_len [OF assms(1)] p(1,2) h(6,7) assms(2)] h(1,2) by auto
  have "reaches0 V c a1 ?q r"
  proof (cases "v = 0")
    case True
    then show ?thesis using a1(3) stop by (auto simp: reaches0_Inr intro: goes_refl)
  next
    case v: False
    have b: "reaches0 V c a1 ?j rb"
      using body_simD [OF body [OF v] ok p(3)] v a1(3) len by (simp del: stmt_code.simps)
    show ?thesis
    proof (cases rb)
      case (Inl f)
      then show ?thesis using fault [OF v Inl] b by (simp add: reaches0_Inl reaches_def)
    next
      case (Inr t)
      then obtain m a2 where a2: "goes c m a1 a2" "at V ?j [] t a2" using b by (auto simp: reaches0_Inr)
      obtain a3 where a3: "goes c 1 a2 a3" "at V pos [] t a3"
        using step_JMP [OF a2(2) p(4) len(2)] by blast
      have "reaches V c a3 ?q r" using stmt_simD [OF cont [OF v Inr] h(1-3,5,6) a3(2)] .
      then show ?thesis
        using goes_trans [OF a2(1) a3(1)] by (intro reaches_reaches0) (rule goes_reaches)
    qed
  qed
  with a1(1,2) show "reaches V c a ?q r" by (rule goes_pos_reaches)
qed

lemma sim_nil: "body_sim V c [] st (Inr st)"
  by (auto simp: body_sim_def reaches0_Inr intro: goes_refl)

text \<open>The parts of the premises for a non-empty body.\<close>

lemma body_cons_parts:
  assumes "seg c pos (body_code vs pos (s # ss))"
  shows "seg c pos (stmt_code vs pos s)"
    "seg c (pos + length (stmt_code vs pos s)) (body_code (stmt_vars s vs) (pos + length (stmt_code vs pos s)) ss)"
    "pos + length (stmt_code vs pos s) +
       length (body_code (stmt_vars s vs) (pos + length (stmt_code vs pos s)) ss) =
     pos + length (body_code vs pos (s # ss))"
  using seg_append [of c pos "stmt_code vs pos s"] assms by (simp_all add: Let_def)

lemma sim_cons:
  assumes "stmt_sim V c s st rs" "\<And>t. rs = Inr t \<Longrightarrow> body_sim V c ss t r"
    and "\<And>f. rs = Inl f \<Longrightarrow> r = Inl f"
  shows "body_sim V c (s # ss) st r"
  unfolding body_sim_def
proof (intro allI impI)
  fix vs pos a
  assume h: "body_ok vs (s # ss)" "list_all limits_ok (s # ss)" "prefix (fold stmt_vars (s # ss) vs) V"
    "seg c pos (body_code vs pos (s # ss))" "pos + length (body_code vs pos (s # ss)) < 256"
    "at V pos [] st a"
  let ?m = "pos + length (stmt_code vs pos s)" and ?q = "pos + length (body_code vs pos (s # ss))"
  note p = body_cons_parts [OF h(4)]
  have ok: "stmt_ok vs s" "limits_ok s" "body_ok (stmt_vars s vs) ss" "list_all limits_ok ss"
    "prefix (fold stmt_vars ss (stmt_vars s vs)) V" using h(1-3) by simp_all
  have pre: "prefix (stmt_vars s vs) V" by (rule prefix_order.trans [OF body_vars_prefix ok(5)])
  have len: "?m < 256" using p(3) h(5) by linarith
  note m = stmt_simD [OF assms(1) ok(1,2) pre p(1) len h(6)]
  show "reaches0 V c a ?q r"
  proof (cases rs)
    case (Inl f)
    then show ?thesis using m assms(3) by (simp add: reaches0_Inl reaches_def)
  next
    case (Inr t)
    then obtain n a1 where a1: "goes c n a a1" "at V ?m [] t a1" using m by (auto simp: reaches_Inr)
    have "reaches0 V c a1 ?q r"
      using body_simD [OF assms(2) [OF Inr] ok(3-5) p(2) _ a1(2)] h(5) unfolding p(3) by blast
    with a1(1) show ?thesis by (rule goes_reaches0)
  qed
qed

theorem forward_simulation:
  shows "exec s st r \<Longrightarrow> wf_vars V \<Longrightarrow> stmt_sim V c s st r"
    and "exec_body ss st r \<Longrightarrow> wf_vars V \<Longrightarrow> body_sim V c ss st r"
proof (induction rule: exec_exec_body.inducts)
  case (Assign_Fault s e f x out)
  from Assign_Fault(2,1) show ?case by (rule sim_fault) auto
next
  case (Print_Fault s e f out)
  from Print_Fault(2,1) show ?case by (rule sim_fault) auto
next
  case (If_Fault s e f body out)
  from If_Fault(2,1) show ?case by (rule sim_fault) (auto simp: Let_def)
next
  case (While_Fault s e f body out)
  from While_Fault(2,1) show ?case by (rule sim_fault) (auto simp: Let_def)
next
  case (If_True s e v body out r)
  then show ?case by (auto intro: sim_if)
next
  case (If_False s e body out)
  then show ?case by (auto intro: sim_if)
next
  case (While_True s e v body out t r)
  then show ?case by (auto intro: sim_while [where rb = "Inr t"])
next
  case (While_Body_Fault s e v body out f)
  then show ?case by (auto intro: sim_while [where rb = "Inl f"])
next
  case (While_False s e body out)
  then show ?case by (auto intro: sim_while)
next
  case (Body_Cons s st t ss r)
  then show ?case by (auto intro: sim_cons [where rs = "Inr t"])
next
  case (Body_Fault s st f ss)
  then show ?case by (auto intro: sim_cons [where rs = "Inl f"])
qed (simp_all add: sim_assign sim_print sim_nil)

subsection \<open>Termination is reflected\<close>

text \<open>A run that stops, seen from a later point of it.\<close>

lemma av_run_mono: "av_run c n a = Some r \<Longrightarrow> n \<le> m \<Longrightarrow> av_run c m a = Some r"
proof (induction n arbitrary: m a)
  case 0
  then show ?case by (cases m) (auto split: if_splits)
next
  case (Suc n)
  then obtain k where "m = Suc k" "n \<le> k" by (cases m) auto
  with Suc show ?case by (auto split: if_splits sum.splits)
qed

lemma goes_stops:
  assumes "goes c k a b" "av_running b" "av_run c n a = Some r"
  shows "k \<le> n \<and> av_run c (n - k) b = Some r"
proof -
  have "k \<le> n"
  proof (rule ccontr)
    assume "\<not> k \<le> n"
    with av_run_mono [OF assms(3), of k] assms(1) have "av_run c 0 b = Some r"
      by (metis goes_def add_0_right nle_le)
    with assms(2) show False by simp
  qed
  with assms(1,3) show ?thesis by (metis goes_def le_add_diff_inverse)
qed

text \<open>If a run from the start of the statement stops within \<open>n\<close> steps, the statement has an outcome.\<close>

definition stops :: "u8 list \<Rightarrow> nat \<Rightarrow> avm \<Rightarrow> bool" where
  "stops c n a \<longleftrightarrow> (\<exists>r. av_run c n a = Some r)"

lemma stops_later: "goes c k a b \<Longrightarrow> at V q stk st b \<Longrightarrow> stops c n a \<Longrightarrow> k \<le> n \<and> stops c (n - k) b"
  unfolding stops_def at_def using goes_stops by metis

definition stmt_halts :: "string list \<Rightarrow> u8 list \<Rightarrow> nat \<Rightarrow> node \<Rightarrow> bool" where
  "stmt_halts V c n s \<longleftrightarrow> (\<forall>vs pos st a. stmt_ok vs s \<longrightarrow> limits_ok s \<longrightarrow> prefix (stmt_vars s vs) V \<longrightarrow>
     seg c pos (stmt_code vs pos s) \<longrightarrow> pos + length (stmt_code vs pos s) < 256 \<longrightarrow> at V pos [] st a \<longrightarrow>
     stops c n a \<longrightarrow> (\<exists>r. exec s st r))"

definition body_halts :: "string list \<Rightarrow> u8 list \<Rightarrow> nat \<Rightarrow> node list \<Rightarrow> bool" where
  "body_halts V c n ss \<longleftrightarrow> (\<forall>vs pos st a. body_ok vs ss \<longrightarrow> list_all limits_ok ss \<longrightarrow>
     prefix (fold stmt_vars ss vs) V \<longrightarrow> seg c pos (body_code vs pos ss) \<longrightarrow>
     pos + length (body_code vs pos ss) < 256 \<longrightarrow> at V pos [] st a \<longrightarrow>
     stops c n a \<longrightarrow> (\<exists>r. exec_body ss st r))"

lemmas stmt_haltsD = stmt_halts_def [THEN iffD1, rule_format]
lemmas body_haltsD = body_halts_def [THEN iffD1, rule_format]

lemma body_halts_list:
  assumes "wf_vars V" "\<And>x m. x \<in> set ss \<Longrightarrow> m \<le> n \<Longrightarrow> stmt_halts V c m x"
  shows "body_halts V c n ss"
  using assms(2)
proof (induction ss arbitrary: n)
  case Nil
  then show ?case by (auto simp: body_halts_def intro: Body_Nil)
next
  case (Cons s ss)
  show ?case
    unfolding body_halts_def
  proof (intro allI impI)
    fix vs pos st a
    assume h: "body_ok vs (s # ss)" "list_all limits_ok (s # ss)" "prefix (fold stmt_vars (s # ss) vs) V"
      "seg c pos (body_code vs pos (s # ss))" "pos + length (body_code vs pos (s # ss)) < 256"
      "at V pos [] st a" "stops c n a"
    let ?m = "pos + length (stmt_code vs pos s)"
    note p = body_cons_parts [OF h(4)]
    have ok: "stmt_ok vs s" "limits_ok s" "body_ok (stmt_vars s vs) ss" "list_all limits_ok ss"
      "prefix (fold stmt_vars ss (stmt_vars s vs)) V" using h(1-3) by simp_all
    have pre: "prefix (stmt_vars s vs) V" by (rule prefix_order.trans [OF body_vars_prefix ok(5)])
    have len: "?m < 256" using p(3) h(5) by linarith
    obtain rs where rs: "exec s st rs"
      using stmt_haltsD [OF Cons.prems ok(1,2) pre p(1) len h(6,7)] by auto
    note m = stmt_simD [OF forward_simulation(1) [OF rs assms(1)] ok(1,2) pre p(1) len h(6)]
    show "\<exists>r. exec_body (s # ss) st r"
    proof (cases rs)
      case (Inl f)
      then show ?thesis using rs by (auto intro: Body_Fault)
    next
      case (Inr t)
      then obtain k a1 where a1: "goes c k a a1" "at V ?m [] t a1" using m by (auto simp: reaches_Inr)
      have "body_halts V c (n - k) ss" by (rule Cons.IH) (use Cons.prems in auto)
      then have "\<exists>r. exec_body ss t r"
        using body_haltsD [OF _ ok(3-5) p(2) _ a1(2)] stops_later [OF a1 h(7)] h(5) p(3) by metis
      then show ?thesis using rs Inr by (auto intro: Body_Cons)
    qed
  qed
qed

lemma halts_cond:
  assumes "wf_vars V" "names_ok vs e" "expr_limits e" "prefix vs V"
    and "seg c pos (expr_code vs e)" "seg c (pos + length (expr_code vs e)) [op_byte OP_JMP_IF_FALSE, of_nat p]"
    and "p < 256" "at V pos [] (s, out) a" "eval s e = Inr v" "v \<noteq> 0" "stops c n a"
  shows "\<exists>k a'. 0 < k \<and> k \<le> n \<and> at V (pos + length (expr_code vs e) + 2) [] (s, out) a' \<and> stops c (n - k) a'"
  using cond_jump [OF assms(2-4) wf_vars_len [OF assms(1)] assms(5-9)] assms(10)
    stops_later [OF _ _ assms(11)] by fastforce

lemma halts_if:
  assumes V: "wf_vars V" and body: "\<And>m. m \<le> n \<Longrightarrow> body_halts V c m body"
  shows "stmt_halts V c n (NODE_IF e body)"
  unfolding stmt_halts_def
proof (intro allI impI)
  fix vs pos st a
  assume h: "stmt_ok vs (NODE_IF e body)" "limits_ok (NODE_IF e body)"
    "prefix (stmt_vars (NODE_IF e body) vs) V" "seg c pos (stmt_code vs pos (NODE_IF e body))"
    "pos + length (stmt_code vs pos (NODE_IF e body)) < 256" "at V pos [] st a" "stops c n a"
  note p = if_parts [OF h(4)]
  have ok: "names_ok vs e" "expr_limits e" "body_ok vs body" "list_all limits_ok body"
    "prefix (fold stmt_vars body vs) V" using h(1-3) by simp_all
  have pre: "prefix vs V" by (rule prefix_order.trans [OF stmt_vars_prefix h(3)])
  obtain s out where st: "st = (s, out)" by (cases st)
  show "\<exists>r. exec (NODE_IF e body) st r"
  proof (cases "eval s e")
    case (Inl f)
    then show ?thesis using st by (auto intro: If_Fault)
  next
    case (Inr v)
    show ?thesis
    proof (cases "v = 0")
      case True
      then show ?thesis using st Inr by (auto intro: If_False)
    next
      case False
      obtain k a1 where a1: "k \<le> n" "at V (pos + length (expr_code vs e) + 2) [] (s, out) a1" "stops c (n - k) a1"
        using halts_cond [OF V ok(1,2) pre p(1,2) h(5) h(6)[unfolded st] Inr False h(7)] by blast
      have "\<exists>r. exec_body body (s, out) r"
        by (rule body_haltsD [OF body ok(3-5) p(3) _ a1(2,3)]) (simp, use p(4) h(5) in linarith)
      then show ?thesis using st Inr False by (auto intro: If_True)
    qed
  qed
qed

lemma halts_while:
  assumes V: "wf_vars V" and body: "\<And>m. m \<le> n \<Longrightarrow> body_halts V c m body"
    and again: "\<And>m. m < n \<Longrightarrow> stmt_halts V c m (NODE_WHILE e body)"
  shows "stmt_halts V c n (NODE_WHILE e body)"
  unfolding stmt_halts_def
proof (intro allI impI)
  fix vs pos st a
  assume h: "stmt_ok vs (NODE_WHILE e body)" "limits_ok (NODE_WHILE e body)"
    "prefix (stmt_vars (NODE_WHILE e body) vs) V" "seg c pos (stmt_code vs pos (NODE_WHILE e body))"
    "pos + length (stmt_code vs pos (NODE_WHILE e body)) < 256" "at V pos [] st a" "stops c n a"
  let ?b = "pos + length (expr_code vs e) + 2"
  let ?j = "?b + length (body_code vs ?b body)"
  note p = while_parts [OF h(4)]
  have ok: "names_ok vs e" "expr_limits e" "body_ok vs body" "list_all limits_ok body"
    "prefix (fold stmt_vars body vs) V" using h(1-3) by simp_all
  have pre: "prefix vs V" by (rule prefix_order.trans [OF stmt_vars_prefix h(3)])
  have len: "?j < 256" "pos < 256" using p(5) h(5) by linarith+
  obtain s out where st: "st = (s, out)" by (cases st)
  show "\<exists>r. exec (NODE_WHILE e body) st r"
  proof (cases "\<exists>v. eval s e = Inr v \<and> v \<noteq> 0")
    case False
    then show ?thesis using st by (cases "eval s e") (auto intro: While_Fault While_False)
  next
    case True
    then obtain v where v: "eval s e = Inr v" "v \<noteq> 0" by blast
    obtain k a1 where a1: "0 < k" "k \<le> n" "at V ?b [] (s, out) a1" "stops c (n - k) a1"
      using halts_cond [OF V ok(1,2) pre p(1,2) h(5) h(6)[unfolded st] v h(7)] by blast
    obtain rb where rb: "exec_body body (s, out) rb"
      using body_haltsD [OF body ok(3-5) p(3) len(1) a1(3,4)] by auto
    note sim = body_simD [OF forward_simulation(2) [OF rb V] ok(3-5) p(3) len(1) a1(3)]
    show ?thesis
    proof (cases rb)
      case (Inl f)
      then show ?thesis using st v rb by (auto intro: While_Body_Fault)
    next
      case (Inr t)
      then obtain m a2 where a2: "goes c m a1 a2" "at V ?j [] t a2" using sim by (auto simp: reaches0_Inr)
      obtain a3 where a3: "goes c 1 a2 a3" "at V pos [] t a3"
        using step_JMP [OF a2(2) p(4) len(2)] by blast
      have "stops c (n - k - (m + 1)) a3"
        using stops_later [OF goes_trans [OF a2(1) a3(1)] a3(2) a1(4)] by blast
      then have "\<exists>r. exec (NODE_WHILE e body) t r"
        using a1(1,2) by (intro stmt_haltsD [OF again h(1-5) a3(2)]) auto
      then show ?thesis using st v rb Inr by (auto intro: While_True)
    qed
  qed
qed

theorem halting_reflected:
  assumes "wf_vars V"
  shows "stmt_halts V c n s"
proof (induction n arbitrary: s rule: less_induct)
  case (less n)
  have body: "body_halts V c m ss" if "\<And>x. x \<in> set ss \<Longrightarrow> stmt_halts V c n x" "m \<le> n" for ss m
  proof (rule body_halts_list [OF assms])
    fix x k assume "x \<in> set ss" "k \<le> m"
    with that(2) have "k < n \<or> k = n" by linarith
    then show "stmt_halts V c k x" using less.IH that(1) [OF \<open>x \<in> set ss\<close>] by blast
  qed
  show ?case
  proof (induction s rule: node.induct)
    case (NODE_IF e ss)
    show ?case by (rule halts_if [OF assms body [OF NODE_IF(2)]])
  next
    case (NODE_WHILE e ss)
    show ?case by (rule halts_while [OF assms body [OF NODE_WHILE(2)] less.IH])
  next
    case (NODE_ASSIGN l e)
    have "\<exists>r. exec (NODE_ASSIGN l e) st r" if "stmt_ok vs (NODE_ASSIGN l e)" for vs st
      using that by (cases st; cases l; cases "eval (fst st) e") (auto intro: Assign Assign_Fault)
    then show ?case by (auto simp: stmt_halts_def)
  next
    case (NODE_PRINT e)
    have "\<exists>r. exec (NODE_PRINT e) st r" for st
      by (cases st; cases "eval (fst st) e") (auto intro: Print Print_Fault)
    then show ?case by (auto simp: stmt_halts_def)
  qed (simp_all add: stmt_halts_def)
qed

section \<open>Whole programs\<close>

text \<open>
  A machine outcome that shows what the program means: the same fault after the same printed
  numbers, or the same printed numbers and every variable's value in its global.
\<close>

definition vm_shows :: "string list \<Rightarrow> outcome \<Rightarrow> (c_error \<times> vm) + vm \<Rightarrow> bool" where
  "vm_shows V r m = (case (r, m) of
     (Inr (s, out), Inr vm) \<Rightarrow> printed (vm_out vm) = out \<and> map s V = take (length V) (vm_globals vm)
   | (Inl (f, out), Inl (e, vm)) \<Rightarrow> e = f \<and> printed (vm_out vm) = out
   | _ \<Rightarrow> False)"

text \<open>The program fits the machine: names, operand bytes, stack depth and code size.\<close>

definition program_ok :: "node list \<Rightarrow> bool" where
  "program_ok ss \<longleftrightarrow> body_ok [] ss \<and> list_all limits_ok ss \<and> length (body_code [] 0 ss) < 256"

definition program_vars :: "node list \<Rightarrow> string list" where
  "program_vars ss = fold stmt_vars ss []"

definition start_state :: "sstate" where
  "start_state = (\<lambda>_. 0, [])"

lemma wf_program_vars: "program_ok ss \<Longrightarrow> wf_vars (program_vars ss)"
  unfolding program_ok_def program_vars_def by (rule wf_stmt_vars(2)) (simp_all add: wf_vars_def)

lemma at_vm_init:
  "vm_out vm0 = [] \<Longrightarrow> length V \<le> 256 \<Longrightarrow> at V 0 [] start_state (abs_vm (vm_init vm0 (Some code)))"
  by (auto simp: at_def vm_init_def vm_emit_def abs_vm_def used_def start_state_def)

lemma abs_run_Some:
  "vm_wf vm \<Longrightarrow> av_run (vm_code vm) n (abs_vm vm) = Some r \<Longrightarrow>
    \<exists>m. vm_run n vm = Some m \<and> r = map_sum (map_prod id abs_vm) abs_vm m"
  using vm_run_refines_aux [of vm "vm_code vm" n] by auto

lemma halt_run:
  assumes "at V pos [] (s, out) a" "seg c pos [op_byte OP_HALT]"
  shows "\<exists>a'. av_run c 1 a = Some (Inr a') \<and> printed (av_out a') = out \<and>
    length (av_globals a') = 256 \<and> (\<forall>i < length V. av_globals a' ! i = s (V ! i))"
  using assms seg_Cons [OF assms(2)] by (auto simp: at_def step_defs)

lemma body_runs:
  assumes ok: "program_ok ss" and code: "seg code 0 (body_code [] 0 ss @ [op_byte OP_HALT])"
    and ex: "exec_body ss start_state r" and out: "vm_out vm0 = []"
  shows "\<exists>n m. vm_run n (vm_init vm0 (Some code)) = Some m \<and> vm_shows (program_vars ss) r m"
proof -
  let ?V = "program_vars ss" and ?vm = "vm_init vm0 (Some code)"
  let ?q = "length (body_code [] 0 ss)"
  have V: "wf_vars ?V" by (rule wf_program_vars [OF ok])
  have parts: "body_ok [] ss" "list_all limits_ok ss" "prefix (fold stmt_vars ss []) ?V" "?q < 256"
    using ok by (simp_all add: program_ok_def program_vars_def)
  have a0: "at ?V 0 [] start_state (abs_vm ?vm)" using out wf_vars_len [OF V] by (rule at_vm_init)
  have segs: "seg code 0 (body_code [] 0 ss)" "seg code ?q [op_byte OP_HALT]"
    using seg_append [OF code] by simp_all
  have sim: "reaches0 ?V code (abs_vm ?vm) ?q r"
    using body_simD [OF forward_simulation(2) [OF ex V] parts(1-3) segs(1) _ a0] parts(4) by simp
  have wf: "vm_wf ?vm" by (rule vm_wf_init)
  show ?thesis
  proof (cases r)
    case (Inl fo)
    obtain f out where fo: "fo = (f, out)" by (cases fo)
    with sim Inl obtain n a where "av_run code n (abs_vm ?vm) = Some (Inl (f, a))" "printed (av_out a) = out"
      by (auto simp: reaches0_def fails_def)
    moreover from this(1) obtain m where m: "vm_run n ?vm = Some m"
      "Inl (f, a) = map_sum (map_prod id abs_vm) abs_vm m"
      using abs_run_Some [OF wf] by auto
    moreover from m(2) obtain vm where "m = Inl (f, vm)" "a = abs_vm vm" by (cases m) auto
    ultimately show ?thesis using Inl fo
      by (intro exI [of _ n] exI [of _ m]) (simp add: vm_shows_def)
  next
    case (Inr st)
    obtain s out where st: "st = (s, out)" by (cases st)
    with sim Inr obtain n a where a: "goes code n (abs_vm ?vm) a" "at ?V ?q [] (s, out) a"
      by (auto simp: reaches0_Inr)
    from halt_run [OF a(2) segs(2)] obtain a' where a': "av_run code 1 a = Some (Inr a')"
      "printed (av_out a') = out" "length (av_globals a') = 256"
      "\<forall>i < length ?V. av_globals a' ! i = s (?V ! i)" by blast
    have "av_run code (n + 1) (abs_vm ?vm) = Some (Inr a')" using a(1) a'(1) unfolding goes_def by metis
    then obtain m where m: "vm_run (n + 1) ?vm = Some m" "Inr a' = map_sum (map_prod id abs_vm) abs_vm m"
      using abs_run_Some [OF wf, unfolded vm_code_init] by blast
    from m(2) obtain vm where vm: "m = Inr vm" "a' = abs_vm vm" by (cases m) auto
    have "map s ?V = take (length ?V) (vm_globals vm)"
      using a'(3,4) wf_vars_len [OF V] unfolding vm(2) by (intro nth_equalityI) auto
    then have "vm_shows ?V r m" using vm a'(2) Inr st by (simp add: vm_shows_def)
    with m(1) show ?thesis by blast
  qed
qed

lemma body_run_outcome:
  assumes ok: "program_ok ss" and code: "seg code 0 (body_code [] 0 ss @ [op_byte OP_HALT])"
    and out: "vm_out vm0 = []" and stop: "vm_run n (vm_init vm0 (Some code)) = Some m"
  shows "\<exists>r. exec_body ss start_state r"
proof -
  let ?V = "program_vars ss" and ?vm = "vm_init vm0 (Some code)"
  have V: "wf_vars ?V" by (rule wf_program_vars [OF ok])
  have a0: "at ?V 0 [] start_state (abs_vm ?vm)" using out wf_vars_len [OF V] by (rule at_vm_init)
  have "av_run code n (abs_vm ?vm) = Some (map_sum (map_prod id abs_vm) abs_vm m)"
    using vm_run_refines_aux [OF vm_wf_init [of vm0 code], of code n] stop by simp
  then have st: "stops code n (abs_vm ?vm)" by (auto simp: stops_def)
  have "body_halts ?V code n ss" by (rule body_halts_list [OF V halting_reflected [OF V]])
  with ok a0 st seg_append [OF code] show ?thesis
    by (intro body_haltsD [of ?V code n ss "[]" 0]) (auto simp: program_ok_def program_vars_def)
qed

lemma generate_byte_seg:
  assumes "program_ok ss" "length mem = 4096" "generate_byte mem ss = Inr code"
  shows "seg code 0 (body_code [] 0 ss @ [op_byte OP_HALT])"
  using assms generate_byte_code [of ss mem] by (auto simp: program_ok_def seg_def)

section \<open>The compiler's contract\<close>

text \<open>
  Property C1. Compile, then run: for a program that fits the machine, the generator succeeds on
  its array of 4096 bytes, and if the program has an outcome (final variables and printed numbers,
  or a fault after some printed numbers) then \<open>vm_run\<close> on the generated bytes ends, and shows it.
\<close>

theorem compile_correct:
  assumes "program_ok ss" "length mem = 4096" "vm_out vm0 = []" "exec_body ss start_state r"
  shows "\<exists>code n m. generate_byte mem ss = Inr code \<and>
    vm_run n (vm_init vm0 (Some code)) = Some m \<and> vm_shows (program_vars ss) r m"
proof -
  from assms(1,2) obtain code where code: "generate_byte mem ss = Inr code"
    using generate_byte_code [of ss mem] by (auto simp: program_ok_def)
  from body_runs [OF assms(1) generate_byte_seg [OF assms(1,2) code] assms(4,3)] code show ?thesis
    by blast
qed

text \<open>A countdown over a conditional, as the parser builds it.\<close>

definition sample_program :: "node list" where
  "sample_program =
     [NODE_ASSIGN (NODE_IDENT ''x'') (NODE_NUM 2),
      NODE_WHILE (NODE_GT (NODE_IDENT ''x'') (NODE_NUM 0))
        [NODE_PRINT (NODE_MUL (NODE_IDENT ''x'') (NODE_NUM 10)),
         NODE_ASSIGN (NODE_IDENT ''x'') (NODE_SUB (NODE_IDENT ''x'') (NODE_NUM 1))],
      NODE_IF (NODE_EQEQ (NODE_IDENT ''x'') (NODE_NUM 0)) [NODE_PRINT (NODE_NUM 7)]]"

lemma sample_ok: "program_ok sample_program"
  by (simp add: program_ok_def sample_program_def expr_limits_def declare_var_def Let_def)

lemma sample_outcome: "\<exists>s. exec_body sample_program start_state (Inr (s, [20, 10, 7]))"
proof -
  have "\<exists>s. interp 20 sample_program start_state = Some (Inr (s, [20, 10, 7]))"
    by (simp add: sample_program_def start_state_def eval_nat_numeral c_int_def in_int_def)
  then show ?thesis by (blast intro: interp_sound)
qed

theorem compile_correct_witness:
  "\<exists>code n vm. generate_byte (replicate 4096 0) sample_program = Inr code \<and>
    vm_run n (vm_init blank_vm (Some code)) = Some (Inr vm) \<and> printed (vm_out vm) = [20, 10, 7]"
proof -
  obtain s where "exec_body sample_program start_state (Inr (s, [20, 10, 7]))"
    using sample_outcome by blast
  from compile_correct [OF sample_ok _ _ this, of "replicate 4096 0" blank_vm] show ?thesis
    by (fastforce simp: blank_vm_def vm_shows_def split: sum.splits prod.splits)
qed

text \<open>
  Property C2. Nothing else can come out: whenever a run of the generated bytes ends (normally or
  by a fault of the machine), the program has an outcome and the run shows it. In particular the
  machine raises no fault of its own (no stack fault, unknown opcode or stray jump), and a program
  that runs for ever is compiled to code that runs for ever.
\<close>

theorem compiled_run_sound:
  assumes "program_ok ss" "length mem = 4096" "vm_out vm0 = []"
    and "generate_byte mem ss = Inr code" "vm_run n (vm_init vm0 (Some code)) = Some m"
  shows "\<exists>r. exec_body ss start_state r \<and> vm_shows (program_vars ss) r m"
proof -
  note code = generate_byte_seg [OF assms(1,2,4)]
  obtain r where r: "exec_body ss start_state r"
    using body_run_outcome [OF assms(1) code assms(3,5)] by blast
  from body_runs [OF assms(1) code r assms(3)] obtain k m' where
    k: "vm_run k (vm_init vm0 (Some code)) = Some m'" "vm_shows (program_vars ss) r m'" by blast
  have "m' = m"
    using vm_run_mono [OF assms(5), of "max n k"] vm_run_mono [OF k(1), of "max n k"] by simp
  with r k(2) show ?thesis by blast
qed

text \<open>A program that divides by zero.\<close>

definition faulty_program :: "node list" where
  "faulty_program = [NODE_PRINT (NODE_NUM 5), NODE_PRINT (NODE_DIV (NODE_NUM 1) (NODE_NUM 0))]"

definition faulty_code :: "u8 list" where
  "faulty_code = [1, 5, 7, 1, 1, 1, 0, 6, 7, 0xFF] @ replicate 4086 0"

lemma faulty_generated: "generate_byte (replicate 4096 0) faulty_program = Inr faulty_code"
  using generate_byte_code [of faulty_program "replicate 4096 0"]
  by (simp add: faulty_program_def faulty_code_def Let_def op_byte.simps)

theorem compiled_run_sound_witness:
  "\<exists>n m r. vm_run n (vm_init blank_vm (Some faulty_code)) = Some m \<and>
    exec_body faulty_program start_state r \<and> vm_shows (program_vars faulty_program) r m"
proof -
  have ok: "program_ok faulty_program"
    by (simp add: program_ok_def faulty_program_def expr_limits_def Let_def)
  have "interp 20 faulty_program start_state = Some (Inl (Exit Division_By_Zero, [5]))"
    by (simp add: faulty_program_def start_state_def eval_nat_numeral)
  then have ex: "exec_body faulty_program start_state (Inl (Exit Division_By_Zero, [5]))"
    by (rule interp_sound)
  have out: "vm_out blank_vm = []" by (simp add: blank_vm_def)
  obtain n m where run: "vm_run n (vm_init blank_vm (Some faulty_code)) = Some m"
    using body_runs [OF ok generate_byte_seg [OF ok _ faulty_generated] ex out] by auto
  from compiled_run_sound [OF ok _ out faulty_generated run] run show ?thesis by auto
qed

end
