(* ===== verification/Listing.thy ===== *)
theory Listing
  imports Lexer Decimal
begin

text \<open>
  \<open>print_tokens\<close> of \<^verbatim>\<open>bytecode-vm/compiler.c\<close>: the text \<open>main\<close> prints before it parses.
\<close>

text \<open>\<open>%d\<close>\<close>

definition printf_d :: "int \<Rightarrow> string" where
  "printf_d v = (if v < 0 then CHR ''-'' # dec (nat (- v)) else dec (nat v))"

definition token_text :: "Token \<Rightarrow> string" where
  "token_text t =
     (case tok_type t of
        TOK_NUM \<Rightarrow> ''NUM('' @ printf_d (tok_value t) @ '') ''
      | TOK_IDENT \<Rightarrow> ''IDENT('' @ tok_name t @ '') ''
      | TOK_PLUS \<Rightarrow> ''PLUS ''
      | TOK_MINUS \<Rightarrow> ''MINUS ''
      | TOK_STAR \<Rightarrow> ''STAR ''
      | TOK_SLASH \<Rightarrow> ''SLASH ''
      | TOK_EQ \<Rightarrow> ''EQ ''
      | TOK_GT \<Rightarrow> ''GT ''
      | TOK_LT \<Rightarrow> ''LT ''
      | TOK_PRINT \<Rightarrow> ''PRINT ''
      | TOK_WHILE \<Rightarrow> ''WHILE ''
      | TOK_IF \<Rightarrow> ''IF ''
      | TOK_LBRACE \<Rightarrow> ''LBRACE ''
      | TOK_RBRACE \<Rightarrow> ''RBRACE ''
      | TOK_LPAREN \<Rightarrow> ''LPAREN ''
      | TOK_RPAREN \<Rightarrow> ''RPAREN ''
      | TOK_EQEQ \<Rightarrow> ''EQEQ ''
      | TOK_EOF \<Rightarrow> ''EOF'')"

text \<open>What is printed; the loop runs up to and including \<open>count\<close>.\<close>

definition print_tokens :: "Token list \<Rightarrow> nat \<Rightarrow> string result" where
  "print_tokens tokens count =
     andthen (each (\<lambda>i out. andthen (arr_get tokens (int i)) (\<lambda>t. Inr (out @ token_text t))) [0..<Suc count] [])
       (\<lambda>out. Inr (out @ ''\<newline>''))"

lemma print_tokens_spec:
  assumes "length tokens = Suc count"
  shows "print_tokens tokens count = Inr (concat (map token_text tokens) @ ''\<newline>'')"
proof -
  let ?f = "\<lambda>i out. andthen (arr_get tokens (int i)) (\<lambda>t. Inr (out @ token_text t))"
  have "each ?f [0..<n] [] = Inr (concat (map token_text (take n tokens)))" if "n \<le> length tokens" for n
    using that
  proof (induction n)
    case (Suc n)
    then show ?case by (simp add: each_append take_Suc_conv_app_nth)
  qed simp
  from this [of "Suc count"] assms show ?thesis by (simp add: print_tokens_def del: upt_Suc)
qed

end
