(* ===== verification/Language.thy ===== *)
theory Language
  imports Lexer_Facts Compile_Correct Listing
begin

text \<open>
  The language as a whole: from source text through the lexer, the parser, the code generator and
  the machine (\<^verbatim>\<open>compiler.c\<close>, \<open>main\<close>, then \<^verbatim>\<open>vm.c\<close>), with the places
  where the front end and the generator depart from what they announce.
\<close>

section \<open>Reading printed programs\<close>

text \<open>The text of a program: its tokens, one blank after each.\<close>

definition source_text :: "node list \<Rightarrow> string" where
  "source_text ss = unlex (concat (map unparse_stmt ss))"

definition printable :: "node list \<Rightarrow> bool" where
  "printable ss \<longleftrightarrow> ss \<noteq> [] \<and> list_all is_stmt ss \<and> list_all lexable (concat (map unparse_stmt ss))"

lemma unparse_stmt_nonempty: "is_stmt s \<Longrightarrow> unparse_stmt s \<noteq> []"
  by (cases s rule: is_stmt.cases) auto

lemma read_source_text:
  assumes "printable ss"
  shows "\<exists>ts n. lexer t0 e0 (source_text ss) = Inr (ts, n) \<and> parser ts = Inr ss"
proof -
  have "concat (map unparse_stmt ss) \<noteq> []"
    using assms unparse_stmt_nonempty by (cases ss) (auto simp: printable_def)
  with lexer_unlex_aux [of "concat (map unparse_stmt ss)" t0 e0] assms obtain ts where
    ts: "lexer t0 e0 (source_text ss) = Inr (ts, length (concat (map unparse_stmt ss)))"
    "map tok_view ts = concat (map unparse_stmt ss) @ [V_SYM TOK_EOF]"
    by (auto simp: printable_def source_text_def)
  have "parser ts = Inr ss" by (rule parser_unparse_aux [OF _ ts(2)]) (use assms in \<open>simp add: printable_def\<close>)
  with ts(1) show ?thesis by blast
qed

text \<open>
  Property C3. From text to behaviour: the text of a printable program that fits the machine is
  accepted by the lexer, the parser and the generator, and the machine \<open>main\<close> builds from it
  runs to an end that shows the program's outcome.
\<close>

theorem source_to_run:
  assumes "printable ss" "program_ok ss" "length mem = 4096" "vm_out vm0 = []"
    and "exec_body ss start_state r"
  shows "\<exists>vm n m. main_load t0 e0 mem vm0 (source_text ss) = Inr vm \<and> vm_run n vm = Some m \<and>
    vm_shows (program_vars ss) r m"
proof -
  obtain ts k where ts: "lexer t0 e0 (source_text ss) = Inr (ts, k)" "parser ts = Inr ss"
    using read_source_text [OF assms(1)] by blast
  obtain code where code: "generate_byte mem ss = Inr code"
    using generate_byte_code [of ss mem] assms(2,3) by (auto simp: program_ok_def)
  from body_runs [OF assms(2) generate_byte_seg [OF assms(2,3) code] assms(5,4)] ts code
  show ?thesis by (auto simp: main_load_def)
qed

definition blank_token :: Token where
  "blank_token = \<lparr>tok_type = TOK_EOF, tok_value = 0, tok_name = []\<rparr>"

definition tiny_program :: "node list" where
  "tiny_program = [NODE_ASSIGN (NODE_IDENT ''n'') (NODE_NUM 6),
     NODE_PRINT (NODE_MUL (NODE_IDENT ''n'') (NODE_NUM 7))]"

lemma tiny_printable: "printable tiny_program"
  by (simp add: printable_def tiny_program_def in_int_def ctype_defs)

theorem source_to_run_witness:
  "\<exists>vm n m s. main_load blank_token blank_token (replicate 4096 0) blank_vm (source_text tiny_program) = Inr vm \<and>
    vm_run n vm = Some m \<and> vm_shows [''n''] (Inr (s, [42])) m"
proof -
  have ok: "program_ok tiny_program"
    by (simp add: program_ok_def tiny_program_def expr_limits_def declare_var_def Let_def)
  have "\<exists>s. interp 20 tiny_program start_state = Some (Inr (s, [42]))"
    by (simp add: tiny_program_def start_state_def eval_nat_numeral c_int_def in_int_def)
  then obtain s where ex: "exec_body tiny_program start_state (Inr (s, [42]))" by (blast intro: interp_sound)
  have "program_vars tiny_program = [''n'']"
    by (simp add: program_vars_def tiny_program_def declare_var_def)
  with source_to_run [OF tiny_printable ok _ _ ex, of "replicate 4096 0" blank_vm blank_token blank_token]
  show ?thesis by (auto simp: blank_vm_def)
qed

text \<open>
  Property C4. The front end inverts the printer: reading the text of any printable program (every
  operation in parentheses) gives exactly the program.
\<close>

theorem front_end_roundtrip:
  assumes "printable ss"
  shows "andthen (lexer t0 e0 (source_text ss)) (\<lambda>(ts, n). parser ts) = Inr ss"
  using read_source_text [OF assms, of t0 e0] by auto

theorem front_end_roundtrip_witness:
  "andthen (lexer blank_token blank_token (source_text tiny_program)) (\<lambda>(ts, n). parser ts) = Inr tiny_program"
  by (rule front_end_roundtrip [OF tiny_printable])

section \<open>The lexer and the parser on any input\<close>

lemma word_token_type: "tok_type (word_token w t) \<noteq> TOK_EOF"
  by (simp add: word_token_def)

lemma lex_symbol_type: "lex_symbol c cs = Inr (ty, rest) \<Longrightarrow> ty \<noteq> TOK_EOF"
  by (auto simp: lex_symbol_def split: if_splits list.splits)

lemma lex_loop_no_eof:
  "lex_loop cap cs t ts = Inr us \<Longrightarrow> \<forall>u \<in> set ts. tok_type u \<noteq> TOK_EOF \<Longrightarrow>
    \<forall>u \<in> set us. tok_type u \<noteq> TOK_EOF"
proof (induction cap cs t ts rule: lex_loop.induct)
  case (2 cap c cs t ts)
  show ?case
  proof (cases "c_isalpha c")
    case True
    with "2.prems" obtain w rest where *: "lex_word [c] cs = Inr (w, rest)"
      "length ts < cap" "lex_loop cap rest (word_token w t) (ts @ [word_token w t]) = Inr us"
      by (auto simp: andthen_Inr_iff put_token_def split: if_splits)
    show ?thesis
      by (rule "2.IH"(1) [OF True *(1) refl _ *(3)]) (use * "2.prems" word_token_type in \<open>auto simp: put_token_def\<close>)
  next
    case alpha: False
    show ?thesis
    proof (cases "c_isdigit c")
      case True
      with alpha "2.prems" obtain ds rest v where *: "lex_num [] (c # cs) = Inr (ds, rest)"
        "c_atoi ds = Inr v" "length ts < cap"
        "lex_loop cap rest (t\<lparr>tok_type := TOK_NUM, tok_value := v\<rparr>) (ts @ [t\<lparr>tok_type := TOK_NUM, tok_value := v\<rparr>]) = Inr us"
        by (auto simp: andthen_Inr_iff put_token_def simp del: lex_num.simps split: if_splits)
      show ?thesis
        by (rule "2.IH"(2) [OF alpha True *(1) refl *(2) _ *(4)]) (use * "2.prems" in \<open>auto simp: put_token_def\<close>)
    next
      case digit: False
      show ?thesis
      proof (cases "c_isspace c")
        case True
        with alpha digit "2.prems" "2.IH"(3) show ?thesis by simp
      next
        case False
        with alpha digit "2.prems" obtain ty rest where *: "lex_symbol c cs = Inr (ty, rest)"
          "length ts < cap" "lex_loop cap rest (t\<lparr>tok_type := ty\<rparr>) (ts @ [t\<lparr>tok_type := ty\<rparr>]) = Inr us"
          by (auto simp: andthen_Inr_iff put_token_def split: if_splits)
        show ?thesis
          by (rule "2.IH"(4) [OF alpha digit False *(1) refl _ *(3)])
            (use * "2.prems" lex_symbol_type in \<open>auto simp: put_token_def\<close>)
      qed
    qed
  qed
qed simp

text \<open>
  Property C5. The lexer's result array: when \<open>lexer\<close> stays inside its block of
  \<open>strlen(source)\<close> tokens, the count is smaller than \<open>strlen(source)\<close> and the array holds the
  counted tokens, none of them an end marker, followed by exactly one end marker. A text in which
  every character is a token of its own leaves no room for the marker, so it never has a result.
  \<open>print_tokens\<close>, whose loop runs past the counted tokens, reads exactly up to the end marker.
\<close>

theorem lexer_result:
  assumes "lexer t0 e0 source = Inr (tokens, count)"
  shows "count < length source \<and> length tokens = count + 1 \<and>
    tok_type (tokens ! count) = TOK_EOF \<and> (\<forall>i < count. tok_type (tokens ! i) \<noteq> TOK_EOF) \<and>
    print_tokens tokens count = Inr (concat (map token_text (take count tokens)) @ ''EOF\<newline>'')"
proof -
  from assms obtain ts where ts: "lex_loop (length source) source t0 [] = Inr ts" "length ts < length source"
    "tokens = ts @ [e0\<lparr>tok_type := TOK_EOF\<rparr>]" "count = length ts" by (auto simp: lexer_Inr)
  with lex_loop_no_eof [OF ts(1)] print_tokens_spec [of tokens count] show ?thesis
    by (simp add: nth_append token_text_def)
qed

text \<open>The text "a = 5" has three tokens in five characters.\<close>

theorem lexer_result_witness:
  "\<exists>tokens count. lexer blank_token blank_token ''a = 5'' = Inr (tokens, count) \<and> count < 5 \<and>
    length tokens = count + 1 \<and> tok_type (tokens ! count) = TOK_EOF"
proof -
  have "\<exists>tokens. lexer blank_token blank_token ''a = 5'' = Inr (tokens, 3)"
    by (simp add: lexer_def put_token_def word_token_def lex_symbol_def ctype_defs c_atoi_def
        digits_val_def digit_val_def c_int_def in_int_def)
  then obtain tokens where "lexer blank_token blank_token ''a = 5'' = Inr (tokens, 3)" by blast
  with lexer_result [OF this] show ?thesis by auto
qed

text \<open>
  Property C6. The parser always comes back: on every token array the recursive descent ends within
  the fuel \<open>parser_fuel\<close>, with the statements or with the first undefined behaviour it meets (a
  read past the array, a fall off the end of \<open>parse_statement\<close>, a body of more than 128
  statements); more fuel changes nothing.
\<close>

theorem parser_total:
  "parser ts \<noteq> Inl Out_Of_Fuel \<and> parser_loop (parser_fuel (length ts) + k) ts 0 128 [] = parser ts"
  using parser_fueled [of ts] parser_loop_mono [of "parser_fuel (length ts)" ts 0 128 "[]"
      "parser_fuel (length ts) + k"]
  by (simp add: parser_def fueled_def)

text \<open>
  Operator precedence as coded: in \<open>a * b + c\<close> the addition is the right operand of
  the multiplication, because \<open>parse_term\<close> reads its right operand with \<open>parse_expression\<close>;
  the grammar of the comment says the opposite.
\<close>

theorem mul_takes_the_sum:
  assumes "map tok_view ts = [V_SYM TOK_PRINT, V_NUM a, V_SYM TOK_STAR, V_NUM b, V_SYM TOK_PLUS, V_NUM c, V_SYM TOK_EOF]"
  shows "parser ts = Inr [NODE_PRINT (NODE_MUL (NODE_NUM a) (NODE_ADD (NODE_NUM b) (NODE_NUM c)))]"
proof -
  obtain t0 t1 t2 t3 t4 t5 t6 where ts: "ts = [t0, t1, t2, t3, t4, t5, t6]"
    using assms by (auto simp: map_eq_Cons_conv)
  have t: "tok_type t0 = TOK_PRINT" "tok_type t1 = TOK_NUM" "tok_value t1 = a" "tok_type t2 = TOK_STAR"
    "tok_type t3 = TOK_NUM" "tok_value t3 = b" "tok_type t4 = TOK_PLUS" "tok_type t5 = TOK_NUM"
    "tok_value t5 = c" "tok_type t6 = TOK_EOF"
    using assms view_NUM view_SYM by (auto simp: ts)
  have "parser_loop 14 ts 0 128 [] =
      Inr [NODE_PRINT (NODE_MUL (NODE_NUM a) (NODE_ADD (NODE_NUM b) (NODE_NUM c)))]"
    by (simp add: ts tok_at_def arr_get_def eval_nat_numeral t Let_def)
  then show ?thesis by (intro parser_eqI) simp_all
qed

theorem mul_takes_the_sum_witness:
  "\<exists>ts. parser ts = Inr [NODE_PRINT (NODE_MUL (NODE_NUM 2) (NODE_ADD (NODE_NUM 3) (NODE_NUM 4)))] \<and>
    length ts = 7"
proof -
  let ?t = "\<lambda>ty v. \<lparr>tok_type = ty, tok_value = v, tok_name = []\<rparr>"
  let ?ts = "[?t TOK_PRINT 0, ?t TOK_NUM 2, ?t TOK_STAR 0, ?t TOK_NUM 3, ?t TOK_PLUS 0, ?t TOK_NUM 4, ?t TOK_EOF 0]"
  have "parser ?ts = Inr [NODE_PRINT (NODE_MUL (NODE_NUM 2) (NODE_ADD (NODE_NUM 3) (NODE_NUM 4)))]"
    by (rule mul_takes_the_sum) (simp add: tok_view_def)
  then show ?thesis by (intro exI [of _ ?ts]) simp
qed

section \<open>Departures of the generator\<close>

text \<open>Running the machine on generated bytes, by steps of the abstract machine.\<close>

lemma vm_run_by_abs:
  assumes "vm_out vm0 = []" "av_run code n
      \<lparr>av_ip = 0, av_stack = [], av_cstack = [], av_globals = replicate 256 0, av_running = True, av_out = [Init_Done]\<rparr> =
      Some (Inr a)"
  shows "\<exists>vm. vm_run n (vm_init vm0 (Some code)) = Some (Inr vm) \<and> vm_out vm = av_out a"
proof -
  have "abs_vm (vm_init vm0 (Some code)) = \<lparr>av_ip = 0, av_stack = [], av_cstack = [],
      av_globals = replicate 256 0, av_running = True, av_out = [Init_Done]\<rparr>"
    using assms(1) by (simp add: vm_init_def vm_emit_def abs_vm_def used_def)
  with assms(2) abs_run_Some [OF vm_wf_init, of vm0 code n "Inr a"] obtain m where
    "vm_run n (vm_init vm0 (Some code)) = Some m" "Inr a = map_sum (map_prod id abs_vm) abs_vm m"
    by auto
  then show ?thesis by (cases m) auto
qed

text \<open>
  A constant is truncated to the operand byte: the compiled program \<open>print n\<close> prints
  \<open>n mod 256\<close>, for every \<open>n\<close>, while the program means \<open>n\<close>.
\<close>

theorem constants_truncated:
  assumes "length mem = 4096" "vm_out vm0 = []"
  shows "\<exists>code vm. generate_byte mem [NODE_PRINT (NODE_NUM n)] = Inr code \<and>
    vm_run 3 (vm_init vm0 (Some code)) = Some (Inr vm) \<and> printed (vm_out vm) = [n mod 256]"
proof -
  let ?code = "[op_byte OP_PUSH, word_of_int n, op_byte OP_PRINT, op_byte OP_HALT] @ drop (Suc (Suc (Suc (Suc 0)))) mem"
  have gen: "generate_byte mem [NODE_PRINT (NODE_NUM n)] = Inr ?code"
    using generate_byte_code [of "[NODE_PRINT (NODE_NUM n)]" mem] assms(1) by (simp add: Let_def)
  have "uint (word_of_int n :: u8) = n mod 256" by (simp add: uint_word_of_int)
  then obtain a where "av_run ?code 3 \<lparr>av_ip = 0, av_stack = [], av_cstack = [], av_globals = replicate 256 0,
      av_running = True, av_out = [Init_Done]\<rparr> = Some (Inr a)" "printed (av_out a) = [n mod 256]"
    by (simp add: eval_nat_numeral step_defs)
  with gen vm_run_by_abs [OF assms(2)] show ?thesis by metis
qed

theorem constants_truncated_witness:
  "\<exists>code vm. generate_byte (replicate 4096 0) [NODE_PRINT (NODE_NUM 300)] = Inr code \<and>
    vm_run 3 (vm_init blank_vm (Some code)) = Some (Inr vm) \<and> printed (vm_out vm) = [44]"
  using constants_truncated [of "replicate 4096 0" blank_vm 300] by (simp add: blank_vm_def)

text \<open>
  A name that is never assigned: \<open>walk\<close> emits \<open>OP_LOAD\<close> without its operand, so in
  \<open>print y\<close> the machine takes the \<open>OP_PRINT\<close> byte as the operand. The program runs to its end and
  prints nothing.
\<close>

theorem undefined_name_swallows:
  assumes "length mem = 4096" "vm_out vm0 = []" "y \<noteq> []"
  shows "\<exists>code vm. generate_byte mem [NODE_PRINT (NODE_IDENT y)] = Inr code \<and>
    take 3 code = [op_byte OP_LOAD, op_byte OP_PRINT, op_byte OP_HALT] \<and>
    vm_run 2 (vm_init vm0 (Some code)) = Some (Inr vm) \<and> printed (vm_out vm) = []"
proof -
  let ?code = "[op_byte OP_LOAD, op_byte OP_PRINT, op_byte OP_HALT] @ drop 3 mem"
  let ?g = "gen_start mem"
  have none: "find_var (gen_vars ?g) y = None"
    using find_var_padding [OF assms(3)] by (simp add: gen_start_def)
  have room: "room ?g 1" "room (put_code [op_byte OP_LOAD] ?g) 1"
    using assms(1) by (simp_all add: room_def gen_start_def put_code_def)
  have "walk_body [NODE_PRINT (NODE_IDENT y)] ?g = Inr (put_code [op_byte OP_LOAD, op_byte OP_PRINT] ?g)"
    using none room assms(1) by (simp add: emit_byte_put put_code_append room_def gen_start_def)
  moreover have "drop (Suc (Suc 0)) mem = mem ! 2 # drop 3 mem"
    using Cons_nth_drop_Suc [of 2 mem] assms(1) by (simp add: numeral_2_eq_2 numeral_3_eq_3)
  ultimately have gen: "generate_byte mem [NODE_PRINT (NODE_IDENT y)] = Inr ?code"
    using assms(1) by (simp add: generate_byte_def generate_def put_code_def gen_start_def arr_set_def)
  have "uint (op_byte OP_PRINT) = 7" by (simp add: op_byte.simps)
  then obtain a where "av_run ?code 2 \<lparr>av_ip = 0, av_stack = [], av_cstack = [], av_globals = replicate 256 0,
      av_running = True, av_out = [Init_Done]\<rparr> = Some (Inr a)" "printed (av_out a) = []"
    by (simp add: eval_nat_numeral step_defs)
  with gen vm_run_by_abs [OF assms(2)] show ?thesis by fastforce
qed

theorem undefined_name_swallows_witness:
  "\<exists>code vm. generate_byte (replicate 4096 0) [NODE_PRINT (NODE_IDENT ''y'')] = Inr code \<and>
    vm_run 2 (vm_init blank_vm (Some code)) = Some (Inr vm) \<and> printed (vm_out vm) = []"
  using undefined_name_swallows [of "replicate 4096 0" blank_vm "''y''"] by (auto simp: blank_vm_def)

section \<open>The program of \<open>main\<close>\<close>

definition main_program :: "node list" where
  "main_program =
     [NODE_ASSIGN (NODE_IDENT ''x'') (NODE_NUM 3),
      NODE_WHILE (NODE_GT (NODE_IDENT ''x'') (NODE_NUM 0))
        [NODE_PRINT (NODE_IDENT ''x''),
         NODE_ASSIGN (NODE_IDENT ''x'') (NODE_SUB (NODE_IDENT ''x'') (NODE_NUM 1))]]"

lemma main_source_tokens:
  "\<exists>ts. lexer t0 e0 main_source = Inr (ts, 16) \<and> map tok_view ts =
     [V_IDENT ''x'', V_SYM TOK_EQ, V_NUM 3, V_SYM TOK_WHILE, V_IDENT ''x'', V_SYM TOK_GT, V_NUM 0,
      V_SYM TOK_LBRACE, V_SYM TOK_PRINT, V_IDENT ''x'', V_IDENT ''x'', V_SYM TOK_EQ, V_IDENT ''x'',
      V_SYM TOK_MINUS, V_NUM 1, V_SYM TOK_RBRACE, V_SYM TOK_EOF]"
  by (simp add: main_source_def lexer_def put_token_def word_token_def lex_symbol_def ctype_defs c_atoi_def
        digits_val_def digit_val_def c_int_def in_int_def tok_view_def)

lemma main_program_parsed:
  assumes "map tok_view ts =
     [V_IDENT ''x'', V_SYM TOK_EQ, V_NUM 3, V_SYM TOK_WHILE, V_IDENT ''x'', V_SYM TOK_GT, V_NUM 0,
      V_SYM TOK_LBRACE, V_SYM TOK_PRINT, V_IDENT ''x'', V_IDENT ''x'', V_SYM TOK_EQ, V_IDENT ''x'',
      V_SYM TOK_MINUS, V_NUM 1, V_SYM TOK_RBRACE, V_SYM TOK_EOF]"
  shows "parser ts = Inr main_program"
proof -
  obtain t0 t1 t2 t3 t4 t5 t6 t7 t8 t9 ta tb tc td te tf tg where
    ts: "ts = [t0, t1, t2, t3, t4, t5, t6, t7, t8, t9, ta, tb, tc, td, te, tf, tg]"
    using assms by (auto simp: map_eq_Cons_conv)
  have t: "tok_type t0 = TOK_IDENT \<and> tok_name t0 = ''x''" "tok_type t1 = TOK_EQ"
    "tok_type t2 = TOK_NUM \<and> tok_value t2 = 3" "tok_type t3 = TOK_WHILE"
    "tok_type t4 = TOK_IDENT \<and> tok_name t4 = ''x''" "tok_type t5 = TOK_GT"
    "tok_type t6 = TOK_NUM \<and> tok_value t6 = 0" "tok_type t7 = TOK_LBRACE" "tok_type t8 = TOK_PRINT"
    "tok_type t9 = TOK_IDENT \<and> tok_name t9 = ''x''" "tok_type ta = TOK_IDENT \<and> tok_name ta = ''x''"
    "tok_type tb = TOK_EQ" "tok_type tc = TOK_IDENT \<and> tok_name tc = ''x''" "tok_type td = TOK_MINUS"
    "tok_type te = TOK_NUM \<and> tok_value te = 1" "tok_type tf = TOK_RBRACE" "tok_type tg = TOK_EOF"
    using assms view_NUM view_SYM view_IDENT by (auto simp: ts)
  have "parser_loop 20 ts 0 128 [] = Inr main_program"
    by (simp add: ts tok_at_def arr_get_def eval_nat_numeral t Let_def main_program_def)
  then show ?thesis by (intro parser_eqI) simp_all
qed

text \<open>
  \<open>main\<close> itself: its source text is accepted, and the machine built from it runs to a
  normal end and prints 3, 2, 1.
\<close>

theorem main_prints_countdown:
  assumes "length mem = 4096" "vm_out vm0 = []"
  shows "\<exists>vm n vm'. main_load t0 e0 mem vm0 main_source = Inr vm \<and>
    vm_run n vm = Some (Inr vm') \<and> printed (vm_out vm') = [3, 2, 1]"
proof -
  obtain ts where ts: "lexer t0 e0 main_source = Inr (ts, 16)" "parser ts = Inr main_program"
    using main_source_tokens [of t0 e0] main_program_parsed by metis
  have ok: "program_ok main_program"
    by (simp add: program_ok_def main_program_def expr_limits_def declare_var_def Let_def)
  obtain code where code: "generate_byte mem main_program = Inr code"
    using generate_byte_code [of main_program mem] ok assms(1) by (auto simp: program_ok_def)
  have "\<exists>s. interp 20 main_program start_state = Some (Inr (s, [3, 2, 1]))"
    by (simp add: main_program_def start_state_def eval_nat_numeral c_int_def in_int_def)
  then obtain s where ex: "exec_body main_program start_state (Inr (s, [3, 2, 1]))"
    by (blast intro: interp_sound)
  obtain n m where "vm_run n (vm_init vm0 (Some code)) = Some m"
    "vm_shows (program_vars main_program) (Inr (s, [3, 2, 1])) m"
    using body_runs [OF ok generate_byte_seg [OF ok assms(1) code] ex assms(2)] by blast
  with ts code show ?thesis by (cases m) (auto simp: main_load_def vm_shows_def)
qed

theorem main_prints_countdown_witness:
  "\<exists>vm n vm'. main_load blank_token blank_token (replicate 4096 0) blank_vm main_source = Inr vm \<and>
    vm_run n vm = Some (Inr vm') \<and> printed (vm_out vm') = [3, 2, 1]"
  by (rule main_prints_countdown) (simp_all add: blank_vm_def)

end
