(* ===== verification/Pmm.thy ===== *)
theory Pmm
  imports Prelude
begin

text \<open>
  The physical frame allocator of \<^verbatim>\<open>pelikanOS/src/pmm.c\<close>: a bitmap of 4096 bytes, one bit per
  4 KB frame of the first 128 MB, 1 for used. The abstract view of a bitmap is its set of free
  frames; every operation is specified on that set. The \<open>frame_allocator\<close> interface is what the
  heap, the page tables and the scheduler need of it.
\<close>

section \<open>The bitmap\<close>

definition MAX_FRAMES :: nat where
  "MAX_FRAMES = 32768"

definition NO_FRAME :: u32 where
  "NO_FRAME = 0xFFFFFFFF"

text \<open>\<open>bitmap[f / 8] & (1 << (f % 8))\<close>, \<open>|=\<close> and \<open>&= ~\<close>, with the access checked.\<close>

definition frame_used :: "u8 list \<Rightarrow> nat \<Rightarrow> bool result" where
  "frame_used bitmap f = andthen (arr_get bitmap (int (f div 8)))
     (\<lambda>b. Inr (b AND push_bit (f mod 8) 1 \<noteq> 0))"

definition mark_used :: "nat \<Rightarrow> u8 list \<Rightarrow> u8 list result" where
  "mark_used f bitmap = andthen (arr_get bitmap (int (f div 8)))
     (\<lambda>b. arr_set bitmap (int (f div 8)) (b OR push_bit (f mod 8) 1))"

definition mark_free :: "nat \<Rightarrow> u8 list \<Rightarrow> u8 list result" where
  "mark_free f bitmap = andthen (arr_get bitmap (int (f div 8)))
     (\<lambda>b. arr_set bitmap (int (f div 8)) (b AND NOT (push_bit (f mod 8) 1)))"

section \<open>The operations\<close>

text \<open>\<open>pmm_alloc_frame\<close>: the loop over \<open>frame\<close>, then the whole function.\<close>

function alloc_loop :: "nat \<Rightarrow> u8 list \<Rightarrow> (u32 \<times> u8 list) result" where
  "alloc_loop frame bitmap =
     (if frame < MAX_FRAMES then
        andthen (frame_used bitmap frame) (\<lambda>used.
          if \<not> used then
            andthen (mark_used frame bitmap) (\<lambda>bitmap. Inr (of_nat frame * 4096, bitmap))
          else alloc_loop (frame + 1) bitmap)
      else Inr (NO_FRAME, bitmap))"
  by pat_completeness auto
termination by (relation "measure (\<lambda>(frame, bitmap). MAX_FRAMES - frame)") auto

declare alloc_loop.simps [simp del]

definition pmm_alloc_frame :: "u8 list \<Rightarrow> (u32 \<times> u8 list) result" where
  "pmm_alloc_frame bitmap = alloc_loop 0 bitmap"

definition pmm_free_frame :: "u32 \<Rightarrow> u8 list \<Rightarrow> u8 list result" where
  "pmm_free_frame frame_addr bitmap = mark_free (unat (frame_addr div 4096)) bitmap"

text \<open>
  \<open>pmm_alloc_contiguous\<close>: the sliding window over \<open>start\<close> and \<open>end\<close>, then the marking loop. The
  comparison \<open>(end - start + 1) == n\<close> converts the \<open>int n\<close> to \<open>uint32_t\<close>.
\<close>

function window_loop :: "int \<Rightarrow> nat \<Rightarrow> nat \<Rightarrow> u8 list \<Rightarrow> (nat \<times> nat) option result" where
  "window_loop n start end bitmap =
     (if end < MAX_FRAMES then
        andthen (frame_used bitmap end) (\<lambda>used.
          if \<not> used then
            (if (of_nat end - of_nat start + 1 :: u32) = of_int n then Inr (Some (start, end))
             else window_loop n start (end + 1) bitmap)
          else window_loop n (end + 1) (end + 1) bitmap)
      else Inr None)"
  by pat_completeness auto
termination by (relation "measure (\<lambda>(n, start, end, bitmap). MAX_FRAMES - end)") auto

declare window_loop.simps [simp del]

definition pmm_alloc_contiguous :: "int \<Rightarrow> u8 list \<Rightarrow> (u32 \<times> u8 list) result" where
  "pmm_alloc_contiguous n bitmap =
     andthen (window_loop n 0 0 bitmap) (\<lambda>found. case found of
       None \<Rightarrow> Inr (NO_FRAME, bitmap)
     | Some (start, end) \<Rightarrow>
         andthen (each mark_used [start..<Suc end] bitmap) (\<lambda>bitmap.
           Inr (of_nat start * 4096, bitmap)))"

definition pmm_free_count :: "u8 list \<Rightarrow> u32 result" where
  "pmm_free_count bitmap =
     each (\<lambda>f free. andthen (frame_used bitmap f) (\<lambda>used. Inr (if \<not> used then free + 1 else free)))
       [0..<MAX_FRAMES] 0"

section \<open>Initialisation from the boot loader's memory map\<close>

record multiboot_mmap_entry =
  me_size :: u32
  me_addr :: u64
  me_len :: u64
  me_type :: u32

text \<open>
  The walk over the map: \<open>entry\<close> gives the entry that stands at an address of physical memory,
  which the boot loader filled. An entry can be laid out so that \<open>current\<close> wraps around and the
  walk never ends, so it takes fuel.
\<close>

definition free_region :: "multiboot_mmap_entry \<Rightarrow> u8 list \<Rightarrow> u8 list result" where
  "free_region e bitmap =
     (let start_frame = unat (ucast (me_addr e div 4096) :: u32);
          end_frame = unat (ucast ((me_addr e + me_len e) div 4096) :: u32)
      in each mark_free [start_frame..<end_frame] bitmap)"

fun mmap_loop :: "nat \<Rightarrow> (u32 \<Rightarrow> multiboot_mmap_entry) \<Rightarrow> u32 \<Rightarrow> u32 \<Rightarrow> u8 list \<Rightarrow> u8 list result" where
  "mmap_loop 0 entry current stop bitmap = Inl Out_Of_Fuel"
| "mmap_loop (Suc n) entry current stop bitmap =
     (if current < stop then
        (let e = entry current
         in andthen (if me_type e = 1 then free_region e bitmap else Inr bitmap)
              (mmap_loop n entry (current + me_size e + 4) stop))
      else Inr bitmap)"

text \<open>\<open>ks\<close> and \<open>ke\<close> are the addresses of the linker's symbols \<open>_kernel_start\<close> and \<open>_kernel_end\<close>.\<close>

definition pmm_init :: "nat \<Rightarrow> (u32 \<Rightarrow> multiboot_mmap_entry) \<Rightarrow> u32 \<Rightarrow> u32 \<Rightarrow> u32 \<Rightarrow> u32 \<Rightarrow> u8 list result" where
  "pmm_init fuel entry mmap_addr mmap_length ks ke =
     andthen (mmap_loop fuel entry mmap_addr (mmap_addr + mmap_length) (replicate 4096 0xFF)) (\<lambda>bitmap.
     andthen (each mark_used [0..<256] bitmap) (\<lambda>bitmap.
       let start_frame = unat (ks div 4096); end_frame = unat ((ke + 4095) div 4096)
       in each mark_used [start_frame..<end_frame] bitmap))"

section \<open>The set of free frames\<close>

definition free_frames :: "u8 list \<Rightarrow> nat set" where
  "free_frames bitmap = {f. f < 8 * length bitmap \<and> \<not> bit (bitmap ! (f div 8)) (f mod 8)}"

definition bitmap_ok :: "u8 list \<Rightarrow> bool" where
  "bitmap_ok bitmap \<longleftrightarrow> length bitmap = 4096"

lemma free_frames_bound: "bitmap_ok bm \<Longrightarrow> f \<in> free_frames bm \<Longrightarrow> f < MAX_FRAMES"
  by (simp add: free_frames_def bitmap_ok_def MAX_FRAMES_def)

lemma finite_free_frames [simp]: "finite (free_frames bm)"
  by (simp add: free_frames_def)

lemma free_frames_full: "free_frames (replicate n 0xFF) = {}"
proof -
  have "bit (mask 8 :: u8) i" if "i < 8" for i using that by (simp add: bit_mask_iff)
  then have "bit (0xFF :: u8) i" if "i < 8" for i using that by (simp add: mask_eq_exp_minus_1)
  then show ?thesis by (auto simp: free_frames_def less_mult_imp_div_less mult.commute)
qed

lemma frame_byte:
  "f < 8 * length bm \<Longrightarrow> f div 8 < length bm"
  by (simp add: less_mult_imp_div_less mult.commute)

lemma frame_used_ok:
  "f < 8 * length bm \<Longrightarrow> frame_used bm f = Inr (f \<notin> free_frames bm)"
  using frame_byte [of f bm] by (simp add: frame_used_def free_frames_def bit_test_u8)

text \<open>Changing one bit of a byte changes one frame.\<close>

lemma free_frames_upd:
  assumes "f < 8 * length bm" "\<And>j. j < 8 \<Longrightarrow> j \<noteq> f mod 8 \<Longrightarrow> bit w j = bit (bm ! (f div 8)) j"
  shows "free_frames (bm[f div 8 := w]) =
    (if bit w (f mod 8) then free_frames bm - {f} else insert f (free_frames bm))"
proof -
  have "g \<in> free_frames (bm[f div 8 := w]) \<longleftrightarrow> (if g = f then \<not> bit w (f mod 8) else g \<in> free_frames bm)" for g
  proof (cases "g div 8 = f div 8")
    case True
    show ?thesis
    proof (cases "g = f")
      case True
      then show ?thesis using assms(1) frame_byte [OF assms(1)] by (simp add: free_frames_def)
    next
      case neq: False
      have "g mod 8 \<noteq> f mod 8"
      proof
        assume "g mod 8 = f mod 8"
        with True have "g = f" by (metis div_mult_mod_eq)
        with neq show False by contradiction
      qed
      then have "bit w (g mod 8) = bit (bm ! (f div 8)) (g mod 8)" by (intro assms(2)) simp_all
      with True neq frame_byte [OF assms(1)] show ?thesis by (simp add: free_frames_def)
    qed
  next
    case False
    then have "g \<noteq> f" by blast
    with False show ?thesis by (simp add: free_frames_def)
  qed
  note mem = this
  show ?thesis by (rule set_eqI) (simp add: mem)
qed

lemma mark_used_ok:
  assumes "f < 8 * length bm"
  shows "\<exists>bm'. mark_used f bm = Inr bm' \<and> length bm' = length bm \<and> free_frames bm' = free_frames bm - {f}"
proof -
  let ?w = "bm ! (f div 8) OR 2 ^ (f mod 8)"
  have "mark_used f bm = Inr (bm[f div 8 := ?w])"
    using frame_byte [OF assms] by (simp add: mark_used_def)
  moreover have "free_frames (bm[f div 8 := ?w]) = free_frames bm - {f}"
    by (subst free_frames_upd [OF assms]) (simp_all add: bit_set_u8)
  ultimately show ?thesis by simp
qed

lemma mark_free_ok:
  assumes "f < 8 * length bm"
  shows "\<exists>bm'. mark_free f bm = Inr bm' \<and> length bm' = length bm \<and> free_frames bm' = insert f (free_frames bm)"
proof -
  let ?w = "bm ! (f div 8) AND NOT (2 ^ (f mod 8))"
  have "mark_free f bm = Inr (bm[f div 8 := ?w])"
    using frame_byte [OF assms] by (simp add: mark_free_def)
  moreover have "free_frames (bm[f div 8 := ?w]) = insert f (free_frames bm)"
    by (subst free_frames_upd [OF assms]) (simp_all add: bit_clear_u8)
  ultimately show ?thesis by simp
qed

lemma bitmap_ok_frames: "bitmap_ok bm \<Longrightarrow> 8 * length bm = MAX_FRAMES"
  by (simp add: bitmap_ok_def MAX_FRAMES_def)

lemma mark_used_wf:
  "bitmap_ok bm \<Longrightarrow> f < MAX_FRAMES \<Longrightarrow>
    \<exists>bm'. mark_used f bm = Inr bm' \<and> bitmap_ok bm' \<and> free_frames bm' = free_frames bm - {f}"
  using mark_used_ok [of f bm] by (auto simp: bitmap_ok_frames) (simp add: bitmap_ok_def)

lemma mark_free_wf:
  "bitmap_ok bm \<Longrightarrow> f < MAX_FRAMES \<Longrightarrow>
    \<exists>bm'. mark_free f bm = Inr bm' \<and> bitmap_ok bm' \<and> free_frames bm' = insert f (free_frames bm)"
  using mark_free_ok [of f bm] by (auto simp: bitmap_ok_frames) (simp add: bitmap_ok_def)

lemma frame_used_wf: "bitmap_ok bm \<Longrightarrow> f < MAX_FRAMES \<Longrightarrow> frame_used bm f = Inr (f \<notin> free_frames bm)"
  by (simp add: frame_used_ok bitmap_ok_frames)

section \<open>Single frames\<close>

lemma alloc_loop_spec:
  assumes "bitmap_ok bm" "\<forall>g < frame. g \<notin> free_frames bm"
  shows "if free_frames bm = {} then alloc_loop frame bm = Inr (NO_FRAME, bm)
    else \<exists>bm'. alloc_loop frame bm = Inr (of_nat (Min (free_frames bm)) * 4096, bm') \<and> bitmap_ok bm' \<and>
      free_frames bm' = free_frames bm - {Min (free_frames bm)}"
  using assms
proof (induction frame bm rule: alloc_loop.induct)
  case (1 frame bm)
  note unroll = alloc_loop.simps [of frame bm]
  show ?case
  proof (cases "frame < MAX_FRAMES")
    case False
    then have "free_frames bm = {}" using 1(3) free_frames_bound [OF 1(2)] by fastforce
    then show ?thesis using False unroll by simp
  next
    case True
    note used = frame_used_wf [OF 1(2) True]
    show ?thesis
    proof (cases "frame \<in> free_frames bm")
      case free: True
      then have "Min (free_frames bm) = frame" using 1(3) by (intro Min_eqI) (auto simp: not_less [symmetric])
      with free mark_used_wf [OF 1(2) True] used True unroll show ?thesis by auto
    next
      case busy: False
      then have busy': "\<forall>g < frame + 1. g \<notin> free_frames bm" using 1(3) by (auto simp: less_Suc_eq)
      have step: "alloc_loop frame bm = alloc_loop (frame + 1) bm" using unroll True used busy by simp
      have nn: "\<not> \<not> (frame \<notin> free_frames bm)" using busy by simp
      show ?thesis using 1(1) [OF True used nn 1(2) busy'] unfolding step .
    qed
  qed
qed

lemma pmm_alloc_frame_spec:
  assumes "bitmap_ok bm"
  shows "if free_frames bm = {} then pmm_alloc_frame bm = Inr (NO_FRAME, bm)
    else \<exists>bm'. pmm_alloc_frame bm = Inr (of_nat (Min (free_frames bm)) * 4096, bm') \<and> bitmap_ok bm' \<and>
      free_frames bm' = free_frames bm - {Min (free_frames bm)}"
  using alloc_loop_spec [OF assms, of 0] by (simp add: pmm_alloc_frame_def)

lemma frame_address: "f < MAX_FRAMES \<Longrightarrow> unat (of_nat f * 4096 :: u32) = f * 4096"
  by (subst unat_word_ariths, subst unat_of_nat) (simp add: MAX_FRAMES_def)

lemma frame_of_address: "f < MAX_FRAMES \<Longrightarrow> unat (of_nat f * 4096 div 4096 :: u32) = f"
  using frame_address [of f] by (simp add: unat_div)

lemma frame_address_inj: "f < MAX_FRAMES \<Longrightarrow> g < MAX_FRAMES \<Longrightarrow>
    (of_nat f * 4096 :: u32) = of_nat g * 4096 \<longleftrightarrow> f = g"
  by (metis frame_of_address)

lemma frame_address_valid: "f < MAX_FRAMES \<Longrightarrow> (of_nat f * 4096 :: u32) \<noteq> NO_FRAME"
  using frame_address [of f] by (auto simp: MAX_FRAMES_def NO_FRAME_def)

lemma pmm_free_frame_spec:
  assumes "bitmap_ok bm" "f < MAX_FRAMES"
  shows "\<exists>bm'. pmm_free_frame (of_nat f * 4096) bm = Inr bm' \<and> bitmap_ok bm' \<and>
    free_frames bm' = insert f (free_frames bm)"
  using mark_free_wf [OF assms] frame_of_address [OF assms(2)] by (simp add: pmm_free_frame_def)

section \<open>The allocator contract\<close>

text \<open>
  What the clients rely on. \<open>frames\<close> are the addresses the allocator manages, \<open>avail\<close> those it
  can still hand out.
\<close>

locale frame_allocator =
  fixes alloc :: "'s \<Rightarrow> (u32 \<times> 's) result"
    and free :: "u32 \<Rightarrow> 's \<Rightarrow> 's result"
    and avail :: "'s \<Rightarrow> u32 set"
    and wf :: "'s \<Rightarrow> bool"
    and frames :: "u32 set"
    and nothing :: u32
  assumes alloc_some: "wf s \<Longrightarrow> avail s \<noteq> {} \<Longrightarrow>
      \<exists>a s'. alloc s = Inr (a, s') \<and> a \<in> avail s \<and> wf s' \<and> avail s' = avail s - {a}"
    and alloc_none: "wf s \<Longrightarrow> avail s = {} \<Longrightarrow> alloc s = Inr (nothing, s)"
    and free_ok: "wf s \<Longrightarrow> a \<in> frames \<Longrightarrow>
      \<exists>s'. free a s = Inr s' \<and> wf s' \<and> avail s' = insert a (avail s)"
    and avail_frames: "wf s \<Longrightarrow> avail s \<subseteq> frames"
    and nothing_frame: "nothing \<notin> frames"

text \<open>
  A client that keeps the frames it got: it asks for one, or gives back the \<open>k\<close>-th it holds.
\<close>

datatype request = Ask | Give_Back nat

fun serve :: "('s \<Rightarrow> (u32 \<times> 's) result) \<Rightarrow> (u32 \<Rightarrow> 's \<Rightarrow> 's result) \<Rightarrow> u32 \<Rightarrow>
    request \<Rightarrow> u32 list \<times> 's \<Rightarrow> (u32 list \<times> 's) result" where
  "serve alloc free nothing Ask (held, s) = andthen (alloc s) (\<lambda>(a, s).
     Inr (if a = nothing then held else a # held, s))"
| "serve alloc free nothing (Give_Back k) (held, s) =
     (if k < length held then andthen (free (held ! k) s) (\<lambda>s. Inr (take k held @ drop (Suc k) held, s))
      else Inr (held, s))"

context frame_allocator begin

definition owns :: "u32 list \<times> 's \<Rightarrow> bool" where
  "owns hs \<longleftrightarrow> wf (snd hs) \<and> distinct (fst hs) \<and> set (fst hs) \<subseteq> frames \<and> set (fst hs) \<inter> avail (snd hs) = {}"

lemma serve_owns:
  assumes "owns hs"
  shows "\<exists>hs'. serve alloc free nothing r hs = Inr hs' \<and> owns hs' \<and>
    set (fst hs') \<union> avail (snd hs') = set (fst hs) \<union> avail (snd hs)"
proof -
  obtain held s where hs: "hs = (held, s)" by (cases hs)
  with assms have o: "wf s" "distinct held" "set held \<subseteq> frames" "set held \<inter> avail s = {}"
    by (simp_all add: owns_def)
  show ?thesis
  proof (cases r)
    case Ask
    show ?thesis
    proof (cases "avail s = {}")
      case True
      with alloc_none [OF o(1)] Ask hs assms show ?thesis by simp
    next
      case False
      obtain a s' where a: "alloc s = Inr (a, s')" "a \<in> avail s" "wf s'" "avail s' = avail s - {a}"
        using alloc_some [OF o(1) False] by blast
      have "a \<noteq> nothing" "a \<in> frames" using a(2) avail_frames [OF o(1)] nothing_frame by auto
      with a o Ask hs show ?thesis by (auto simp: owns_def)
    qed
  next
    case (Give_Back k)
    show ?thesis
    proof (cases "k < length held")
      case False
      with Give_Back hs assms show ?thesis by simp
    next
      case True
      let ?a = "held ! k" and ?rest = "take k held @ drop (Suc k) held"
      note rest = remove_nth [OF o(2) True]
      have mem: "?a \<in> set held" using True by simp
      obtain s' where s': "free ?a s = Inr s'" "wf s'" "avail s' = insert ?a (avail s)"
        using free_ok [OF o(1), of ?a] o(3) mem by blast
      have "serve alloc free nothing r hs = Inr (?rest, s')" using Give_Back True hs s'(1) by simp
      moreover have "owns (?rest, s')"
        unfolding owns_def fst_conv snd_conv rest(2) s'(3) using s'(2) rest(1) o by auto
      moreover have "set ?rest \<union> avail s' = set held \<union> avail s"
        unfolding rest(2) s'(3) using mem by auto
      ultimately show ?thesis using hs by auto
    qed
  qed
qed

lemma serve_all_owns:
  assumes "owns hs"
  shows "\<exists>hs'. each (serve alloc free nothing) rs hs = Inr hs' \<and> owns hs' \<and>
    set (fst hs') \<union> avail (snd hs') = set (fst hs) \<union> avail (snd hs)"
  using assms
proof (induction rs arbitrary: hs)
  case (Cons r rs)
  obtain h1 where h1: "serve alloc free nothing r hs = Inr h1" "owns h1"
    "set (fst h1) \<union> avail (snd h1) = set (fst hs) \<union> avail (snd hs)"
    using serve_owns [OF Cons.prems] by blast
  with Cons.IH [OF h1(2)] show ?case by auto
qed simp

end

text \<open>The code's allocator keeps the contract.\<close>

definition frame_addrs :: "u32 set" where
  "frame_addrs = (\<lambda>f. of_nat f * 4096) ` {..<MAX_FRAMES}"

definition free_addrs :: "u8 list \<Rightarrow> u32 set" where
  "free_addrs bm = (\<lambda>f. of_nat f * 4096) ` free_frames bm"

lemma free_addrs_empty [simp]: "free_addrs bm = {} \<longleftrightarrow> free_frames bm = {}"
  by (simp add: free_addrs_def)

lemma free_addr_iff:
  assumes "bitmap_ok bm" "f < MAX_FRAMES"
  shows "of_nat f * 4096 \<in> free_addrs bm \<longleftrightarrow> f \<in> free_frames bm"
  using free_frames_bound [OF assms(1)] frame_address_inj assms(2) by (auto simp: free_addrs_def)

lemma free_addrs_remove:
  assumes "bitmap_ok bm" "f < MAX_FRAMES"
  shows "(\<lambda>f. of_nat f * 4096 :: u32) ` (free_frames bm - {f}) = free_addrs bm - {of_nat f * 4096}"
  using free_frames_bound [OF assms(1)] frame_address_inj assms(2) by (auto simp: free_addrs_def)

interpretation pmm: frame_allocator pmm_alloc_frame pmm_free_frame free_addrs bitmap_ok frame_addrs NO_FRAME
proof unfold_locales
  fix bm assume wf: "bitmap_ok bm"
  show "free_addrs bm \<subseteq> frame_addrs"
    using free_frames_bound [OF wf] by (auto simp: free_addrs_def frame_addrs_def)
  show "pmm_alloc_frame bm = Inr (NO_FRAME, bm)" if "free_addrs bm = {}"
    using pmm_alloc_frame_spec [OF wf] that by simp
  show "\<exists>a s'. pmm_alloc_frame bm = Inr (a, s') \<and> a \<in> free_addrs bm \<and> bitmap_ok s' \<and>
      free_addrs s' = free_addrs bm - {a}" if "free_addrs bm \<noteq> {}"
  proof -
    let ?f = "Min (free_frames bm)"
    have ne: "free_frames bm \<noteq> {}" using that by simp
    then have f: "?f \<in> free_frames bm" by simp
    obtain bm' where bm': "pmm_alloc_frame bm = Inr (of_nat ?f * 4096, bm')" "bitmap_ok bm'"
      "free_frames bm' = free_frames bm - {?f}" using pmm_alloc_frame_spec [OF wf] ne by auto
    have "free_addrs bm' = free_addrs bm - {of_nat ?f * 4096}"
      using free_addrs_remove [OF wf free_frames_bound [OF wf f]] bm'(3) by (simp add: free_addrs_def)
    moreover have "of_nat ?f * 4096 \<in> free_addrs bm" using f by (simp add: free_addrs_def)
    ultimately show ?thesis using bm' by blast
  qed
  show "\<exists>s'. pmm_free_frame a bm = Inr s' \<and> bitmap_ok s' \<and> free_addrs s' = insert a (free_addrs bm)"
    if a: "a \<in> frame_addrs" for a
  proof -
    obtain f where "a = of_nat f * 4096" "f < MAX_FRAMES" using a unfolding frame_addrs_def by blast
    with pmm_free_frame_spec [OF wf] show ?thesis by (fastforce simp: free_addrs_def)
  qed
next
  show "NO_FRAME \<notin> frame_addrs"
  proof
    assume "NO_FRAME \<in> frame_addrs"
    then obtain f where "NO_FRAME = of_nat f * 4096" "f < MAX_FRAMES" unfolding frame_addrs_def by blast
    with frame_address_valid [of f] show False by simp
  qed
qed

section \<open>Runs of frames\<close>

text \<open>\<open>n\<close> free frames from \<open>s\<close> on.\<close>

definition run_at :: "u8 list \<Rightarrow> nat \<Rightarrow> nat \<Rightarrow> bool" where
  "run_at bm n s \<longleftrightarrow> {s..<s + n} \<subseteq> free_frames bm"

lemma mod_u32_iff:
  assumes "0 \<le> k" "k < 2 ^ 31" "in_int n"
  shows "k mod 2 ^ 32 = n mod 2 ^ 32 \<longleftrightarrow> k = n"
proof (cases "0 \<le> n")
  case True
  with assms show ?thesis by (simp add: in_int_def)
next
  case False
  have "n mod 2 ^ 32 = (n + 2 ^ 32) mod 2 ^ 32" by simp
  also have "\<dots> = n + 2 ^ 32" using False assms(3) by (intro mod_pos_pos_trivial) (simp_all add: in_int_def)
  finally show ?thesis using False assms by (simp add: in_int_def)
qed

lemma window_test:
  assumes "s \<le> e" "e < MAX_FRAMES" "in_int n"
  shows "(of_nat e - of_nat s + 1 :: u32) = of_int n \<longleftrightarrow> n = int (e - s + 1)"
proof -
  have "(of_nat e - of_nat s + 1 :: u32) = of_int (int (e - s + 1))"
    using assms(1) by (simp add: of_nat_diff)
  moreover have "(of_int (int (e - s + 1)) :: u32) = of_int n \<longleftrightarrow>
      int (e - s + 1) mod 2 ^ 32 = n mod 2 ^ 32"
    by (simp only: word_of_int_eq_iff take_bit_eq_mod) simp
  moreover have "int (e - s + 1) mod 2 ^ 32 = n mod 2 ^ 32 \<longleftrightarrow> int (e - s + 1) = n"
    using assms by (intro mod_u32_iff) (simp_all add: MAX_FRAMES_def)
  ultimately show ?thesis by (simp only:) blast
qed

lemma window_loop_spec:
  assumes "bitmap_ok bm" "in_int n" "start \<le> end" "{start..<end} \<subseteq> free_frames bm"
    and "0 < n \<Longrightarrow> int (end - start) < n" "0 < n \<Longrightarrow> \<forall>s < start. \<not> run_at bm (nat n) s"
  shows "window_loop n start end bm = Inr (
    if 0 < n \<and> (\<exists>s. run_at bm (nat n) s)
    then Some (LEAST s. run_at bm (nat n) s, (LEAST s. run_at bm (nat n) s) + nat n - 1) else None)"
  using assms
proof (induction n start "end" bm rule: window_loop.induct)
  case (1 n start e bm)
  note unroll = window_loop.simps [of n start e bm]
  show ?case
  proof (cases "e < MAX_FRAMES")
    case False
    have "\<not> run_at bm (nat n) s" if "0 < n" for s
    proof
      assume r: "run_at bm (nat n) s"
      then have "s + nat n - 1 \<in> free_frames bm" using that by (auto simp: run_at_def subset_iff)
      then have "s + nat n \<le> MAX_FRAMES" using free_frames_bound [OF 1(3)] by fastforce
      with False 1(7) that have "s < start" by auto
      with 1(8) [OF that] r show False by blast
    qed
    with False unroll show ?thesis by auto
  next
    case True
    note used = frame_used_wf [OF 1(3) True]
    note test = window_test [OF 1(5) True 1(4)]
    show ?thesis
    proof (cases "e \<in> free_frames bm")
      case free: True
      then have more: "{start..<e + 1} \<subseteq> free_frames bm" using 1(5,6) by (auto simp: less_Suc_eq)
      show ?thesis
      proof (cases "n = int (e - start + 1)")
        case hit: True
        then have n: "0 < n" "start + nat n = e + 1" using 1(5) by auto
        then have run: "run_at bm (nat n) start" using more by (simp add: run_at_def)
        then have "(LEAST s. run_at bm (nat n) s) = start"
          using 1(8) n(1) by (intro Least_equality) (auto simp: not_less [symmetric])
        moreover have "window_loop n start e bm = Inr (Some (start, e))"
          using unroll True used free test hit by simp
        ultimately show ?thesis using n run by auto
      next
        case miss: False
        have "window_loop n start e bm = window_loop n start (e + 1) bm"
          using unroll True used free test miss by simp
        moreover have "0 < n \<Longrightarrow> int (e + 1 - start) < n" using 1(5,7) miss by auto
        ultimately show ?thesis
          using 1(1) [OF True used] test miss free 1(3-5,8) more by simp
      qed
    next
      case busy: False
      have none: "\<not> run_at bm (nat n) s" if "s < e + 1" "0 < n" for s
      proof (cases "s < start")
        case True
        with 1(8) [OF that(2)] show ?thesis by blast
      next
        case False
        with that 1(7) have "e \<in> {s..<s + nat n}" by auto
        with busy show ?thesis by (auto simp: run_at_def)
      qed
      have step: "window_loop n start e bm = window_loop n (e + 1) (e + 1) bm"
        using unroll True used busy by simp
      have nn: "\<not> \<not> (e \<notin> free_frames bm)" using busy by simp
      show ?thesis
        unfolding step by (rule 1(2) [OF True used nn 1(3,4)]) (use none in auto)
    qed
  qed
qed

lemma each_mark_used:
  assumes "bitmap_ok bm" "\<And>f. f \<in> set fs \<Longrightarrow> f < MAX_FRAMES"
  shows "\<exists>bm'. each mark_used fs bm = Inr bm' \<and> bitmap_ok bm' \<and> free_frames bm' = free_frames bm - set fs"
proof -
  have "\<exists>bm'. each mark_used fs bm = Inr bm' \<and> bitmap_ok bm' \<and>
      free_frames bm' = fold (\<lambda>f A. A - {f}) fs (free_frames bm)"
    by (rule each_view [where ok = bitmap_ok and view = free_frames]) (use mark_used_wf assms in auto)
  then show ?thesis by (simp add: fold_remove_set)
qed

lemma each_mark_free:
  assumes "bitmap_ok bm" "\<And>f. f \<in> set fs \<Longrightarrow> f < MAX_FRAMES"
  shows "\<exists>bm'. each mark_free fs bm = Inr bm' \<and> bitmap_ok bm' \<and> free_frames bm' = free_frames bm \<union> set fs"
proof -
  have "\<exists>bm'. each mark_free fs bm = Inr bm' \<and> bitmap_ok bm' \<and>
      free_frames bm' = fold insert fs (free_frames bm)"
    by (rule each_view [where ok = bitmap_ok and view = free_frames]) (use mark_free_wf assms in auto)
  then show ?thesis by (simp add: fold_insert_set)
qed

lemma run_at_bound: "bitmap_ok bm \<Longrightarrow> run_at bm n s \<Longrightarrow> 0 < n \<Longrightarrow> s + n \<le> MAX_FRAMES"
proof -
  assume a: "bitmap_ok bm" "run_at bm n s" "0 < n"
  then have "s + n - 1 \<in> free_frames bm" by (auto simp: run_at_def subset_iff)
  with free_frames_bound [OF a(1)] a(3) show ?thesis by fastforce
qed

lemma pmm_alloc_contiguous_spec:
  assumes "bitmap_ok bm" "in_int n"
  shows "if 0 < n \<and> (\<exists>s. run_at bm (nat n) s)
    then \<exists>bm'. pmm_alloc_contiguous n bm = Inr (of_nat (LEAST s. run_at bm (nat n) s) * 4096, bm') \<and>
      bitmap_ok bm' \<and> free_frames bm' = free_frames bm -
        {(LEAST s. run_at bm (nat n) s)..<(LEAST s. run_at bm (nat n) s) + nat n}
    else pmm_alloc_contiguous n bm = Inr (NO_FRAME, bm)"
proof -
  have w: "window_loop n 0 0 bm = Inr (
      if 0 < n \<and> (\<exists>s. run_at bm (nat n) s)
      then Some (LEAST s. run_at bm (nat n) s, (LEAST s. run_at bm (nat n) s) + nat n - 1) else None)"
    by (rule window_loop_spec [OF assms]) simp_all
  show ?thesis
  proof (cases "0 < n \<and> (\<exists>s. run_at bm (nat n) s)")
    case False
    show ?thesis unfolding if_not_P [OF False] using w unfolding if_not_P [OF False]
      by (simp add: pmm_alloc_contiguous_def)
  next
    case True
    let ?s = "LEAST s. run_at bm (nat n) s"
    have run: "run_at bm (nat n) ?s" using True by (meson LeastI)
    have upto: "[?s..<Suc (?s + nat n - 1)] = [?s..<?s + nat n]" using True by (intro arg_cong2 [of _ _ _ _ upt]) auto
    have "?s + nat n \<le> MAX_FRAMES" using run_at_bound [OF assms(1) run] True by simp
    then obtain bm' where "each mark_used [?s..<?s + nat n] bm = Inr bm'" "bitmap_ok bm'"
      "free_frames bm' = free_frames bm - {?s..<?s + nat n}"
      using each_mark_used [OF assms(1), of "[?s..<?s + nat n]"] by auto
    with w True show ?thesis by (simp add: pmm_alloc_contiguous_def upto [simplified] del: upt_Suc)
  qed
qed

section \<open>Counting\<close>

lemma pmm_free_count_spec:
  assumes "bitmap_ok bm"
  shows "pmm_free_count bm = Inr (of_nat (card (free_frames bm)))"
proof -
  let ?step = "\<lambda>f free. andthen (frame_used bm f) (\<lambda>used. Inr (if \<not> used then free + 1 else free))"
  have "each ?step [0..<m] 0 = Inr (of_nat (card (free_frames bm \<inter> {..<m})))" if "m \<le> MAX_FRAMES" for m
    using that
  proof (induction m)
    case (Suc m)
    have "free_frames bm \<inter> {..<Suc m} =
        (if m \<in> free_frames bm then insert m (free_frames bm \<inter> {..<m}) else free_frames bm \<inter> {..<m})"
      by (auto simp: less_Suc_eq)
    with Suc frame_used_wf [OF assms, of m] show ?case by (simp add: each_append add.commute)
  qed simp
  note count = this [OF order_refl]
  have all: "free_frames bm \<inter> {..<MAX_FRAMES} = free_frames bm"
    using free_frames_bound [OF assms] by auto
  show ?thesis unfolding pmm_free_count_def count all ..
qed

section \<open>The map of the boot loader\<close>

text \<open>
  \<open>es\<close> are the entries the walk meets from \<open>current\<close> on; \<open>region_frames\<close> the frames of an entry,
  without the casts to 32 bits.
\<close>

fun mmap_chain :: "(u32 \<Rightarrow> multiboot_mmap_entry) \<Rightarrow> u32 \<Rightarrow> u32 \<Rightarrow> multiboot_mmap_entry list \<Rightarrow> bool" where
  "mmap_chain entry current stop [] \<longleftrightarrow> stop \<le> current"
| "mmap_chain entry current stop (e # es) \<longleftrightarrow> current < stop \<and> entry current = e \<and>
     mmap_chain entry (current + me_size e + 4) stop es"

definition region_start :: "multiboot_mmap_entry \<Rightarrow> nat" where
  "region_start e = unat (me_addr e) div 4096"

definition region_end :: "multiboot_mmap_entry \<Rightarrow> nat" where
  "region_end e = (unat (me_addr e) + unat (me_len e)) div 4096"

text \<open>The entry does not wrap around, and its frame numbers fit 32 bits.\<close>

definition region_sane :: "multiboot_mmap_entry \<Rightarrow> bool" where
  "region_sane e \<longleftrightarrow> unat (me_addr e) + unat (me_len e) < 2 ^ 44"

definition usable :: "multiboot_mmap_entry list \<Rightarrow> nat set" where
  "usable es = (\<Union>e \<in> {e \<in> set es. me_type e = 1}. {region_start e..<region_end e})"

lemma usable_simps [simp]:
  "usable [] = {}"
  "usable (e # es) = (if me_type e = 1 then {region_start e..<region_end e} else {}) \<union> usable es"
  by (auto simp: usable_def)

lemma region_casts:
  assumes "region_sane e"
  shows "unat (ucast (me_addr e div 4096) :: u32) = region_start e"
    "unat (ucast ((me_addr e + me_len e) div 4096) :: u32) = region_end e"
proof -
  have sum: "unat (me_addr e + me_len e) = unat (me_addr e) + unat (me_len e)"
    using assms by (intro unat_plus_u64) (simp add: region_sane_def)
  show "unat (ucast (me_addr e div 4096) :: u32) = region_start e"
    using assms by (subst unat_to_u32) (auto simp: region_start_def region_sane_def unat_div)
  show "unat (ucast ((me_addr e + me_len e) div 4096) :: u32) = region_end e"
    using assms by (subst unat_to_u32) (auto simp: region_end_def region_sane_def unat_div sum)
qed

lemma free_region_each:
  "region_sane e \<Longrightarrow> free_region e bm = each mark_free [region_start e..<region_end e] bm"
  by (simp add: free_region_def region_casts Let_def)

lemma mmap_loop_spec:
  assumes "mmap_chain entry current stop es" "length es < n" "bitmap_ok bm"
    and "\<forall>e \<in> set es. me_type e = 1 \<longrightarrow> region_sane e \<and> region_end e \<le> MAX_FRAMES"
  shows "\<exists>bm'. mmap_loop n entry current stop bm = Inr bm' \<and> bitmap_ok bm' \<and>
    free_frames bm' = free_frames bm \<union> usable es"
  using assms
proof (induction es arbitrary: current n bm)
  case Nil
  then show ?case by (cases n) auto
next
  case (Cons e es)
  then obtain m where m: "n = Suc m" "length es < m" by (cases n) auto
  have e: "current < stop" "entry current = e" "mmap_chain entry (current + me_size e + 4) stop es"
    using Cons.prems(1) by auto
  obtain bm1 where bm1: "(if me_type e = 1 then free_region e bm else Inr bm) = Inr bm1" "bitmap_ok bm1"
    "free_frames bm1 = free_frames bm \<union> (if me_type e = 1 then {region_start e..<region_end e} else {})"
  proof (cases "me_type e = 1")
    case True
    with Cons.prems(3,4) each_mark_free [of bm "[region_start e..<region_end e]"] that show ?thesis
      by (fastforce simp: free_region_each)
  qed (use Cons.prems(3) that in auto)
  with Cons.IH [OF e(3) m(2) bm1(2)] Cons.prems(4) e m(1) show ?case by (auto simp: Let_def Un_assoc)
qed

lemma pmm_init_spec:
  assumes "mmap_chain entry mmap_addr (mmap_addr + mmap_length) es" "length es < n"
    and "\<forall>e \<in> set es. me_type e = 1 \<longrightarrow> region_sane e \<and> region_end e \<le> MAX_FRAMES"
    and "unat ke \<le> 2 ^ 27"
  shows "\<exists>bm. pmm_init n entry mmap_addr mmap_length ks ke = Inr bm \<and> bitmap_ok bm \<and>
    free_frames bm = usable es - {..<256} - {unat ks div 4096..<(unat ke + 4095) div 4096}"
proof -
  have "bitmap_ok (replicate 4096 0xFF)" by (simp add: bitmap_ok_def)
  then obtain bm1 where bm1: "mmap_loop n entry mmap_addr (mmap_addr + mmap_length) (replicate 4096 0xFF) = Inr bm1"
    "bitmap_ok bm1" "free_frames bm1 = usable es"
    using mmap_loop_spec [OF assms(1,2) _ assms(3)] free_frames_full by fastforce
  obtain bm2 where bm2: "each mark_used [0..<256] bm1 = Inr bm2" "bitmap_ok bm2"
    "free_frames bm2 = usable es - {..<256}"
    using each_mark_used [OF bm1(2), of "[0..<256]"] bm1(3) by (auto simp: MAX_FRAMES_def lessThan_atLeast0)
  have ke: "unat (ke + 4095) = unat ke + 4095"
    using assms(4) unat_plus_u32 [of ke 4095] by simp
  have "(unat ke + 4095) div 4096 \<le> MAX_FRAMES" using assms(4) by (simp add: MAX_FRAMES_def)
  then obtain bm3 where "each mark_used [unat ks div 4096..<(unat ke + 4095) div 4096] bm2 = Inr bm3"
    "bitmap_ok bm3" "free_frames bm3 = free_frames bm2 - {unat ks div 4096..<(unat ke + 4095) div 4096}"
    using each_mark_used [OF bm2(2), of "[unat ks div 4096..<(unat ke + 4095) div 4096]"] by auto
  with bm1 bm2 show ?thesis by (simp add: pmm_init_def Let_def ke unat_div)
qed

text \<open>Past the bitmap.\<close>

lemma mark_free_result: "mark_free f bm = Inl (Undef Out_Of_Bounds) \<or> (\<exists>bm'. mark_free f bm = Inr bm' \<and> length bm' = length bm)"
  by (auto simp: mark_free_def arr_get_def arr_set_def)

lemma mark_free_past: "bitmap_ok bm \<Longrightarrow> MAX_FRAMES \<le> f \<Longrightarrow> mark_free f bm = Inl (Undef Out_Of_Bounds)"
  by (auto simp: mark_free_def arr_get_def bitmap_ok_def MAX_FRAMES_def)

lemma each_mark_free_result:
  "bitmap_ok bm \<Longrightarrow> each mark_free fs bm = Inl (Undef Out_Of_Bounds) \<or>
    (\<exists>bm'. each mark_free fs bm = Inr bm' \<and> bitmap_ok bm' \<and> (\<forall>f \<in> set fs. f < MAX_FRAMES))"
proof (induction fs arbitrary: bm)
  case (Cons f fs)
  show ?case
  proof (cases "f < MAX_FRAMES")
    case True
    with mark_free_wf [OF Cons.prems] Cons.IH show ?thesis by fastforce
  next
    case False
    with mark_free_past [OF Cons.prems] show ?thesis by simp
  qed
qed simp

definition overruns :: "multiboot_mmap_entry \<Rightarrow> bool" where
  "overruns e \<longleftrightarrow> me_type e = 1 \<and> region_sane e \<and> region_start e < region_end e \<and> MAX_FRAMES < region_end e"

lemma mmap_loop_past:
  assumes "mmap_chain entry current stop es" "length es < n" "bitmap_ok bm"
    and "\<exists>e \<in> set es. overruns e"
  shows "mmap_loop n entry current stop bm = Inl (Undef Out_Of_Bounds)"
  using assms
proof (induction es arbitrary: current n bm)
  case (Cons e es)
  then obtain m where m: "n = Suc m" "length es < m" by (cases n) auto
  have e: "current < stop" "entry current = e" "mmap_chain entry (current + me_size e + 4) stop es"
    using Cons.prems(1) by auto
  let ?r = "if me_type e = 1 then free_region e bm else Inr bm"
  have "?r = Inl (Undef Out_Of_Bounds) \<or> (\<exists>bm'. ?r = Inr bm' \<and> bitmap_ok bm' \<and>
      (\<exists>e \<in> set es. overruns e))"
  proof (cases "overruns e")
    case True
    then have "region_end e - 1 \<in> set [region_start e..<region_end e]" "\<not> region_end e - 1 < MAX_FRAMES"
      "me_type e = 1" "region_sane e" by (auto simp: overruns_def)
    with each_mark_free_result [OF Cons.prems(3), of "[region_start e..<region_end e]"]
    show ?thesis unfolding free_region_each [OF \<open>region_sane e\<close>] by auto
  next
    case False
    then have rest: "\<exists>e \<in> set es. overruns e"
      using Cons.prems(4) by auto
    have "?r = Inl (Undef Out_Of_Bounds) \<or> (\<exists>bm'. ?r = Inr bm' \<and> bitmap_ok bm')"
      using each_mark_free_result [OF Cons.prems(3)] Cons.prems(3) by (auto simp: free_region_def Let_def)
    with rest show ?thesis by blast
  qed
  then show ?case
  proof (elim disjE exE conjE)
    fix bm' assume "?r = Inr bm'" "bitmap_ok bm'" "\<exists>e \<in> set es. overruns e"
    with Cons.IH [OF e(3) m(2)] e(1,2) m(1) show ?thesis by (simp add: Let_def)
  next
    assume "?r = Inl (Undef Out_Of_Bounds)"
    then show ?thesis using e(1,2) m(1) by (simp add: Let_def)
  qed
qed simp

section \<open>The contract of \<open>pmm.c\<close>\<close>

text \<open>
  \<open>pmm_alloc_frame\<close> hands out the lowest free frame and marks exactly that frame;
  with no frame free it answers 0xFFFFFFFF and changes nothing. It never leaves the bitmap.
\<close>

theorem alloc_lowest_frame:
  assumes "bitmap_ok bm"
  shows "\<exists>a bm'. pmm_alloc_frame bm = Inr (a, bm') \<and> bitmap_ok bm' \<and>
    (if free_frames bm = {} then a = NO_FRAME \<and> bm' = bm
     else a = of_nat (Min (free_frames bm)) * 4096 \<and> a \<noteq> NO_FRAME \<and>
       free_frames bm' = free_frames bm - {Min (free_frames bm)})"
proof (cases "free_frames bm = {}")
  case True
  with pmm_alloc_frame_spec [OF assms] assms show ?thesis by simp
next
  case False
  then have "Min (free_frames bm) < MAX_FRAMES" using free_frames_bound [OF assms] by simp
  from frame_address_valid [OF this] pmm_alloc_frame_spec [OF assms] False show ?thesis by auto
qed

text \<open>Bitmaps with given free frames.\<close>

lemma bitmap_with:
  assumes "list_all (\<lambda>f. f < MAX_FRAMES) fs"
  shows "\<exists>bm. bitmap_ok bm \<and> free_frames bm = set fs"
proof -
  have fs: "\<And>f. f \<in> set fs \<Longrightarrow> f < MAX_FRAMES" using assms by (simp add: list_all_iff)
  have "bitmap_ok (replicate 4096 0xFF)" by (simp add: bitmap_ok_def)
  from each_mark_free [OF this fs] show ?thesis by (auto simp: free_frames_full)
qed

theorem alloc_lowest_frame_witness:
  "\<exists>bm bm'. free_frames bm = {9, 5} \<and> pmm_alloc_frame bm = Inr (20480, bm') \<and> free_frames bm' = {9}"
proof -
  obtain bm where bm: "bitmap_ok bm" "free_frames bm = {9, 5}"
    using bitmap_with [of "[9, 5]"] by (auto simp: MAX_FRAMES_def)
  then have "Min (free_frames bm) = 5" by simp
  with alloc_lowest_frame [OF bm(1)] bm(2) show ?thesis by fastforce
qed

text \<open>
  Property C10. No frame has two owners: however a client of the allocator interleaves requests
  with giving back frames it holds, the frames it holds stay distinct, none of them is free in
  the bitmap, and held and free frames together are always the same set.
\<close>

theorem no_frame_twice:
  assumes "bitmap_ok bm"
  shows "\<exists>held bm'. each (serve pmm_alloc_frame pmm_free_frame NO_FRAME) rs ([], bm) = Inr (held, bm') \<and>
    distinct held \<and> set held \<inter> free_addrs bm' = {} \<and> set held \<union> free_addrs bm' = free_addrs bm"
proof -
  have "pmm.owns ([], bm)" using assms by (simp add: pmm.owns_def)
  from pmm.serve_all_owns [OF this, of rs] show ?thesis by (fastforce simp: pmm.owns_def)
qed

theorem no_frame_twice_witness:
  "\<exists>held bm'. each (serve pmm_alloc_frame pmm_free_frame NO_FRAME) [Ask, Ask, Give_Back 1, Ask]
      ([], replicate 4096 0) = Inr (held, bm') \<and> distinct held"
  using no_frame_twice [of "replicate 4096 0" "[Ask, Ask, Give_Back 1, Ask]"] by (auto simp: bitmap_ok_def)

text \<open>
  Property C11. \<open>pmm_alloc_contiguous n\<close> is first fit: it takes the lowest \<open>n\<close> consecutive free
  frames, marks exactly those and answers the address of the first; when there is no such run, or
  \<open>n\<close> is not positive, it answers 0xFFFFFFFF and changes nothing.
\<close>

theorem contiguous_first_fit:
  assumes "bitmap_ok bm" "in_int n"
  shows "if 0 < n \<and> (\<exists>s. run_at bm (nat n) s)
    then \<exists>bm'. pmm_alloc_contiguous n bm = Inr (of_nat (LEAST s. run_at bm (nat n) s) * 4096, bm') \<and>
      bitmap_ok bm' \<and> free_frames bm' = free_frames bm -
        {(LEAST s. run_at bm (nat n) s)..<(LEAST s. run_at bm (nat n) s) + nat n}
    else pmm_alloc_contiguous n bm = Inr (NO_FRAME, bm)"
  by (rule pmm_alloc_contiguous_spec [OF assms])

theorem contiguous_first_fit_witness:
  "\<exists>bm bm'. free_frames bm = {3, 7, 8} \<and> pmm_alloc_contiguous 2 bm = Inr (28672, bm') \<and> free_frames bm' = {3}"
proof -
  obtain bm where bm: "bitmap_ok bm" "free_frames bm = {3, 7, 8}"
    using bitmap_with [of "[3, 7, 8]"] by (auto simp: MAX_FRAMES_def)
  have run: "run_at bm 2 s \<longleftrightarrow> s = 7" for s
    by (auto simp: run_at_def bm(2) eval_nat_numeral atLeastLessThanSuc)
  have least: "(LEAST s. run_at bm (nat 2) s) = 7" by (intro Least_equality) (simp_all add: run)
  have ex: "\<exists>s. run_at bm (nat 2) s" by (simp add: run)
  have hyp: "0 < (2::int) \<and> (\<exists>s. run_at bm (nat 2) s)" using ex by simp
  have "in_int 2" by (simp add: in_int_def)
  from contiguous_first_fit [OF bm(1) this] obtain bm' where
    "pmm_alloc_contiguous 2 bm = Inr (of_nat 7 * 4096, bm')" "free_frames bm' = free_frames bm - {7..<7 + nat 2}"
    unfolding if_P [OF hyp] least by blast
  moreover have "{3, 7, 8} - {7..<7 + nat 2} = {3::nat}" by auto
  ultimately show ?thesis using bm(2) by (intro exI [of _ bm] exI [of _ bm']) simp
qed

text \<open>
  Property C12. After \<open>pmm_init\<close> the free frames are exactly those of the available regions of the
  boot loader's map, without the first megabyte and without the kernel's frames, provided every
  available region ends within the 128 MB the bitmap describes.
\<close>

theorem pmm_init_free_frames:
  assumes "mmap_chain entry mmap_addr (mmap_addr + mmap_length) es" "length es < n"
    and "\<forall>e \<in> set es. me_type e = 1 \<longrightarrow> region_sane e \<and> region_end e \<le> MAX_FRAMES"
    and "unat ke \<le> 2 ^ 27"
  shows "\<exists>bm. pmm_init n entry mmap_addr mmap_length ks ke = Inr bm \<and> bitmap_ok bm \<and>
    free_frames bm = usable es - {..<256} - {unat ks div 4096..<(unat ke + 4095) div 4096}"
  by (rule pmm_init_spec [OF assms])

text \<open>The map of a small machine: low memory, a reserved hole, and memory from 1 MB on.\<close>

definition sample_entry :: "u64 \<Rightarrow> u32 \<Rightarrow> multiboot_mmap_entry" where
  "sample_entry l a = (if a = 0x9000 then \<lparr>me_size = 20, me_addr = 0, me_len = 0x9FC00, me_type = 1\<rparr>
     else if a = 0x9018 then \<lparr>me_size = 20, me_addr = 0x9FC00, me_len = 0x60400, me_type = 2\<rparr>
     else \<lparr>me_size = 20, me_addr = 0x100000, me_len = l, me_type = 1\<rparr>)"

lemma sample_chain:
  "mmap_chain (sample_entry l) 0x9000 (0x9000 + 72)
    [sample_entry l 0x9000, sample_entry l 0x9018, sample_entry l 0x9030]"
  by (simp add: sample_entry_def)

theorem pmm_init_free_frames_witness:
  "\<exists>bm. pmm_init 4 (sample_entry 0x100000) 0x9000 72 0x100000 0x106123 = Inr bm \<and>
    free_frames bm = {0..<159} \<union> {256..<512} - {..<256} - {256..<263}"
proof -
  have "\<exists>bm. pmm_init 4 (sample_entry 0x100000) 0x9000 72 0x100000 0x106123 = Inr bm \<and> bitmap_ok bm \<and>
    free_frames bm = usable [sample_entry 0x100000 0x9000, sample_entry 0x100000 0x9018, sample_entry 0x100000 0x9030]
      - {..<256} - {unat (0x100000 :: u32) div 4096..<(unat (0x106123 :: u32) + 4095) div 4096}"
    by (rule pmm_init_free_frames [OF sample_chain])
      (simp_all add: sample_entry_def region_sane_def region_end_def MAX_FRAMES_def)
  then show ?thesis by (auto simp: sample_entry_def region_start_def region_end_def)
qed

text \<open>
  More than 128 MB: as soon as one available region reaches past the bitmap,
  \<open>pmm_init\<close> writes outside \<open>bitmap\<close>; there is no check of the frame number against its size.
\<close>

theorem pmm_init_overruns_bitmap:
  assumes "mmap_chain entry mmap_addr (mmap_addr + mmap_length) es" "length es < n"
    and "\<exists>e \<in> set es. overruns e"
  shows "pmm_init n entry mmap_addr mmap_length ks ke = Inl (Undef Out_Of_Bounds)"
  using mmap_loop_past [OF assms(1,2) _ assms(3)] by (simp add: pmm_init_def bitmap_ok_def)

theorem pmm_init_overruns_bitmap_witness:
  "pmm_init 4 (sample_entry 0x10000000) 0x9000 72 0x100000 0x106123 = Inl (Undef Out_Of_Bounds)"
  by (rule pmm_init_overruns_bitmap [OF sample_chain])
    (simp_all add: sample_entry_def overruns_def region_sane_def region_start_def region_end_def MAX_FRAMES_def)

end
