(* ===== verification/Kstring.thy ===== *)
theory Kstring
  imports Decimal
begin

text \<open>
  The byte-level helpers of the kernel (\<^verbatim>\<open>string.c\<close>, \<^verbatim>\<open>itoa.c\<close>, \<open>print_hex\<close> of
  \<^verbatim>\<open>vga.c\<close>) on buffers: lists of bytes whose every access is checked.
\<close>

section \<open>\<open>string.c\<close>\<close>

definition memset :: "u8 list \<Rightarrow> u8 \<Rightarrow> u32 \<Rightarrow> u8 list result" where
  "memset buf v sz = each (\<lambda>i p. arr_set p (int i) v) [0..<unat sz] buf"

definition memcpy :: "u8 list \<Rightarrow> u8 list \<Rightarrow> u32 \<Rightarrow> u8 list result" where
  "memcpy dest src sz =
     each (\<lambda>i d. andthen (arr_get src (int i)) (\<lambda>b. arr_set d (int i) b)) [0..<unat sz] dest"

text \<open>The difference of the first bytes that differ, as \<open>unsigned char\<close>s converted to \<open>int\<close>.\<close>

fun strcmp :: "u8 list \<Rightarrow> u8 list \<Rightarrow> int result" where
  "strcmp (x # xs) (y # ys) = (if x \<noteq> 0 \<and> x = y then strcmp xs ys else Inr (uint x - uint y))"
| "strcmp _ _ = Inl (Undef Out_Of_Bounds)"

section \<open>\<open>itoa.c\<close>\<close>

text \<open>The two loops: digits from the right, then the reversal in place.\<close>

function itoa_digits :: "u32 \<Rightarrow> nat \<Rightarrow> u8 list \<Rightarrow> (nat \<times> u8 list) result" where
  "itoa_digits num dindex buf =
     andthen (arr_set buf (int dindex) (48 + ucast (num mod 10))) (\<lambda>buf.
       let num' = num div 10
       in if num' = 0 then Inr (dindex + 1, buf) else itoa_digits num' (dindex + 1) buf)"
  by pat_completeness auto
termination
proof (relation "measure (\<lambda>(num, dindex, buf). unat num)", goal_cases)
  case (2 num dindex buf buf' num')
  then have "unat num \<noteq> 0" by (auto simp: unat_eq_0)
  with 2 show ?case by (simp add: unat_div)
qed simp

function itoa_reverse :: "int \<Rightarrow> int \<Rightarrow> u8 list \<Rightarrow> u8 list result" where
  "itoa_reverse left right buf =
     (if left < right then
        andthen (arr_get buf left) (\<lambda>temp.
        andthen (arr_get buf right) (\<lambda>r.
        andthen (arr_set buf left r) (\<lambda>buf.
        andthen (arr_set buf right temp) (\<lambda>buf.
          itoa_reverse (left + 1) (right - 1) buf))))
      else Inr buf)"
  by pat_completeness auto
termination by (relation "measure (\<lambda>(left, right, buf). nat (right - left))") auto

declare itoa_digits.simps [simp del] itoa_reverse.simps [simp del]

definition itoa :: "u32 \<Rightarrow> u8 list \<Rightarrow> u8 list result" where
  "itoa num buf =
     andthen (itoa_digits num 0 buf) (\<lambda>(dindex, buf).
     andthen (arr_set buf (int dindex) 0) (\<lambda>buf.
       itoa_reverse 0 (int dindex - 1) buf))"

section \<open>\<open>print_hex\<close>\<close>

definition hex_digit :: "u32 \<Rightarrow> u8" where
  "hex_digit nibble = (if nibble \<le> 9 then 48 + ucast nibble else ucast (nibble - 10) + 65)"

definition print_hex :: "u8 list \<Rightarrow> u32 \<Rightarrow> u8 list result" where
  "print_hex buf num =
     andthen (each (\<lambda>i buf. arr_set buf (7 - int i) (hex_digit (drop_bit (i * 4) num AND 0x0F)))
       [7, 6, 5, 4, 3, 2, 1, 0] buf) (\<lambda>buf. arr_set buf 8 0)"

section \<open>Strings in buffers\<close>

text \<open>The bytes of a text, and a buffer that starts with a NUL-terminated text.\<close>

definition text_bytes :: "string \<Rightarrow> u8 list" where
  "text_bytes s = map of_char s"

definition holds :: "u8 list \<Rightarrow> u8 list \<Rightarrow> bool" where
  "holds buf s \<longleftrightarrow> 0 \<notin> set s \<and> take (length s + 1) buf = s @ [0]"

lemma memset_ok:
  assumes "unat sz \<le> length buf"
  shows "memset buf v sz = Inr (replicate (unat sz) v @ drop (unat sz) buf)"
proof -
  have "each (\<lambda>i p. arr_set p (int i) v) [0..<n] buf = Inr (replicate n v @ drop n buf)" if "n \<le> length buf" for n
    using that
  proof (induction n)
    case (Suc n)
    then have "drop n buf = buf ! n # drop (Suc n) buf" by (simp add: Cons_nth_drop_Suc)
    with Suc show ?case by (simp add: each_append list_update_append replicate_append_same [symmetric])
  qed simp
  with assms show ?thesis by (simp add: memset_def)
qed

lemma memcpy_ok:
  assumes "unat sz \<le> length dest" "unat sz \<le> length src"
  shows "memcpy dest src sz = Inr (take (unat sz) src @ drop (unat sz) dest)"
proof -
  have "each (\<lambda>i d. andthen (arr_get src (int i)) (\<lambda>b. arr_set d (int i) b)) [0..<n] dest =
      Inr (take n src @ drop n dest)" if "n \<le> length dest" "n \<le> length src" for n
    using that
  proof (induction n)
    case (Suc n)
    then have "drop n dest = dest ! n # drop (Suc n) dest" by (simp add: Cons_nth_drop_Suc)
    with Suc show ?case by (simp add: each_append list_update_append take_Suc_conv_app_nth)
  qed simp
  with assms show ?thesis by (simp add: memcpy_def)
qed

lemma strcmp_texts:
  assumes "0 \<notin> set a" "0 \<notin> set b"
  shows "strcmp (a @ 0 # xs) (b @ 0 # ys) = Inr 0 \<longleftrightarrow> a = b"
    "\<exists>d. strcmp (a @ 0 # xs) (b @ 0 # ys) = Inr d"
  using assms
proof (induction a arbitrary: b)
  case Nil
  {
    case 1
    then show ?case by (cases b) (auto simp: uint_0_iff)
  next
    case 2
    then show ?case by (cases b) auto
  }
next
  case (Cons x a)
  {
    case 1
    with Cons.IH(1) show ?case by (cases b) (auto simp: uint_0_iff word_uint_eq_iff [symmetric])
  next
    case 2
    with Cons.IH(2) show ?case by (cases b) auto
  }
qed

section \<open>\<open>itoa\<close> writes decimal numerals\<close>

text \<open>The digits the first loop writes, least significant first.\<close>

lemma digit_char_byte: "d < 10 \<Longrightarrow> (of_char (digit_char d) :: u8) = 48 + of_nat d"
  by (subst of_nat_of_char [symmetric]) simp

lemma dec_bytes_step:
  "10 \<le> n \<Longrightarrow> rev (text_bytes (dec n)) = (48 + of_nat (n mod 10)) # rev (text_bytes (dec (n div 10)))"
  by (simp add: dec_step text_bytes_def digit_char_byte)

lemma dec_bytes_small: "n < 10 \<Longrightarrow> rev (text_bytes (dec n)) = [48 + of_nat n]"
  by (simp add: dec_small text_bytes_def digit_char_byte)

lemma digit_byte: "(48 + ucast (num mod 10) :: u8) = 48 + of_nat (unat num mod 10)" for num :: u32
proof -
  have "(ucast (num mod 10) :: u8) = of_nat (unat (num mod 10))" by simp
  then show ?thesis by (simp only: unat_mod) simp
qed

lemma div10_zero: "num div 10 = 0 \<longleftrightarrow> unat num < 10" for num :: u32
proof -
  have "num div 10 = 0 \<longleftrightarrow> unat (num div 10) = 0" by (simp add: unat_eq_0)
  then show ?thesis by (simp add: unat_div div_eq_0_iff)
qed

lemma itoa_digits_spec:
  assumes "i + length (dec (unat num)) \<le> length buf"
  shows "itoa_digits num i buf = Inr (i + length (dec (unat num)),
    take i buf @ rev (text_bytes (dec (unat num))) @ drop (i + length (dec (unat num))) buf)"
  using assms
proof (induction num i buf rule: itoa_digits.induct)
  case (1 num i buf)
  have pos: "0 < length (dec (unat num))" using dec_nonempty by simp
  have i: "i < length buf" using 1(2) pos by linarith
  let ?b = "48 + ucast (num mod 10) :: u8"
  have set: "arr_set buf (int i) ?b = Inr (buf[i := ?b])" using i by simp
  have upd: "buf[i := ?b] = take i buf @ ?b # drop (Suc i) buf"
    using i by (simp add: upd_conv_take_nth_drop)
  note unroll = itoa_digits.simps [of num i buf]
  show ?case
  proof (cases "unat num < 10")
    case True
    have "?b = 48 + of_nat (unat num)" using digit_byte [of num] True by (simp del: of_nat_unat)
    then have "rev (text_bytes (dec (unat num))) = [?b]" using dec_bytes_small [OF True] by simp
    moreover have "length (dec (unat num)) = 1" by (simp add: dec_small True)
    moreover have "itoa_digits num i buf = Inr (i + 1, buf[i := ?b])"
      using unroll set True by (simp only: div10_zero Let_def andthen_simps simp_thms if_True)
    ultimately show ?thesis using upd by simp
  next
    case False
    then have more: "num div 10 \<noteq> 0" by (simp add: div10_zero)
    have len: "length (dec (unat num)) = Suc (length (dec (unat (num div 10))))"
      using False by (simp add: dec_step unat_div)
    have "itoa_digits (num div 10) (i + 1) (buf[i := ?b]) = Inr (i + 1 + length (dec (unat (num div 10))),
      take (i + 1) (buf[i := ?b]) @ rev (text_bytes (dec (unat (num div 10)))) @
      drop (i + 1 + length (dec (unat (num div 10)))) (buf[i := ?b]))"
      by (rule 1(1) [OF set refl more]) (use 1(2) len in simp)
    moreover have "itoa_digits num i buf = itoa_digits (num div 10) (i + 1) (buf[i := ?b])"
      using unroll set more by (simp add: Let_def)
    moreover have "take (i + 1) (buf[i := ?b]) = take i buf @ [?b]"
      using i by (simp add: take_Suc_conv_app_nth)
    ultimately show ?thesis
      using False by (simp add: len dec_bytes_step digit_byte unat_div)
  qed
qed

lemma itoa_reverse_spec:
  "itoa_reverse (int (length xs)) (int (length xs) + int (length ms) - 1) (xs @ ms @ ys) = Inr (xs @ rev ms @ ys)"
proof (induction "length ms" arbitrary: xs ms ys rule: less_induct)
  case less
  note unroll = itoa_reverse.simps [of "int (length xs)" "int (length xs) + int (length ms) - 1" "xs @ ms @ ys"]
  show ?case
  proof (cases "2 \<le> length ms")
    case False
    then have "rev ms = ms" by (cases ms; cases "tl ms") auto
    with False unroll show ?thesis by simp
  next
    case True
    then obtain a ms' where "ms = a # ms'" by (cases ms) auto
    with True obtain b ks where ms: "ms = a # ks @ [b]" by (cases ms' rule: rev_cases) auto
    have "itoa_reverse (int (length xs) + 1) (int (length xs) + int (length ms) - 1 - 1) ((xs @ [b]) @ ks @ a # ys) =
        Inr ((xs @ [b]) @ rev ks @ a # ys)"
      using less(1) [of ks "xs @ [b]" "a # ys"] ms by (simp add: algebra_simps)
    moreover have "nat (1 + (int (length xs) + int (length ks))) = Suc (length xs + length ks)" by simp
    ultimately show ?thesis
      using unroll ms by (simp add: nth_append list_update_append arr_get_def arr_set_def)
  qed
qed

lemma text_bytes_length [simp]: "length (text_bytes s) = length s"
  by (simp add: text_bytes_def)

lemma dec_bytes_nonzero: "0 \<notin> set (text_bytes (dec n))"
proof (induction n rule: dec.induct)
  case (1 n)
  have d: "(of_char (digit_char k) :: u8) \<noteq> 0" if "k < 10" for k
  proof -
    have "unat (48 + of_nat k :: u8) = 48 + k" using that by (simp add: unat_word_ariths unat_of_nat)
    with that show ?thesis by (auto simp: digit_char_byte simp del: of_nat_unat)
  qed
  show ?case
  proof (cases "n < 10")
    case True
    with d [OF True] show ?thesis by (auto simp: dec_small text_bytes_def)
  next
    case False
    with 1 d [of "n mod 10"] show ?thesis by (auto simp: dec_step text_bytes_def)
  qed
qed

lemma itoa_spec:
  assumes "length (dec (unat num)) < length buf"
  shows "itoa num buf = Inr (text_bytes (dec (unat num)) @ 0 # drop (Suc (length (dec (unat num)))) buf)"
proof -
  let ?ds = "text_bytes (dec (unat num))" and ?k = "length (dec (unat num))"
  have drop: "drop ?k buf = buf ! ?k # drop (Suc ?k) buf" using assms by (simp add: Cons_nth_drop_Suc)
  have "itoa_digits num 0 buf = Inr (?k, rev ?ds @ drop ?k buf)"
    using itoa_digits_spec [of 0 num buf] assms by simp
  moreover have "arr_set (rev ?ds @ drop ?k buf) (int ?k) 0 = Inr (rev ?ds @ 0 # drop (Suc ?k) buf)"
    using assms drop by (simp add: list_update_append arr_set_def)
  moreover have "itoa_reverse 0 (int ?k - 1) (rev ?ds @ 0 # drop (Suc ?k) buf) = Inr (?ds @ 0 # drop (Suc ?k) buf)"
    using itoa_reverse_spec [of "[]" "rev ?ds" "0 # drop (Suc ?k) buf"] by simp
  ultimately show ?thesis by (simp add: itoa_def)
qed

lemma dec_length_u32: "length (dec (unat (num :: u32))) \<le> 10"
proof -
  have "unat num < 2 ^ 32" by (rule order.strict_trans2, rule unsigned_less) simp
  then show ?thesis using dec_length [of "unat num" 9] by simp
qed

lemma itoa_ok:
  assumes "11 \<le> length buf"
  shows "itoa num buf = Inr (text_bytes (dec (unat num)) @ 0 # drop (Suc (length (dec (unat num)))) buf)"
  using dec_length_u32 [of num] assms by (intro itoa_spec) simp

text \<open>
  \<open>itoa\<close> prints: with a buffer of at least 11 bytes it stays inside the buffer and
  leaves the decimal numeral of the number there, NUL-terminated; the rest of the buffer is
  untouched.
\<close>

theorem itoa_decimal:
  assumes "11 \<le> length buf"
  shows "\<exists>buf'. itoa num buf = Inr buf' \<and> holds buf' (text_bytes (dec (unat num))) \<and>
    length buf' = length buf \<and> drop 11 buf' = drop 11 buf"
proof -
  let ?k = "length (dec (unat num))"
  have k: "?k \<le> 10" by (rule dec_length_u32)
  then have "itoa num buf = Inr (text_bytes (dec (unat num)) @ 0 # drop (Suc ?k) buf)"
    using assms by (intro itoa_spec) simp
  moreover have "drop 11 (text_bytes (dec (unat num)) @ 0 # drop (Suc ?k) buf) = drop 11 buf"
  proof -
    have "11 - ?k = Suc (10 - ?k)" "10 - ?k + Suc ?k = 11" using k by simp_all
    then show ?thesis by (simp add: add.commute)
  qed
  ultimately show ?thesis using assms k dec_bytes_nonzero by (simp add: holds_def)
qed

theorem itoa_decimal_witness:
  "\<exists>buf'. itoa 1205 (replicate 32 0) = Inr buf' \<and> holds buf' (text_bytes ''1205'')"
proof -
  have "dec 1205 = ''1205''" by code_simp
  then have "dec (unat (1205 :: u32)) = ''1205''" by simp
  with itoa_decimal [of "replicate 32 0" 1205] show ?thesis by fastforce
qed

end
