(* ===== verification/Fifo.thy ===== *)
theory Fifo
  imports Prelude
begin

text \<open>
  The first-in first-out contract. The kernel implements it four times: the keyboard ring buffer
  and the three linked queues of tasks (ready, dead, waiting for a mutex).
\<close>

datatype 'a queue_op = Enq 'a | Deq

text \<open>What a sequence of operations gives out, and the state after it; the same on lists.\<close>

fun queue_step :: "('a \<Rightarrow> 's \<Rightarrow> 's) \<Rightarrow> ('s \<Rightarrow> 'a option \<times> 's) \<Rightarrow> 'a queue_op \<Rightarrow> 'a list \<times> 's \<Rightarrow> 'a list \<times> 's" where
  "queue_step enq deq (Enq x) (outs, s) = (outs, enq x s)"
| "queue_step enq deq Deq (outs, s) = (case deq s of
     (None, s') \<Rightarrow> (outs, s') | (Some y, s') \<Rightarrow> (outs @ [y], s'))"

fun list_deq :: "'a list \<Rightarrow> 'a option \<times> 'a list" where
  "list_deq [] = (None, [])"
| "list_deq (x # xs) = (Some x, xs)"

definition list_step :: "'a queue_op \<Rightarrow> 'a list \<times> 'a list \<Rightarrow> 'a list \<times> 'a list" where
  "list_step = queue_step (\<lambda>x xs. xs @ [x]) list_deq"

definition inputs :: "'a queue_op list \<Rightarrow> 'a list" where
  "inputs ops = concat (map (\<lambda>c. case c of Enq x \<Rightarrow> [x] | Deq \<Rightarrow> []) ops)"

lemma inputs_simps [simp]:
  "inputs [] = []" "inputs (Enq x # ops) = x # inputs ops" "inputs (Deq # ops) = inputs ops"
  by (simp_all add: inputs_def)

lemma list_step_order:
  "fold list_step ops (outs, xs) = (outs', xs') \<Longrightarrow> outs' @ xs' = outs @ xs @ inputs ops"
proof (induction ops arbitrary: outs xs)
  case (Cons c ops)
  show ?case
  proof (cases c)
    case (Enq x)
    with Cons.prems Cons.IH [of outs "xs @ [x]"] show ?thesis by (simp add: list_step_def)
  next
    case Deq
    with Cons show ?thesis by (cases xs) (auto simp: list_step_def)
  qed
qed simp

text \<open>\<open>okay x xs\<close>: the queue that holds \<open>xs\<close> takes \<open>x\<close> (it has room, or \<open>x\<close> is not in it yet).\<close>

fun okay_ops :: "('a \<Rightarrow> 'a list \<Rightarrow> bool) \<Rightarrow> 'a queue_op list \<Rightarrow> 'a list \<Rightarrow> bool" where
  "okay_ops okay [] xs = True"
| "okay_ops okay (Enq x # ops) xs = (okay x xs \<and> okay_ops okay ops (xs @ [x]))"
| "okay_ops okay (Deq # ops) xs = okay_ops okay ops (tl xs)"

locale fifo =
  fixes enq :: "'a \<Rightarrow> 's \<Rightarrow> 's"
    and deq :: "'s \<Rightarrow> 'a option \<times> 's"
    and rep :: "'s \<Rightarrow> 'a list \<Rightarrow> bool"
    and okay :: "'a \<Rightarrow> 'a list \<Rightarrow> bool"
  assumes enq_rep: "rep s xs \<Longrightarrow> okay x xs \<Longrightarrow> rep (enq x s) (xs @ [x])"
    and deq_rep: "rep s (x # xs) \<Longrightarrow> \<exists>s'. deq s = (Some x, s') \<and> rep s' xs"
    and deq_empty: "rep s [] \<Longrightarrow> deq s = (None, s)"
begin

lemma simulates:
  assumes "rep s xs" "okay_ops okay ops xs"
  shows "\<exists>outs' s' xs'. fold (queue_step enq deq) ops (outs, s) = (outs', s') \<and>
    fold list_step ops (outs, xs) = (outs', xs') \<and> rep s' xs'"
  using assms
proof (induction ops arbitrary: outs s xs)
  case (Cons c ops)
  show ?case
  proof (cases c)
    case (Enq x)
    with Cons.prems enq_rep [of s xs x] Cons.IH [of "enq x s" "xs @ [x]" outs]
    show ?thesis by (simp add: list_step_def)
  next
    case Deq
    show ?thesis
    proof (cases xs)
      case Nil
      with Deq Cons.prems deq_empty [of s] Cons.IH [of s "[]" outs] show ?thesis by (simp add: list_step_def)
    next
      case (Cons y ys)
      then obtain s1 where "deq s = (Some y, s1)" "rep s1 ys" using Cons.prems deq_rep by blast
      with Cons Deq Cons.prems Cons.IH [of s1 ys "outs @ [y]"] show ?thesis by (simp add: list_step_def)
    qed
  qed
qed simp

text \<open>What comes out, followed by what is still in, is what was in, followed by what went in.\<close>

lemma order:
  assumes "rep s xs" "okay_ops okay ops xs"
  shows "\<exists>outs s' xs'. fold (queue_step enq deq) ops ([], s) = (outs, s') \<and> rep s' xs' \<and>
    outs @ xs' = xs @ inputs ops"
proof -
  obtain outs s' xs' where r: "fold (queue_step enq deq) ops ([], s) = (outs, s')"
    "fold list_step ops ([], xs) = (outs, xs')" "rep s' xs'" using simulates [OF assms] by blast
  from list_step_order [OF r(2)] r show ?thesis by auto
qed

lemma drain:
  assumes "rep s xs"
  shows "\<exists>s'. fold (queue_step enq deq) (replicate (length xs) Deq) (outs, s) = (outs @ xs, s') \<and> rep s' []"
  using assms
proof (induction xs arbitrary: outs s)
  case (Cons x xs)
  obtain s1 where "deq s = (Some x, s1)" "rep s1 xs" using deq_rep [OF Cons.prems] by blast
  with Cons.IH [of s1 "outs @ [x]"] show ?case by simp
qed simp

text \<open>Drained after any operations, the queue has given out all that went in, in order.\<close>

lemma order_drained:
  assumes "rep s []" "okay_ops okay ops []"
  shows "\<exists>n s'. fold (queue_step enq deq) (ops @ replicate n Deq) ([], s) = (inputs ops, s') \<and> deq s' = (None, s')"
proof -
  obtain outs s1 xs where r: "fold (queue_step enq deq) ops ([], s) = (outs, s1)" "rep s1 xs" "outs @ xs = inputs ops"
    using order [OF assms] by auto
  from drain [OF r(2), of outs] obtain s2 where
    "fold (queue_step enq deq) (replicate (length xs) Deq) (outs, s1) = (inputs ops, s2)" "rep s2 []"
    using r(3) by auto
  with r(1) deq_empty show ?thesis by (intro exI [of _ "length xs"] exI [of _ s2]) simp
qed

end

end
