(* ===== verification/Keyboard.thy ===== *)
theory Keyboard
  imports Fifo Kstring
begin

text \<open>
  \<^verbatim>\<open>pelikanOS/src/keyboard.c\<close>: the scancode table, the ring buffer between the interrupt handler and
  the shell, and the handler. The scancode read from port 0x60 is an argument.
\<close>

section \<open>State\<close>

definition RINGBUF_SIZE :: nat where
  "RINGBUF_SIZE = 256"

definition scancode_to_ascii :: "u8 list" where
  "scancode_to_ascii =
     [0, 0] @ text_bytes ''1234567890-='' @ [8, 0] @ text_bytes ''qwertyuiop[]'' @ [10, 0] @
     text_bytes ''asdfghjkl;'' @ [39, 96, 0, 92] @ text_bytes ''zxcvbnm,./'' @ [0, 0, 0, 32, 0] @
     replicate 69 0"

record RB =
  rb_data :: "u8 list"
  rb_head :: u32
  rb_tail :: u32
  rb_len :: u32

section \<open>Operations\<close>

definition ringbuf_init :: "RB \<Rightarrow> RB" where
  "ringbuf_init rb = rb\<lparr>rb_head := 0, rb_tail := 0, rb_len := 0\<rparr>"

definition keyboard_init :: "RB \<Rightarrow> RB" where
  "keyboard_init kbd_rb = ringbuf_init kbd_rb"

definition ringbuf_push :: "u8 \<Rightarrow> RB \<Rightarrow> RB" where
  "ringbuf_push byte rb =
     (if rb_len rb = of_nat RINGBUF_SIZE then rb
      else rb\<lparr>rb_data := (rb_data rb)[unat (rb_head rb) := byte],
              rb_head := (rb_head rb + 1) mod of_nat RINGBUF_SIZE,
              rb_len := rb_len rb + 1\<rparr>)"

text \<open>The result 0, or 1 with the byte stored through \<open>out\<close>.\<close>

definition ringbuf_pop :: "RB \<Rightarrow> u8 option \<times> RB" where
  "ringbuf_pop rb =
     (if rb_len rb = 0 then (None, rb)
      else (Some (rb_data rb ! unat (rb_tail rb)),
            rb\<lparr>rb_tail := (rb_tail rb + 1) mod of_nat RINGBUF_SIZE, rb_len := rb_len rb - 1\<rparr>))"

definition kbd_getchar :: "RB \<Rightarrow> u8 option \<times> RB" where
  "kbd_getchar kbd_rb = ringbuf_pop kbd_rb"

definition keyboard_handler :: "u8 \<Rightarrow> RB \<Rightarrow> RB" where
  "keyboard_handler scancode kbd_rb =
     (if scancode AND 0x80 \<noteq> 0 then kbd_rb
      else let key = scancode_to_ascii ! unat scancode
           in if key = 0 then kbd_rb else ringbuf_push key kbd_rb)"

section \<open>The ring buffer is a bounded queue\<close>

text \<open>The bytes held, oldest first; the indices stay inside the array of 256 bytes.\<close>

definition rb_rep :: "RB \<Rightarrow> u8 list \<Rightarrow> bool" where
  "rb_rep rb xs \<longleftrightarrow> length (rb_data rb) = 256 \<and> unat (rb_tail rb) < 256 \<and> unat (rb_len rb) = length xs \<and>
     length xs \<le> 256 \<and> unat (rb_head rb) = (unat (rb_tail rb) + length xs) mod 256 \<and>
     (\<forall>i < length xs. rb_data rb ! ((unat (rb_tail rb) + i) mod 256) = xs ! i)"

lemma next_index:
  assumes "unat (i :: u32) < 256"
  shows "unat ((i + 1) mod of_nat RINGBUF_SIZE) = (unat i + 1) mod 256"
proof -
  have "unat (i + 1) = unat i + 1" using assms unat_plus_u32 [of i 1] by simp
  then show ?thesis by (simp add: RINGBUF_SIZE_def unat_mod)
qed

lemma ringbuf_push_rep:
  assumes "rb_rep rb xs" "length xs < 256"
  shows "rb_rep (ringbuf_push x rb) (xs @ [x])"
proof -
  let ?t = "unat (rb_tail rb)"
  have r: "length (rb_data rb) = 256" "?t < 256" "unat (rb_len rb) = length xs"
    "unat (rb_head rb) = (?t + length xs) mod 256"
    "\<forall>i < length xs. rb_data rb ! ((?t + i) mod 256) = xs ! i" using assms(1) by (simp_all add: rb_rep_def)
  have len: "unat (rb_len rb + 1) = length xs + 1" using r(3) assms(2) unat_plus_u32 [of "rb_len rb" 1] by simp
  have room: "rb_len rb \<noteq> of_nat RINGBUF_SIZE" using r(3) assms(2) by (auto simp: RINGBUF_SIZE_def)
  have head: "unat (rb_head rb) < 256" using r(4) by simp
  have other: "(?t + i) mod 256 \<noteq> (?t + length xs) mod 256" if "i < length xs" for i
  proof
    assume "(?t + i) mod 256 = (?t + length xs) mod 256"
    then have "256 dvd length xs - i"
      using mod_eq_dvd_iff_nat [of "?t + i" "?t + length xs" 256] that by simp
    with that assms(2) dvd_imp_le [of 256 "length xs - i"] show False by simp
  qed
  have new: "(rb_data rb)[unat (rb_head rb) := x] ! ((?t + i) mod 256) = (xs @ [x]) ! i" if "i < Suc (length xs)" for i
  proof (cases "i < length xs")
    case True
    with other [OF True] r show ?thesis by (simp add: nth_append)
  next
    case False
    with that r show ?thesis by (simp add: less_Suc_eq)
  qed
  show ?thesis
    using r len room new next_index [OF head] assms(2)
    by (simp add: rb_rep_def ringbuf_push_def mod_Suc_eq)
qed

lemma ringbuf_push_full:
  assumes "rb_rep rb xs" "length xs = 256"
  shows "ringbuf_push x rb = rb"
proof -
  have "rb_len rb = of_nat RINGBUF_SIZE"
    using assms by (simp add: rb_rep_def RINGBUF_SIZE_def word_unat_eq_iff)
  then show ?thesis by (simp add: ringbuf_push_def)
qed

lemma ringbuf_pop_rep:
  assumes "rb_rep rb (x # xs)"
  shows "\<exists>rb'. ringbuf_pop rb = (Some x, rb') \<and> rb_rep rb' xs"
proof -
  let ?t = "unat (rb_tail rb)"
  have r: "length (rb_data rb) = 256" "?t < 256" "unat (rb_len rb) = Suc (length xs)" "length xs < 256"
    "unat (rb_head rb) = (?t + Suc (length xs)) mod 256"
    "\<forall>i < Suc (length xs). rb_data rb ! ((?t + i) mod 256) = (x # xs) ! i" using assms by (simp_all add: rb_rep_def)
  have nz: "rb_len rb \<noteq> 0" using r(3) by auto
  then have "unat (rb_len rb - 1) = length xs" using r(3) by (simp add: unat_minus_one)
  moreover have "rb_data rb ! ?t = x" using r(2) r(6) [rule_format, of 0] by simp
  moreover have "rb_data rb ! (((?t + 1) mod 256 + i) mod 256) = xs ! i" if "i < length xs" for i
    using r(6) [rule_format, of "Suc i"] that by (simp add: mod_Suc_eq mod_add_left_eq)
  ultimately show ?thesis
    using r nz next_index [OF r(2)] by (simp add: rb_rep_def ringbuf_pop_def mod_add_left_eq mod_Suc_eq)
qed

lemma ringbuf_pop_empty: "rb_rep rb [] \<Longrightarrow> ringbuf_pop rb = (None, rb)"
  by (simp add: rb_rep_def ringbuf_pop_def unat_eq_0)

interpretation kbd: fifo ringbuf_push ringbuf_pop rb_rep "\<lambda>x xs. length xs < 256"
  by unfold_locales (simp_all add: ringbuf_push_rep ringbuf_pop_rep ringbuf_pop_empty)

section \<open>Typing\<close>

text \<open>The byte a scancode stands for: none for a release or an unmapped key.\<close>

definition key_of :: "u8 \<Rightarrow> u8 option" where
  "key_of c = (if c AND 0x80 = 0 \<and> scancode_to_ascii ! unat c \<noteq> 0 then Some (scancode_to_ascii ! unat c) else None)"

definition typed :: "u8 list \<Rightarrow> u8 list" where
  "typed cs = concat (map (\<lambda>c. case key_of c of Some k \<Rightarrow> [k] | None \<Rightarrow> []) cs)"

lemma typed_simps [simp]:
  "typed [] = []" "typed (c # cs) = (case key_of c of Some k \<Rightarrow> k # typed cs | None \<Rightarrow> typed cs)"
  by (simp_all add: typed_def split: option.splits)

lemma table_length: "length scancode_to_ascii = 128"
  by (simp add: scancode_to_ascii_def)

lemma press_in_table: "c AND 0x80 = 0 \<Longrightarrow> unat (c :: u8) < 128"
proof -
  assume "c AND 0x80 = 0"
  then have "\<not> bit c 7" using bit_test_u8 [of 7 c] by simp
  then have "take_bit 7 c = c"
    by (intro bit_word_eqI) (auto simp: bit_take_bit_iff less_Suc_eq eval_nat_numeral not_less)
  then have "unat c = take_bit 7 (unat c)" by (metis unsigned_take_bit_eq)
  also have "\<dots> < 2 ^ 7" by (rule take_bit_nat_less_exp)
  finally show ?thesis by simp
qed

lemma keyboard_handler_key: "keyboard_handler c rb = (case key_of c of None \<Rightarrow> rb | Some k \<Rightarrow> ringbuf_push k rb)"
  by (simp add: keyboard_handler_def key_of_def Let_def)

lemma handler_rep:
  assumes "rb_rep rb xs"
  shows "rb_rep (fold keyboard_handler cs rb) (take 256 (xs @ typed cs))"
  using assms
proof (induction cs arbitrary: rb xs)
  case Nil
  then show ?case by (simp add: rb_rep_def)
next
  case (Cons c cs)
  show ?case
  proof (cases "key_of c")
    case None
    with Cons show ?thesis by (simp add: keyboard_handler_key)
  next
    case (Some k)
    show ?thesis
    proof (cases "length xs < 256")
      case True
      with Cons.IH [OF ringbuf_push_rep [OF Cons.prems True]] Some show ?thesis
        by (simp add: keyboard_handler_key)
    next
      case False
      then have "length xs = 256" using Cons.prems by (simp add: rb_rep_def)
      then have "take 256 (xs @ ys) = xs" for ys by simp
      with Cons.IH [OF Cons.prems] Some ringbuf_push_full [OF Cons.prems \<open>length xs = 256\<close>] show ?thesis
        by (simp only: fold_Cons comp_def keyboard_handler_key option.case)
    qed
  qed
qed

lemma init_rep: "length (rb_data rb) = 256 \<Longrightarrow> rb_rep (keyboard_init rb) []"
  by (simp add: rb_rep_def keyboard_init_def ringbuf_init_def)

text \<open>
  Property C13. Type-ahead: after \<open>keyboard_init\<close> and any sequence of scancode interrupts, the calls
  of \<open>kbd_getchar\<close> give the characters of the pressed mapped keys in the order they were typed (the
  first 256 of them, later ones are dropped), and then report an empty buffer. Key releases and
  unmapped keys leave no trace, and every scancode indexes inside the table.
\<close>

theorem keyboard_type_ahead:
  assumes "length (rb_data rb) = 256"
  shows "\<exists>rb'. fold (queue_step ringbuf_push kbd_getchar) (replicate (length (take 256 (typed cs))) Deq)
      ([], fold keyboard_handler cs (keyboard_init rb)) = (take 256 (typed cs), rb') \<and>
    kbd_getchar rb' = (None, rb') \<and>
    list_all (\<lambda>c. c AND 0x80 \<noteq> 0 \<or> unat c < length scancode_to_ascii) cs"
proof -
  have rep: "rb_rep (fold keyboard_handler cs (keyboard_init rb)) (take 256 (typed cs))"
    using handler_rep [OF init_rep [OF assms], of cs] by simp
  have "kbd_getchar = ringbuf_pop" by (rule ext) (simp add: kbd_getchar_def)
  with kbd.drain [OF rep, of "[]"] ringbuf_pop_empty press_in_table show ?thesis
    by (fastforce simp: list_all_iff table_length)
qed

text \<open>Pressing and releasing h, i.\<close>

theorem keyboard_type_ahead_witness:
  "\<exists>rb'. fold (queue_step ringbuf_push kbd_getchar) [Deq, Deq]
      ([], fold keyboard_handler [0x23, 0xA3, 0x17, 0x97]
        (keyboard_init \<lparr>rb_data = replicate 256 0, rb_head = 3, rb_tail = 1, rb_len = 2\<rparr>)) =
      (text_bytes ''hi'', rb') \<and> kbd_getchar rb' = (None, rb')"
proof -
  have t: "typed [0x23, 0xA3, 0x17, 0x97] = text_bytes ''hi''" by code_simp
  then have l: "length (take 256 (typed [0x23, 0xA3, 0x17, 0x97])) = 2" by simp
  have two: "[Deq, Deq] = replicate 2 Deq" by (simp add: numeral_2_eq_2)
  have short: "take 256 (text_bytes ''hi'') = text_bytes ''hi''" by simp
  show ?thesis unfolding two
    using keyboard_type_ahead [of "\<lparr>rb_data = replicate 256 0, rb_head = 3, rb_tail = 1, rb_len = 2\<rparr>"
        "[0x23, 0xA3, 0x17, 0x97]"] unfolding l unfolding t short
    by auto
qed

end
