(* ===== verification/Chains.thy ===== *)
theory Chains
  imports Prelude
begin

text \<open>
  Linked lists in memory: the addresses reached from a pointer along a link field, up to the null
  pointer. The task queues and both heap allocators keep their elements this way.
\<close>

section \<open>Chains\<close>

text \<open>\<open>xs\<close> are the addresses from \<open>p\<close> on along \<open>nx\<close>, up to the null pointer.\<close>

fun chain :: "('p \<Rightarrow> 'p) \<Rightarrow> 'p \<Rightarrow> ('p :: zero) list \<Rightarrow> bool" where
  "chain nx p [] \<longleftrightarrow> p = 0"
| "chain nx p (x # xs) \<longleftrightarrow> p = x \<and> x \<noteq> 0 \<and> chain nx (nx x) xs"

lemma chain_null: "chain nx p xs \<Longrightarrow> 0 \<notin> set xs"
  by (induction xs arbitrary: p) auto

lemma chain_cong: "chain nx p xs \<Longrightarrow> (\<And>x. x \<in> set xs \<Longrightarrow> ny x = nx x) \<Longrightarrow> chain ny p xs"
  by (induction xs arbitrary: p) auto

lemma chain_snoc:
  "chain nx p (xs @ [z]) \<Longrightarrow> distinct (xs @ [z]) \<Longrightarrow> t \<noteq> 0 \<Longrightarrow> t \<notin> set (xs @ [z]) \<Longrightarrow>
    chain (nx(t := 0, z := t)) p (xs @ [z, t])"
proof (induction xs arbitrary: p)
  case (Cons x xs)
  then show ?case by auto
qed auto

lemma chain_unique: "chain nx p xs \<Longrightarrow> chain nx p ys \<Longrightarrow> xs = ys"
proof (induction xs arbitrary: p ys)
  case Nil
  then show ?case by (cases ys) auto
next
  case (Cons x xs)
  then show ?case by (cases ys) auto
qed

text \<open>A chain after a change of the links behind the element \<open>c\<close>.\<close>

lemma chain_suffix: "chain nx p (pre @ c # post) \<Longrightarrow> c \<noteq> 0 \<and> chain nx (nx c) post"
  by (induction pre arbitrary: p) auto

lemma chain_replace:
  assumes "chain nx p (pre @ c # post)" "\<And>x. x \<in> set pre \<Longrightarrow> ny x = nx x" "chain ny (ny c) post'"
  shows "chain ny p (pre @ c # post')"
  using assms by (induction pre arbitrary: p) auto

section \<open>Chains with a tail pointer\<close>

definition linked :: "('p \<Rightarrow> 'p) \<Rightarrow> 'p \<Rightarrow> 'p \<Rightarrow> ('p :: zero) list \<Rightarrow> bool" where
  "linked nx hd_ptr tl_ptr xs \<longleftrightarrow> chain nx hd_ptr xs \<and> distinct xs \<and> (xs \<noteq> [] \<longrightarrow> tl_ptr = last xs)"

lemma linked_empty: "linked nx h t xs \<Longrightarrow> h = 0 \<longleftrightarrow> xs = []"
  by (cases xs) (auto simp: linked_def)

lemma linked_frame: "linked nx h t xs \<Longrightarrow> (\<And>x. x \<in> set xs \<Longrightarrow> ny x = nx x) \<Longrightarrow> linked ny h t xs"
  unfolding linked_def using chain_cong by blast

lemma linked_first: "t \<noteq> 0 \<Longrightarrow> linked (nx(t := 0)) t t [t]"
  by (simp add: linked_def)

lemma linked_snoc:
  assumes "linked nx h z xs" "xs \<noteq> []" "t \<noteq> 0" "t \<notin> set xs"
  shows "linked (nx(t := 0, z := t)) h t (xs @ [t])"
proof -
  obtain ys where "xs = ys @ [z]" using assms(1,2) by (metis append_butlast_last_id linked_def)
  with assms chain_snoc [of nx h ys z t] show ?thesis by (auto simp: linked_def)
qed

lemma linked_rest:
  assumes "linked nx h z (x # xs)"
  shows "h = x" "x \<noteq> 0" "nx x = 0 \<longleftrightarrow> xs = []" "linked (nx(x := 0)) (nx x) (if xs = [] then 0 else z) xs"
proof -
  have c: "h = x" "x \<noteq> 0" "chain nx (nx x) xs" "x \<notin> set xs" "distinct xs" "z = last (x # xs)"
    using assms by (auto simp: linked_def)
  then show "h = x" "x \<noteq> 0" by simp_all
  show "nx x = 0 \<longleftrightarrow> xs = []" using c(3) by (cases xs) auto
  have "chain (nx(x := 0)) (nx x) xs" using c(3,4) by (auto intro: chain_cong)
  with c show "linked (nx(x := 0)) (nx x) (if xs = [] then 0 else z) xs" by (simp add: linked_def)
qed

end
