(* ===== verification/Tasks.thy ===== *)
theory Tasks
  imports Fifo Chains
begin

text \<open>
  Task structures and the lists they are on (\<^verbatim>\<open>scheduler.c\<close>, \<^verbatim>\<open>mutex_lock.c\<close>): the ready queue,
  the dead queue and the wait queue of a mutex, each threaded through a pointer field of its own,
  and the circular list of all tasks. A pointer is its address, 0 is the null pointer, and the
  store gives the structure at an address.
\<close>

section \<open>Data\<close>

definition TASK_BLOCKED :: u8 where "TASK_BLOCKED = 0"
definition TASK_READY :: u8 where "TASK_READY = 1"
definition TASK_RUNNING :: u8 where "TASK_RUNNING = 2"
definition TASK_DEAD :: u8 where "TASK_DEAD = 3"

lemmas task_states = TASK_BLOCKED_def TASK_READY_def TASK_RUNNING_def TASK_DEAD_def

record task_t =
  t_ESP :: u32
  t_EIP :: u32
  t_page_directory :: u32
  t_state :: u8
  t_stack_base :: u32
  t_id :: u32
  t_next :: u32
  t_prev :: u32
  t_ready_next :: u32
  t_mutex_wait_next :: u32
  t_dead_next :: u32

type_synonym store = "u32 \<Rightarrow> task_t"

record rd_q =
  queue_head :: u32
  queue_tail :: u32

record dd_q =
  dead_head :: u32
  dead_tail :: u32

record mutex_t =
  m_locked :: int
  m_holder :: u32
  m_queue_head :: u32
  m_queue_tail :: u32

text \<open>\<open>p->f = ...\<close>\<close>

definition at_ptr :: "u32 \<Rightarrow> (task_t \<Rightarrow> task_t) \<Rightarrow> store \<Rightarrow> store" where
  "at_ptr p f h = h(p := f (h p))"

section \<open>The ready queue\<close>

definition isempty_ready_queue :: "rd_q \<Rightarrow> bool" where
  "isempty_ready_queue q \<longleftrightarrow> queue_head q = 0"

definition add_task_to_ready_queue :: "u32 \<Rightarrow> rd_q \<times> store \<Rightarrow> rd_q \<times> store" where
  "add_task_to_ready_queue task s = (case s of (q, h) \<Rightarrow>
     let h = at_ptr task (t_ready_next_update (\<lambda>_. 0)) h
     in if \<not> isempty_ready_queue q
        then (q\<lparr>queue_tail := task\<rparr>, at_ptr (queue_tail q) (t_ready_next_update (\<lambda>_. task)) h)
        else (q\<lparr>queue_head := task, queue_tail := task\<rparr>, h))"

definition remove_task_from_ready_queue :: "rd_q \<times> store \<Rightarrow> u32 \<times> rd_q \<times> store" where
  "remove_task_from_ready_queue s = (case s of (q, h) \<Rightarrow>
     if isempty_ready_queue q then (0, q, h)
     else let task = queue_head q;
              q = (if t_ready_next (h task) = 0 then q\<lparr>queue_head := 0, queue_tail := 0\<rparr>
                   else q\<lparr>queue_head := t_ready_next (h task)\<rparr>)
          in (task, q, at_ptr task (t_ready_next_update (\<lambda>_. 0)) h))"

section \<open>The dead queue\<close>

definition isempty_dead_queue :: "dd_q \<Rightarrow> bool" where
  "isempty_dead_queue q \<longleftrightarrow> dead_head q = 0"

definition add_task_to_dead_queue :: "u32 \<Rightarrow> dd_q \<times> store \<Rightarrow> dd_q \<times> store" where
  "add_task_to_dead_queue task s = (case s of (q, h) \<Rightarrow>
     let h = at_ptr task (t_dead_next_update (\<lambda>_. 0)) h
     in if \<not> isempty_dead_queue q
        then (q\<lparr>dead_tail := task\<rparr>, at_ptr (dead_tail q) (t_dead_next_update (\<lambda>_. task)) h)
        else (q\<lparr>dead_head := task, dead_tail := task\<rparr>, h))"

definition remove_task_from_dead_queue :: "dd_q \<times> store \<Rightarrow> u32 \<times> dd_q \<times> store" where
  "remove_task_from_dead_queue s = (case s of (q, h) \<Rightarrow>
     if isempty_dead_queue q then (0, q, h)
     else let task = dead_head q;
              q = (if t_dead_next (h task) = 0 then q\<lparr>dead_head := 0, dead_tail := 0\<rparr>
                   else q\<lparr>dead_head := t_dead_next (h task)\<rparr>)
          in (task, q, at_ptr task (t_dead_next_update (\<lambda>_. 0)) h))"

section \<open>The wait queue of a mutex\<close>

definition isempty_wait_queue :: "mutex_t \<Rightarrow> bool" where
  "isempty_wait_queue lock \<longleftrightarrow> m_queue_head lock = 0"

definition add_task_to_mutex_queue :: "u32 \<Rightarrow> mutex_t \<times> store \<Rightarrow> mutex_t \<times> store" where
  "add_task_to_mutex_queue task s = (case s of (lock, h) \<Rightarrow>
     let h = at_ptr task (t_mutex_wait_next_update (\<lambda>_. 0)) h
     in if \<not> isempty_wait_queue lock
        then (lock\<lparr>m_queue_tail := task\<rparr>, at_ptr (m_queue_tail lock) (t_mutex_wait_next_update (\<lambda>_. task)) h)
        else (lock\<lparr>m_queue_head := task, m_queue_tail := task\<rparr>, h))"

definition remove_task_from_mutex_queue :: "mutex_t \<times> store \<Rightarrow> u32 \<times> mutex_t \<times> store" where
  "remove_task_from_mutex_queue s = (case s of (lock, h) \<Rightarrow>
     if isempty_wait_queue lock then (0, lock, h)
     else let task = m_queue_head lock;
              lock = (if t_mutex_wait_next (h task) = 0 then lock\<lparr>m_queue_head := 0, m_queue_tail := 0\<rparr>
                   else lock\<lparr>m_queue_head := t_mutex_wait_next (h task)\<rparr>)
          in (task, lock, at_ptr task (t_mutex_wait_next_update (\<lambda>_. 0)) h))"

section \<open>The circular list of all tasks\<close>

text \<open>The state is \<open>last_inserted\<close> with the store.\<close>

definition insert_task :: "u32 \<Rightarrow> u32 \<times> store \<Rightarrow> u32 \<times> store" where
  "insert_task task s = (case s of (last_inserted, h) \<Rightarrow>
     (task,
      if last_inserted \<noteq> 0 then
        (let h = at_ptr task (t_next_update (\<lambda>_. t_next (h last_inserted))) h;
             h = at_ptr task (t_prev_update (\<lambda>_. last_inserted)) h;
             h = at_ptr (t_next (h last_inserted)) (t_prev_update (\<lambda>_. task)) h
         in at_ptr last_inserted (t_next_update (\<lambda>_. task)) h)
      else
        (let h = at_ptr task (t_next_update (\<lambda>_. task)) h
         in at_ptr task (t_prev_update (\<lambda>_. task)) h)))"

definition remove_task_from_circular_list :: "u32 \<Rightarrow> u32 \<times> store \<Rightarrow> u32 \<times> store" where
  "remove_task_from_circular_list task s = (case s of (last_inserted, h) \<Rightarrow>
     let (last_inserted, h) =
           (if t_next (h task) = task then (0, h)
            else (let h = at_ptr (t_prev (h task)) (t_next_update (\<lambda>_. t_next (h task))) h;
                      h = at_ptr (t_next (h task)) (t_prev_update (\<lambda>_. t_prev (h task))) h
                  in (if last_inserted = task then t_next (h task) else last_inserted, h)));
         h = at_ptr task (t_next_update (\<lambda>_. 0)) h
     in (last_inserted, at_ptr task (t_prev_update (\<lambda>_. 0)) h))"

section \<open>One field of the store\<close>

text \<open>A field as a function of the address, after an assignment to it and to another field.\<close>

lemma at_ptr_state [simp]:
  "(\<lambda>x. t_state (at_ptr p (t_state_update (\<lambda>_. b)) h x)) = (\<lambda>x. t_state (h x))(p := b)"
  "(\<lambda>x. t_state (at_ptr p (t_next_update (\<lambda>_. v)) h x)) = (\<lambda>x. t_state (h x))"
  "(\<lambda>x. t_state (at_ptr p (t_prev_update (\<lambda>_. v)) h x)) = (\<lambda>x. t_state (h x))"
  "(\<lambda>x. t_state (at_ptr p (t_ready_next_update (\<lambda>_. v)) h x)) = (\<lambda>x. t_state (h x))"
  "(\<lambda>x. t_state (at_ptr p (t_mutex_wait_next_update (\<lambda>_. v)) h x)) = (\<lambda>x. t_state (h x))"
  "(\<lambda>x. t_state (at_ptr p (t_dead_next_update (\<lambda>_. v)) h x)) = (\<lambda>x. t_state (h x))"
  by (auto simp: at_ptr_def)

lemma at_ptr_next [simp]:
  "(\<lambda>x. t_next (at_ptr p (t_next_update (\<lambda>_. v)) h x)) = (\<lambda>x. t_next (h x))(p := v)"
  "(\<lambda>x. t_next (at_ptr p (t_state_update (\<lambda>_. b)) h x)) = (\<lambda>x. t_next (h x))"
  "(\<lambda>x. t_next (at_ptr p (t_prev_update (\<lambda>_. v)) h x)) = (\<lambda>x. t_next (h x))"
  "(\<lambda>x. t_next (at_ptr p (t_ready_next_update (\<lambda>_. v)) h x)) = (\<lambda>x. t_next (h x))"
  "(\<lambda>x. t_next (at_ptr p (t_mutex_wait_next_update (\<lambda>_. v)) h x)) = (\<lambda>x. t_next (h x))"
  "(\<lambda>x. t_next (at_ptr p (t_dead_next_update (\<lambda>_. v)) h x)) = (\<lambda>x. t_next (h x))"
  by (auto simp: at_ptr_def)

lemma at_ptr_prev [simp]:
  "(\<lambda>x. t_prev (at_ptr p (t_prev_update (\<lambda>_. v)) h x)) = (\<lambda>x. t_prev (h x))(p := v)"
  "(\<lambda>x. t_prev (at_ptr p (t_state_update (\<lambda>_. b)) h x)) = (\<lambda>x. t_prev (h x))"
  "(\<lambda>x. t_prev (at_ptr p (t_next_update (\<lambda>_. v)) h x)) = (\<lambda>x. t_prev (h x))"
  "(\<lambda>x. t_prev (at_ptr p (t_ready_next_update (\<lambda>_. v)) h x)) = (\<lambda>x. t_prev (h x))"
  "(\<lambda>x. t_prev (at_ptr p (t_mutex_wait_next_update (\<lambda>_. v)) h x)) = (\<lambda>x. t_prev (h x))"
  "(\<lambda>x. t_prev (at_ptr p (t_dead_next_update (\<lambda>_. v)) h x)) = (\<lambda>x. t_prev (h x))"
  by (auto simp: at_ptr_def)

lemma at_ptr_ready_next [simp]:
  "(\<lambda>x. t_ready_next (at_ptr p (t_ready_next_update (\<lambda>_. v)) h x)) = (\<lambda>x. t_ready_next (h x))(p := v)"
  "(\<lambda>x. t_ready_next (at_ptr p (t_state_update (\<lambda>_. b)) h x)) = (\<lambda>x. t_ready_next (h x))"
  "(\<lambda>x. t_ready_next (at_ptr p (t_next_update (\<lambda>_. v)) h x)) = (\<lambda>x. t_ready_next (h x))"
  "(\<lambda>x. t_ready_next (at_ptr p (t_prev_update (\<lambda>_. v)) h x)) = (\<lambda>x. t_ready_next (h x))"
  "(\<lambda>x. t_ready_next (at_ptr p (t_mutex_wait_next_update (\<lambda>_. v)) h x)) = (\<lambda>x. t_ready_next (h x))"
  "(\<lambda>x. t_ready_next (at_ptr p (t_dead_next_update (\<lambda>_. v)) h x)) = (\<lambda>x. t_ready_next (h x))"
  by (auto simp: at_ptr_def)

lemma at_ptr_mutex_wait_next [simp]:
  "(\<lambda>x. t_mutex_wait_next (at_ptr p (t_mutex_wait_next_update (\<lambda>_. v)) h x)) = (\<lambda>x. t_mutex_wait_next (h x))(p := v)"
  "(\<lambda>x. t_mutex_wait_next (at_ptr p (t_state_update (\<lambda>_. b)) h x)) = (\<lambda>x. t_mutex_wait_next (h x))"
  "(\<lambda>x. t_mutex_wait_next (at_ptr p (t_next_update (\<lambda>_. v)) h x)) = (\<lambda>x. t_mutex_wait_next (h x))"
  "(\<lambda>x. t_mutex_wait_next (at_ptr p (t_prev_update (\<lambda>_. v)) h x)) = (\<lambda>x. t_mutex_wait_next (h x))"
  "(\<lambda>x. t_mutex_wait_next (at_ptr p (t_ready_next_update (\<lambda>_. v)) h x)) = (\<lambda>x. t_mutex_wait_next (h x))"
  "(\<lambda>x. t_mutex_wait_next (at_ptr p (t_dead_next_update (\<lambda>_. v)) h x)) = (\<lambda>x. t_mutex_wait_next (h x))"
  by (auto simp: at_ptr_def)

lemma at_ptr_dead_next [simp]:
  "(\<lambda>x. t_dead_next (at_ptr p (t_dead_next_update (\<lambda>_. v)) h x)) = (\<lambda>x. t_dead_next (h x))(p := v)"
  "(\<lambda>x. t_dead_next (at_ptr p (t_state_update (\<lambda>_. b)) h x)) = (\<lambda>x. t_dead_next (h x))"
  "(\<lambda>x. t_dead_next (at_ptr p (t_next_update (\<lambda>_. v)) h x)) = (\<lambda>x. t_dead_next (h x))"
  "(\<lambda>x. t_dead_next (at_ptr p (t_prev_update (\<lambda>_. v)) h x)) = (\<lambda>x. t_dead_next (h x))"
  "(\<lambda>x. t_dead_next (at_ptr p (t_ready_next_update (\<lambda>_. v)) h x)) = (\<lambda>x. t_dead_next (h x))"
  "(\<lambda>x. t_dead_next (at_ptr p (t_mutex_wait_next_update (\<lambda>_. v)) h x)) = (\<lambda>x. t_dead_next (h x))"
  by (auto simp: at_ptr_def)

section \<open>The three queues keep the contract\<close>

text \<open>
  A linked queue seen as its link function, head and tail; what adding at the end and removing the
  head do to this view.
\<close>

definition link_enq :: "u32 \<Rightarrow> (u32 \<Rightarrow> u32) \<times> u32 \<times> u32 \<Rightarrow> (u32 \<Rightarrow> u32) \<times> u32 \<times> u32" where
  "link_enq p v = (case v of (nx, h, t) \<Rightarrow> if h \<noteq> 0 then (nx(p := 0, t := p), h, p) else (nx(p := 0), p, p))"

definition link_rest :: "(u32 \<Rightarrow> u32) \<times> u32 \<times> u32 \<Rightarrow> (u32 \<Rightarrow> u32) \<times> u32 \<times> u32" where
  "link_rest v = (case v of (nx, h, t) \<Rightarrow> (nx(h := 0), nx h, if nx h = 0 then 0 else t))"

definition ptr_opt :: "u32 \<Rightarrow> u32 option" where
  "ptr_opt p = (if p = 0 then None else Some p)"

definition taking :: "('s \<Rightarrow> u32 \<times> 's) \<Rightarrow> 's \<Rightarrow> u32 option \<times> 's" where
  "taking remove s = (case remove s of (p, s') \<Rightarrow> (ptr_opt p, s'))"

definition holds_list :: "('s \<Rightarrow> (u32 \<Rightarrow> u32) \<times> u32 \<times> u32) \<Rightarrow> 's \<Rightarrow> u32 list \<Rightarrow> bool" where
  "holds_list view s xs \<longleftrightarrow> (case view s of (nx, h, t) \<Rightarrow> linked nx h t xs)"

locale linked_queue =
  fixes add :: "u32 \<Rightarrow> 's \<Rightarrow> 's"
    and remove :: "'s \<Rightarrow> u32 \<times> 's"
    and view :: "'s \<Rightarrow> (u32 \<Rightarrow> u32) \<times> u32 \<times> u32"
  assumes view_add: "view (add p s) = link_enq p (view s)"
    and remove_none: "fst (snd (view s)) = 0 \<Longrightarrow> remove s = (0, s)"
    and remove_some: "fst (snd (view s)) \<noteq> 0 \<Longrightarrow> fst (remove s) = fst (snd (view s))"
    and view_remove: "fst (snd (view s)) \<noteq> 0 \<Longrightarrow> view (snd (remove s)) = link_rest (view s)"

sublocale linked_queue \<subseteq> queue: fifo add "taking remove" "holds_list view" "\<lambda>p xs. p \<noteq> 0 \<and> p \<notin> set xs"
proof unfold_locales
  fix s xs p
  assume s: "holds_list view s xs" and p: "p \<noteq> 0 \<and> p \<notin> set xs"
  obtain nx h t where v: "view s = (nx, h, t)" by (cases "view s")
  then have l: "linked nx h t xs" using s by (simp add: holds_list_def)
  with p linked_snoc [OF l] linked_empty [OF l] linked_first [of p nx]
  show "holds_list view (add p s) (xs @ [p])"
    by (cases "xs = []") (simp_all add: holds_list_def view_add v link_enq_def)
next
  fix s x xs
  assume s: "holds_list view s (x # xs)"
  obtain nx h t where v: "view s = (nx, h, t)" by (cases "view s")
  then have l: "linked nx h t (x # xs)" using s by (simp add: holds_list_def)
  obtain p s' where r: "remove s = (p, s')" by (cases "remove s")
  with remove_some [of s] view_remove [of s] v linked_rest [OF l]
  show "\<exists>s'. taking remove s = (Some x, s') \<and> holds_list view s' xs"
    by (cases "xs = []") (simp_all add: taking_def ptr_opt_def holds_list_def link_rest_def)
next
  fix s
  assume s: "holds_list view s []"
  then have "fst (snd (view s)) = 0" by (auto simp: holds_list_def linked_def split: prod.splits)
  from remove_none [OF this] show "taking remove s = (None, s)" by (simp add: taking_def ptr_opt_def)
qed

definition ready_view :: "rd_q \<times> store \<Rightarrow> (u32 \<Rightarrow> u32) \<times> u32 \<times> u32" where
  "ready_view s = (\<lambda>p. t_ready_next (snd s p), queue_head (fst s), queue_tail (fst s))"

interpretation ready: linked_queue add_task_to_ready_queue remove_task_from_ready_queue ready_view
  by unfold_locales
    (auto simp: ready_view_def add_task_to_ready_queue_def remove_task_from_ready_queue_def isempty_ready_queue_def Let_def link_enq_def link_rest_def)

definition dead_view :: "dd_q \<times> store \<Rightarrow> (u32 \<Rightarrow> u32) \<times> u32 \<times> u32" where
  "dead_view s = (\<lambda>p. t_dead_next (snd s p), dead_head (fst s), dead_tail (fst s))"

interpretation dead: linked_queue add_task_to_dead_queue remove_task_from_dead_queue dead_view
  by unfold_locales
    (auto simp: dead_view_def add_task_to_dead_queue_def remove_task_from_dead_queue_def isempty_dead_queue_def Let_def link_enq_def link_rest_def)

definition waiting_view :: "mutex_t \<times> store \<Rightarrow> (u32 \<Rightarrow> u32) \<times> u32 \<times> u32" where
  "waiting_view s = (\<lambda>p. t_mutex_wait_next (snd s p), m_queue_head (fst s), m_queue_tail (fst s))"

interpretation waiting: linked_queue add_task_to_mutex_queue remove_task_from_mutex_queue waiting_view
  by unfold_locales
    (auto simp: waiting_view_def add_task_to_mutex_queue_def remove_task_from_mutex_queue_def isempty_wait_queue_def Let_def link_enq_def link_rest_def)

section \<open>The circular list\<close>

text \<open>Neighbours in the list are linked both ways; in a ring the last is linked to the first.\<close>

fun dlinks :: "(u32 \<Rightarrow> u32) \<Rightarrow> (u32 \<Rightarrow> u32) \<Rightarrow> u32 list \<Rightarrow> bool" where
  "dlinks nx pv (x # y # zs) \<longleftrightarrow> nx x = y \<and> pv y = x \<and> dlinks nx pv (y # zs)"
| "dlinks nx pv _ \<longleftrightarrow> True"

definition ring :: "store \<Rightarrow> u32 \<Rightarrow> u32 list \<Rightarrow> bool" where
  "ring h last_inserted xs \<longleftrightarrow> 0 \<notin> set xs \<and> distinct xs \<and>
     (if xs = [] then last_inserted = 0
      else last_inserted = last xs \<and> dlinks (\<lambda>p. t_next (h p)) (\<lambda>p. t_prev (h p)) (xs @ [hd xs]))"

lemma dlinks_append:
  "dlinks nx pv (xs @ y # zs) \<longleftrightarrow> dlinks nx pv (xs @ [y]) \<and> dlinks nx pv (y # zs)"
proof (induction xs)
  case (Cons x xs)
  then show ?case by (cases xs) auto
qed simp

lemma dlinks_cong:
  assumes "dlinks nx pv xs" "\<And>x. x \<in> set (butlast xs) \<Longrightarrow> ny x = nx x" "\<And>x. x \<in> set (tl xs) \<Longrightarrow> py x = pv x"
  shows "dlinks ny py xs"
  using assms by (induction nx pv xs rule: dlinks.induct) (auto split: if_splits)

lemma ring_insert:
  assumes "ring h l xs" "t \<noteq> 0" "t \<notin> set xs" "insert_task t (l, h) = (l', h')"
  shows "ring h' l' (xs @ [t])"
proof (cases "xs = []")
  case True
  then have "l = 0" using assms(1) by (simp add: ring_def)
  with assms True show ?thesis by (auto simp: ring_def insert_task_def Let_def at_ptr_def)
next
  case False
  then obtain ys where xs: "xs = ys @ [l]" using assms(1) by (metis append_butlast_last_id ring_def)
  let ?nx = "\<lambda>p. t_next (h p)" and ?pv = "\<lambda>p. t_prev (h p)"
  define a where "a = hd xs"
  have r: "0 \<notin> set xs" "distinct xs" "dlinks ?nx ?pv (xs @ [a])" "l \<noteq> 0"
    using assms(1) False xs by (auto simp: ring_def a_def)
  have d: "dlinks ?nx ?pv (ys @ [l])" "?nx l = a" "?pv a = l"
    using r(3) dlinks_append [of ?nx ?pv ys l "[a]"] xs by simp_all
  have h': "l' = t" "(\<lambda>p. t_next (h' p)) = ?nx(t := a, l := t)" "(\<lambda>p. t_prev (h' p)) = ?pv(t := l, a := t)"
  proof -
    have "l \<noteq> t" using assms(3) xs by auto
    then have "t_next (at_ptr t (t_prev_update (\<lambda>_. l)) (at_ptr t (t_next_update (\<lambda>_. a)) h) l) = a"
      using d(2) by (simp add: at_ptr_def)
    with assms(4) r(4) d(2) have *: "l' = t" "h' = at_ptr l (t_next_update (\<lambda>_. t)) (at_ptr a (t_prev_update (\<lambda>_. t))
        (at_ptr t (t_prev_update (\<lambda>_. l)) (at_ptr t (t_next_update (\<lambda>_. a)) h)))"
      by (auto simp: insert_task_def Let_def)
    show "l' = t" by (rule *)
    show "(\<lambda>p. t_next (h' p)) = ?nx(t := a, l := t)" "(\<lambda>p. t_prev (h' p)) = ?pv(t := l, a := t)"
      unfolding *(2) by simp_all
  qed
  have a: "a \<in> set xs" unfolding a_def by (rule hd_in_set [OF False])
  with assms(3) have at: "a \<noteq> t" by auto
  have "a \<notin> set (tl xs)" using r(2) False by (cases xs) (auto simp: a_def)
  then have first: "x \<noteq> a \<and> x \<noteq> t" if "x \<in> set (tl (ys @ [l]))" for x
    using that assms(3) \<open>a \<notin> set (tl xs)\<close> list.set_sel(2) [of xs x] False unfolding xs by auto
  have "dlinks (?nx(t := a, l := t)) (?pv(t := l, a := t)) (ys @ [l])"
  proof (rule dlinks_cong [OF d(1)])
    fix x assume "x \<in> set (butlast (ys @ [l]))"
    then show "(?nx(t := a, l := t)) x = ?nx x" using r(2) assms(3) xs by auto
  next
    fix x assume "x \<in> set (tl (ys @ [l]))"
    from first [OF this] show "(?pv(t := l, a := t)) x = ?pv x" by simp
  qed
  then have "dlinks (?nx(t := a, l := t)) (?pv(t := l, a := t)) (ys @ l # [t, a])"
    using at xs assms(3) by (subst dlinks_append) auto
  moreover have "hd (xs @ [t]) = a" using False by (simp add: a_def)
  moreover have "l \<noteq> t" using assms(3) xs by auto
  ultimately show ?thesis using r assms(2,3) h' xs by (simp add: ring_def)
qed

text \<open>The links of a ring, wherever one starts to read it.\<close>

definition cyc :: "(u32 \<Rightarrow> u32) \<Rightarrow> (u32 \<Rightarrow> u32) \<Rightarrow> u32 list \<Rightarrow> bool" where
  "cyc nx pv xs \<longleftrightarrow> dlinks nx pv (xs @ [hd xs])"

lemma cyc_rotate:
  assumes "cyc nx pv (xs @ ys)" "xs \<noteq> []" "ys \<noteq> []"
  shows "cyc nx pv (ys @ xs)"
proof -
  obtain x xs' y ys' where s: "xs = x # xs'" "ys = y # ys'" using assms(2,3) by (cases xs; cases ys) auto
  have "dlinks nx pv (xs @ [y]) \<and> dlinks nx pv (ys @ [x])"
    using assms(1) dlinks_append [of nx pv xs y "ys' @ [x]"] s by (simp add: cyc_def)
  then show ?thesis
    using dlinks_append [of nx pv ys x "xs' @ [y]"] s by (simp add: cyc_def)
qed

lemma cyc_remove_head:
  assumes "cyc nx pv (t # ws)" "ws \<noteq> []" "distinct (t # ws)"
  shows "nx t = hd ws" "pv t = last ws" "cyc (nx(last ws := hd ws, t := 0)) (pv(hd ws := last ws, t := 0)) ws"
proof -
  obtain w us where ws: "ws = w # us" using assms(2) by (cases ws) auto
  obtain vs z where wz: "ws = vs @ [z]" using assms(2) by (cases ws rule: rev_cases) auto
  have d: "nx t = w" "dlinks nx pv (ws @ [t])" using assms(1) ws by (auto simp: cyc_def)
  have e: "dlinks nx pv (vs @ [z])" "pv t = z"
    using d(2) dlinks_append [of nx pv vs z "[t]"] wz by simp_all
  show "nx t = hd ws" using d(1) ws by simp
  show "pv t = last ws" using e(2) wz by simp
  let ?nx = "nx(z := w, t := 0)" and ?pv = "pv(w := z, t := 0)"
  have "dlinks ?nx ?pv (vs @ [z])"
  proof (rule dlinks_cong [OF e(1)])
    fix x assume "x \<in> set (butlast (vs @ [z]))"
    then show "?nx x = nx x" using assms(3) wz by auto
  next
    fix x assume "x \<in> set (tl (vs @ [z]))"
    then have "x \<in> set us" using ws wz by simp
    then show "?pv x = pv x" using assms(3) ws by auto
  qed
  moreover have "z \<in> set ws" by (simp add: wz)
  moreover have "w \<in> set ws" by (simp add: ws)
  moreover from calculation(2,3) have "z \<noteq> t" "w \<noteq> t" using assms(3) by auto
  ultimately have "dlinks ?nx ?pv (vs @ z # [w])" by (subst dlinks_append) simp
  moreover have "last ws = z" "ws @ [w] = vs @ z # [w]" by (simp_all add: wz)
  moreover have "hd ws = w" by (simp add: ws)
  ultimately show "cyc (nx(last ws := hd ws, t := 0)) (pv(hd ws := last ws, t := 0)) ws"
    by (simp only: cyc_def)
qed

lemma ring_cyc:
  "ring h l xs \<longleftrightarrow> 0 \<notin> set xs \<and> distinct xs \<and> (if xs = [] then l = 0
     else l = last xs \<and> cyc (\<lambda>p. t_next (h p)) (\<lambda>p. t_prev (h p)) xs)"
  by (simp add: ring_def cyc_def)

lemma cyc_single: "cyc nx pv [t] \<longleftrightarrow> nx t = t \<and> pv t = t"
  by (simp add: cyc_def)

text \<open>The order after a removal: from the next task on when the last inserted one goes.\<close>

definition ring_without :: "u32 \<Rightarrow> u32 list \<Rightarrow> u32 list" where
  "ring_without t xs = (if t = last xs then rotate1 (butlast xs) else remove1 t xs)"

lemma unlink_fields:
  assumes "t_next (h t) = a" "t_prev (h t) = b" "a \<noteq> t" "b \<noteq> t"
    and "remove_task_from_circular_list t (l, h) = (l', h')"
  shows "(\<lambda>p. t_next (h' p)) = (\<lambda>p. t_next (h p))(b := a, t := 0)"
    "(\<lambda>p. t_prev (h' p)) = (\<lambda>p. t_prev (h p))(a := b, t := 0)" "l' = (if l = t then a else l)"
proof -
  let ?h1 = "at_ptr b (t_next_update (\<lambda>_. a)) h"
  let ?h2 = "at_ptr a (t_prev_update (\<lambda>_. b)) ?h1"
  have "t_next (?h1 t) = a" "t_prev (?h1 t) = b" "t_next (?h2 t) = a"
    using assms(1-4) by (auto simp: at_ptr_def)
  with assms have *: "l' = (if l = t then a else l)"
    "h' = at_ptr t (t_prev_update (\<lambda>_. 0)) (at_ptr t (t_next_update (\<lambda>_. 0)) ?h2)"
    by (auto simp: remove_task_from_circular_list_def Let_def)
  show "l' = (if l = t then a else l)" by (rule *)
  show "(\<lambda>p. t_next (h' p)) = (\<lambda>p. t_next (h p))(b := a, t := 0)"
    "(\<lambda>p. t_prev (h' p)) = (\<lambda>p. t_prev (h p))(a := b, t := 0)"
    unfolding *(2) by simp_all
qed

lemma ring_remove:
  assumes "ring h l xs" "t \<in> set xs" "remove_task_from_circular_list t (l, h) = (l', h')"
  shows "ring h' l' (ring_without t xs)" "set (ring_without t xs) = set xs - {t}"
proof -
  let ?nx = "\<lambda>p. t_next (h p)" and ?pv = "\<lambda>p. t_prev (h p)"
  obtain ys zs where xs: "xs = ys @ t # zs" using assms(2) by (meson split_list)
  have r: "0 \<notin> set xs" "distinct xs" "l = last xs" "cyc ?nx ?pv xs"
    using assms(1,2) by (auto simp: ring_cyc split: if_splits)
  have w: "ring_without t xs = (if zs = [] then rotate1 ys else ys @ zs)"
    using r(2) xs by (auto simp: ring_without_def remove1_append butlast_append)
  show "set (ring_without t xs) = set xs - {t}" using w r(2) xs by auto
  show "ring h' l' (ring_without t xs)"
  proof (cases "ys @ zs = []")
    case True
    then have "t_next (h t) = t" using r(4) xs by (simp add: cyc_single)
    with True w assms(3) show ?thesis by (auto simp: ring_def remove_task_from_circular_list_def Let_def)
  next
    case False
    let ?ws = "zs @ ys"
    have ne: "?ws \<noteq> []" using False by auto
    have "cyc ?nx ?pv (t # ?ws)"
      using cyc_rotate [of ?nx ?pv ys "t # zs"] r(4) xs by (cases "ys = []") auto
    moreover have dist: "distinct (t # ?ws)" using r(2) xs by auto
    ultimately have c: "t_next (h t) = hd ?ws" "t_prev (h t) = last ?ws"
      "cyc (?nx(last ?ws := hd ?ws, t := 0)) (?pv(hd ?ws := last ?ws, t := 0)) ?ws"
      using cyc_remove_head [of ?nx ?pv t ?ws] ne by auto
    have "hd ?ws \<in> set ?ws" "last ?ws \<in> set ?ws" using ne hd_in_set last_in_set by blast+
    then have neq: "hd ?ws \<noteq> t" "last ?ws \<noteq> t" using dist by auto
    have h': "(\<lambda>p. t_next (h' p)) = ?nx(last ?ws := hd ?ws, t := 0)"
      "(\<lambda>p. t_prev (h' p)) = ?pv(hd ?ws := last ?ws, t := 0)"
      "l' = (if l = t then hd ?ws else l)"
      using unlink_fields [OF c(1,2) neq assms(3)] by auto
    have "cyc (\<lambda>p. t_next (h' p)) (\<lambda>p. t_prev (h' p)) (ring_without t xs)"
    proof (cases "zs = []")
      case True
      then obtain y us where "ys = y # us" using False by (cases ys) auto
      with True c(3) h' w cyc_rotate [of _ _ "[y]" us] show ?thesis by (cases "us = []") auto
    next
      case False
      with c(3) h' w cyc_rotate [of _ _ zs ys] show ?thesis by (cases "ys = []") auto
    qed
    moreover have "l' = last (ring_without t xs)"
    proof (cases "zs = []")
      case True
      then obtain y us where "ys = y # us" using False by (cases ys) auto
      with True r(3) xs h'(3) w show ?thesis by simp
    next
      case z: False
      then have "l \<noteq> t" using r(2,3) xs by (metis distinct.simps(2) distinct_append last_appendR last_in_set last_ConsR list.distinct(1))
      with z r(3) xs h'(3) w show ?thesis by simp
    qed
    moreover have "0 \<notin> set (ring_without t xs)" "distinct (ring_without t xs)" "ring_without t xs \<noteq> []"
      using r(1,2) w xs False by auto
    ultimately show ?thesis by (simp add: ring_cyc)
  qed
qed

section \<open>The contract of the lists\<close>

definition gives_in_order :: "(u32 \<Rightarrow> 's \<Rightarrow> 's) \<Rightarrow> ('s \<Rightarrow> u32 \<times> 's) \<Rightarrow> u32 queue_op list \<Rightarrow> 's \<Rightarrow> bool" where
  "gives_in_order add remove ops s \<longleftrightarrow> (\<exists>n s'.
     fold (queue_step add (taking remove)) (ops @ replicate n Deq) ([], s) = (inputs ops, s') \<and> remove s' = (0, s'))"

context linked_queue begin

lemma gives_order:
  assumes "fst (snd (view s)) = 0" "okay_ops (\<lambda>p xs. p \<noteq> 0 \<and> p \<notin> set xs) ops []"
  shows "gives_in_order add remove ops s"
proof -
  have "holds_list view s []" using assms(1) by (auto simp: holds_list_def linked_def split: prod.splits)
  from queue.order_drained [OF this assms(2)] obtain n s' where
    "fold (queue_step add (taking remove)) (ops @ replicate n Deq) ([], s) = (inputs ops, s')"
    "taking remove s' = (None, s')" by blast
  moreover from this(2) have "remove s' = (0, s')"
    by (auto simp: taking_def ptr_opt_def split: prod.splits if_splits)
  ultimately show ?thesis by (auto simp: gives_in_order_def)
qed

end

text \<open>
  Property C14. All three task queues are first in, first out: starting empty, under any sequence of
  additions (of tasks not already in the queue) and removals, what is removed, followed by what a
  final draining removes, is what was added, in the order it was added; the drained queue answers the
  null pointer.
\<close>

theorem task_queues_fifo:
  assumes "okay_ops (\<lambda>p xs. p \<noteq> 0 \<and> p \<notin> set xs) ops []"
    and "queue_head rq = 0" "dead_head dq = 0" "m_queue_head lock = 0"
  shows "gives_in_order add_task_to_ready_queue remove_task_from_ready_queue ops (rq, h) \<and>
    gives_in_order add_task_to_dead_queue remove_task_from_dead_queue ops (dq, h) \<and>
    gives_in_order add_task_to_mutex_queue remove_task_from_mutex_queue ops (lock, h)"
  using assms
  by (intro conjI ready.gives_order dead.gives_order waiting.gives_order)
    (simp_all add: ready_view_def dead_view_def waiting_view_def)

definition blank_task :: task_t where
  "blank_task = \<lparr>t_ESP = 0, t_EIP = 0, t_page_directory = 0, t_state = 0, t_stack_base = 0, t_id = 0,
     t_next = 0, t_prev = 0, t_ready_next = 0, t_mutex_wait_next = 0, t_dead_next = 0\<rparr>"

theorem task_queues_fifo_witness:
  "gives_in_order add_task_to_ready_queue remove_task_from_ready_queue
    [Enq 0x1000, Enq 0x2000, Deq, Enq 0x1000, Enq 0x3000] (\<lparr>queue_head = 0, queue_tail = 0\<rparr>, \<lambda>_. blank_task)"
  using task_queues_fifo [of "[Enq 0x1000, Enq 0x2000, Deq, Enq 0x1000, Enq 0x3000]" "\<lparr>queue_head = 0, queue_tail = 0\<rparr>"
      "\<lparr>dead_head = 0, dead_tail = 0\<rparr>" "\<lparr>m_locked = 0, m_holder = 0, m_queue_head = 0, m_queue_tail = 0\<rparr>"]
  by simp

text \<open>
  Property C15. The list of all tasks is a ring: inserting appends after \<open>last_inserted\<close>, removing
  takes out exactly the given task, and both keep the forward and the backward links of the
  remaining tasks closed and inverse to each other; the removed task has null links.
\<close>

theorem task_ring_kept:
  assumes "ring h l xs" "t \<noteq> 0"
  shows "case (if t \<in> set xs then remove_task_from_circular_list t (l, h) else insert_task t (l, h)) of
    (l', h') \<Rightarrow> ring h' l' (if t \<in> set xs then ring_without t xs else xs @ [t]) \<and>
      set (ring_without t xs) = set xs - {t} \<and> (t \<in> set xs \<longrightarrow> t_next (h' t) = 0 \<and> t_prev (h' t) = 0)"
proof (cases "t \<in> set xs")
  case True
  obtain l' h' where r: "remove_task_from_circular_list t (l, h) = (l', h')"
    by (cases "remove_task_from_circular_list t (l, h)")
  then have "t_next (h' t) = 0 \<and> t_prev (h' t) = 0"
    by (auto simp: remove_task_from_circular_list_def Let_def at_ptr_def split: if_splits)
  with True r ring_remove [OF assms(1) True r] show ?thesis by simp
next
  case False
  obtain l' h' where r: "insert_task t (l, h) = (l', h')" by (cases "insert_task t (l, h)")
  have "set (ring_without t xs) = set xs - {t}"
    using False by (cases "xs = []") (auto simp: ring_without_def remove1_idem)
  with False r ring_insert [OF assms False r] show ?thesis by simp
qed

theorem task_ring_kept_witness:
  "\<exists>l h. ring h l [0x1000, 0x2000]"
proof -
  let ?h = "\<lambda>_. blank_task"
  have "ring ?h 0 []" by (simp add: ring_def)
  from task_ring_kept [OF this, where t = "0x1000"] obtain l1 h1 where "ring h1 l1 [0x1000]"
    by (auto split: prod.splits)
  from task_ring_kept [OF this, where t = "0x2000"] show ?thesis by (auto split: prod.splits)
qed

end
