(* ===== verification/Vmm.thy ===== *)
theory Vmm
  imports Pmm
begin

text \<open>
  Paging (\<^verbatim>\<open>pelikanOS/src/vmm.c\<close>, \<^verbatim>\<open>paging.c\<close>): the page directory and page tables are words in
  physical memory, allocated from the frame allocator. The specification is the address
  translation of the processor, \<open>translate\<close>.
\<close>

section \<open>State\<close>

text \<open>
  \<open>v_mem\<close> gives the 32-bit word at a physical address (the code only uses multiples of 4 here),
  \<open>v_bitmap\<close> is \<open>bitmap\<close> of \<^verbatim>\<open>pmm.c\<close>, \<open>v_cr0\<close> and \<open>v_cr3\<close> the control registers.
\<close>

record vmm =
  v_pd :: u32
  v_mem :: "u32 \<Rightarrow> u32"
  v_bitmap :: "u8 list"
  v_cr0 :: u32
  v_cr3 :: u32

definition PAGE_PRESENT :: u32 where "PAGE_PRESENT = 0x01"
definition PAGE_RW :: u32 where "PAGE_RW = 0x02"

section \<open>Operations\<close>

definition load_CR3 :: "u32 \<Rightarrow> vmm \<Rightarrow> vmm" where
  "load_CR3 page_directory s = s\<lparr>v_cr3 := page_directory\<rparr>"

definition flip_bit_31 :: "vmm \<Rightarrow> vmm" where
  "flip_bit_31 s = s\<lparr>v_cr0 := v_cr0 s OR 0x80000000\<rparr>"

definition dir_index :: "u32 \<Rightarrow> u16" where
  "dir_index virt_addr = ucast (drop_bit 22 virt_addr)"

definition table_index :: "u32 \<Rightarrow> u16" where
  "table_index virt_addr = ucast (drop_bit 12 virt_addr AND 0x3FF)"

text \<open>The address of \<open>table[i]\<close> in an array of 32-bit words.\<close>

definition entry_at :: "u32 \<Rightarrow> u16 \<Rightarrow> u32" where
  "entry_at table i = table + 4 * ucast i"

text \<open>\<open>memset(page, 0, 4096)\<close>\<close>

definition zero_page :: "u32 \<Rightarrow> (u32 \<Rightarrow> u32) \<Rightarrow> u32 \<Rightarrow> u32" where
  "zero_page page mem = (\<lambda>a. if a - page < 4096 then 0 else mem a)"

definition vmm_init :: "vmm \<Rightarrow> vmm result" where
  "vmm_init s =
     andthen (pmm_alloc_frame (v_bitmap s)) (\<lambda>(page_directory, bm).
     andthen (pmm_alloc_frame bm) (\<lambda>(page_table, bm).
       let mem = zero_page page_directory (v_mem s);
           mem = fold (\<lambda>i mem. mem(entry_at page_table (of_nat i) := of_nat i * 4096 OR PAGE_PRESENT OR PAGE_RW)) [0..<1024] mem;
           mem = mem(entry_at page_directory 0 := page_table OR PAGE_PRESENT OR PAGE_RW)
       in Inr (flip_bit_31 (load_CR3 page_directory
            (s\<lparr>v_pd := page_directory, v_mem := mem, v_bitmap := bm\<rparr>)))))"

definition vmm_map_page :: "u32 \<Rightarrow> u32 \<Rightarrow> vmm \<Rightarrow> vmm result" where
  "vmm_map_page virt_addr phys_addr s =
     (let pde = entry_at (v_pd s) (dir_index virt_addr)
      in andthen (if v_mem s pde AND 0x01 = 0
           then andthen (pmm_alloc_frame (v_bitmap s)) (\<lambda>(new_table, bm).
             Inr (s\<lparr>v_mem := (zero_page new_table (v_mem s))(pde := new_table OR PAGE_PRESENT OR PAGE_RW),
                    v_bitmap := bm\<rparr>))
           else Inr s) (\<lambda>s.
         let page_table = v_mem s pde AND 0xFFFFF000
         in Inr (s\<lparr>v_mem := (v_mem s)(entry_at page_table (table_index virt_addr) :=
              phys_addr OR PAGE_PRESENT OR PAGE_RW)\<rparr>)))"

definition vmm_unmap_page :: "u32 \<Rightarrow> vmm \<Rightarrow> vmm" where
  "vmm_unmap_page virt_addr s =
     (let page_table = v_mem s (entry_at (v_pd s) (dir_index virt_addr)) AND 0xFFFFF000
      in s\<lparr>v_mem := (v_mem s)(entry_at page_table (table_index virt_addr) := 0)\<rparr>)"

definition vmm_get_kernel_directory :: "vmm \<Rightarrow> u32" where
  "vmm_get_kernel_directory s = v_pd s"

section \<open>The translation of the processor\<close>

text \<open>Present bit, frame and offset of the two-level walk.\<close>

definition translate :: "vmm \<Rightarrow> u32 \<Rightarrow> u32 option" where
  "translate s va =
     (let pde = v_mem s (entry_at (v_pd s) (dir_index va))
      in if pde AND 1 = 0 then None
         else let pte = v_mem s (entry_at (pde AND 0xFFFFF000) (table_index va))
              in if pte AND 1 = 0 then None else Some ((pte AND 0xFFFFF000) OR (va AND 0xFFF)))"

section \<open>Indices, entries and frames\<close>

lemma high_mask: "(0xFFFFF000 :: u32) = NOT (mask 12)"
  by (simp add: mask_eq_exp_minus_1)

lemma low_mask: "(0xFFF :: u32) = mask 12"
  by (simp add: mask_eq_exp_minus_1)

lemma flags_mask: "x OR PAGE_PRESENT OR PAGE_RW = x OR mask 2"
  by (simp add: PAGE_PRESENT_def PAGE_RW_def mask_eq_exp_minus_1)

lemma flags_bits: "(x OR PAGE_PRESENT OR PAGE_RW) AND 1 \<noteq> (0 :: u32)"
proof -
  have "bit ((x OR mask 2) AND 1) 0" by (simp add: bit_simps)
  then show ?thesis unfolding flags_mask by (metis bit_0_eq bot_apply bot_bool_def)
qed

lemma frame_bits:
  assumes "x AND 0xFFF = 0"
  shows "(x OR PAGE_PRESENT OR PAGE_RW) AND 0xFFFFF000 = (x :: u32)"
  unfolding flags_mask high_mask
proof (rule bit_word_eqI)
  fix n assume n: "n < LENGTH(32)"
  have "\<not> bit x n" if "n < 12"
  proof -
    have "bit (x AND mask 12) n = bit x n" using that n by (simp add: bit_simps)
    with assms show ?thesis by (simp add: low_mask)
  qed
  then show "bit ((x OR mask 2) AND NOT (mask 12)) n = bit x n"
    using n by (cases "n < 12") (auto simp: bit_simps)
qed

lemma dir_index_unat: "unat (dir_index va) = unat va div 2 ^ 22"
proof -
  have "unat va < 2 ^ 32" by (rule order.strict_trans2, rule unsigned_less) simp
  then have "unat va div 2 ^ 22 < 2 ^ 16" by (simp add: div_less_iff_less_mult)
  moreover have "drop_bit 22 va = va div 2 ^ 22" by (simp add: drop_bit_eq_div)
  ultimately show ?thesis
    by (simp add: dir_index_def unsigned_ucast_eq unat_div take_bit_nat_eq_self)
qed

lemma table_index_unat: "unat (table_index va) = unat va div 2 ^ 12 mod 1024"
proof -
  have "drop_bit 12 va AND 0x3FF = take_bit 10 (va div 2 ^ 12)"
    by (simp add: drop_bit_eq_div take_bit_eq_mask mask_eq_exp_minus_1)
  also have "\<dots> = va div 2 ^ 12 mod 2 ^ 10" by (simp add: take_bit_eq_mod)
  finally have e: "drop_bit 12 va AND 0x3FF = va div 2 ^ 12 mod 2 ^ 10" .
  have u: "unat (va div 2 ^ 12 mod 2 ^ 10) = unat va div 2 ^ 12 mod 1024" by (simp add: unat_div unat_mod)
  have "unat (table_index va) = take_bit 16 (unat va div 2 ^ 12 mod 1024)"
    unfolding table_index_def e unsigned_ucast_eq u by simp
  moreover have "unat va div 2 ^ 12 mod 1024 < 1024" by simp
  then have "unat va div 2 ^ 12 mod 1024 < 2 ^ 16" by (rule order.strict_trans) simp
  ultimately show ?thesis by (simp only: take_bit_nat_eq_self)
qed

text \<open>Same page, by its two indices.\<close>

lemma same_page:
  "dir_index v = dir_index w \<and> table_index v = table_index w \<longleftrightarrow> unat v div 4096 = unat w div 4096"
proof -
  have split: "unat x div 4096 = unat x div 2 ^ 22 * 1024 + unat x div 2 ^ 12 mod 1024" for x :: u32
  proof -
    have "unat x div 2 ^ 22 = unat x div 4096 div 1024" by (simp add: div_mult2_eq [symmetric])
    moreover have "unat x div 2 ^ 12 = unat x div 4096" by simp
    ultimately show ?thesis by (metis div_mult_mod_eq)
  qed
  have "unat v div 4096 = unat w div 4096 \<longleftrightarrow>
      unat v div 2 ^ 22 = unat w div 2 ^ 22 \<and> unat v div 2 ^ 12 mod 1024 = unat w div 2 ^ 12 mod 1024"
  proof
    assume e: "unat v div 4096 = unat w div 4096"
    have "unat x div 2 ^ 22 = unat x div 4096 div 1024" for x :: u32 by (simp add: div_mult2_eq [symmetric])
    with e show "unat v div 2 ^ 22 = unat w div 2 ^ 22 \<and> unat v div 2 ^ 12 mod 1024 = unat w div 2 ^ 12 mod 1024"
      by simp
  qed (use split in metis)
  then show ?thesis
    by (simp only: word_unat_eq_iff [where 'a = 16] dir_index_unat table_index_unat)
qed

text \<open>Entries of different tables, or different entries of a table, are different words.\<close>

lemma frame_addrs_unat: "t \<in> frame_addrs \<Longrightarrow> \<exists>f < MAX_FRAMES. unat t = f * 4096"
  using frame_address by (fastforce simp: frame_addrs_def)

lemma entry_unat:
  assumes "t \<in> frame_addrs" "unat i < 1024"
  shows "unat (entry_at t i) = unat t + 4 * unat i"
proof -
  obtain f where f: "f < MAX_FRAMES" "unat t = f * 4096" using frame_addrs_unat [OF assms(1)] by blast
  have "unat (4 * ucast i :: u32) = 4 * unat i"
    using assms(2) by (simp add: unat_word_ariths unsigned_ucast_eq take_bit_nat_eq_self)
  then show ?thesis
    unfolding entry_at_def using f assms(2) by (subst unat_plus_u32) (simp_all add: MAX_FRAMES_def)
qed

lemma entry_inj:
  assumes "t \<in> frame_addrs" "u \<in> frame_addrs" "unat i < 1024" "unat j < 1024"
  shows "entry_at t i = entry_at u j \<longleftrightarrow> t = u \<and> i = j"
proof
  assume e: "entry_at t i = entry_at u j"
  obtain f g where f: "unat t = f * 4096" "unat u = g * 4096"
    using frame_addrs_unat assms(1,2) by metis
  have s: "f * 4096 + 4 * unat i = g * 4096 + 4 * unat j"
    using arg_cong [OF e, of unat] entry_unat assms f by simp
  then have "(f * 4096 + 4 * unat i) div 4096 = (g * 4096 + 4 * unat j) div 4096" by simp
  with assms(3,4) have "f = g" by simp
  with s f show "t = u \<and> i = j" by (simp add: word_unat_eq_iff)
qed simp

section \<open>Well-formed paging structures\<close>

definition pde :: "vmm \<Rightarrow> u16 \<Rightarrow> u32" where
  "pde s d = v_mem s (entry_at (v_pd s) d)"

definition present :: "vmm \<Rightarrow> u16 \<Rightarrow> bool" where
  "present s d \<longleftrightarrow> unat d < 1024 \<and> pde s d AND 1 \<noteq> 0"

definition table_of :: "vmm \<Rightarrow> u16 \<Rightarrow> u32" where
  "table_of s d = pde s d AND 0xFFFFF000"

text \<open>
  The directory and the tables stand in frames of their own: allocated, different from each other.
\<close>

definition paging_ok :: "vmm \<Rightarrow> bool" where
  "paging_ok s \<longleftrightarrow> bitmap_ok (v_bitmap s) \<and> v_pd s \<in> frame_addrs \<and> v_pd s \<notin> free_addrs (v_bitmap s) \<and>
     (\<forall>d. present s d \<longrightarrow> table_of s d \<in> frame_addrs \<and> table_of s d \<noteq> v_pd s \<and>
        table_of s d \<notin> free_addrs (v_bitmap s)) \<and>
     (\<forall>d e. present s d \<longrightarrow> present s e \<longrightarrow> table_of s d = table_of s e \<longrightarrow> d = e)"

lemma index_bounds [simp]: "unat (dir_index va) < 1024" "unat (table_index va) < 1024"
proof -
  have "unat va < 2 ^ 32" by (rule order.strict_trans2, rule unsigned_less) simp
  then show "unat (dir_index va) < 1024" by (simp add: dir_index_unat div_less_iff_less_mult)
  show "unat (table_index va) < 1024" by (simp add: table_index_unat)
qed

lemma translate_tables:
  "translate s va = (if present s (dir_index va)
     then (let w = v_mem s (entry_at (table_of s (dir_index va)) (table_index va))
           in if w AND 1 = 0 then None else Some ((w AND 0xFFFFF000) OR (va AND 0xFFF)))
     else None)"
  by (simp add: translate_def present_def table_of_def pde_def Let_def)

lemma in_page:
  assumes "unat p + 4096 \<le> 2 ^ 32"
  shows "(a - p :: u32) < 4096 \<longleftrightarrow> unat p \<le> unat a \<and> unat a < unat p + 4096"
  using assms by (auto simp: word_less_nat_alt unat_sub_if_size word_size)

lemma zero_page_entry:
  assumes "p \<in> frame_addrs" "q \<in> frame_addrs" "unat i < 1024"
  shows "zero_page p mem (entry_at q i) = (if q = p then 0 else mem (entry_at q i))"
proof -
  obtain f g where f: "f < MAX_FRAMES" "unat p = f * 4096" "unat q = g * 4096"
    using frame_addrs_unat assms(1,2) by metis
  then have "unat p + 4096 \<le> 2 ^ 32" by (simp add: MAX_FRAMES_def)
  moreover have "f * 4096 \<le> g * 4096 + 4 * unat i \<and> g * 4096 + 4 * unat i < f * 4096 + 4096 \<longleftrightarrow> g = f"
    using assms(3) by auto
  moreover have "g = f \<longleftrightarrow> q = p" using f by (auto simp: word_unat_eq_iff)
  ultimately show ?thesis
    using in_page [of p "entry_at q i"] entry_unat [OF assms(2,3)] f by (simp add: zero_page_def)
qed

subsection \<open>One entry of a present table\<close>

definition set_pte :: "u32 \<Rightarrow> u32 \<Rightarrow> vmm \<Rightarrow> vmm" where
  "set_pte va w s = s\<lparr>v_mem := (v_mem s)(entry_at (table_of s (dir_index va)) (table_index va) := w)\<rparr>"

lemma set_pte_dir:
  assumes "paging_ok s" "present s (dir_index va)" "unat d < 1024"
  shows "pde (set_pte va w s) d = pde s d"
  using assms entry_inj [of "v_pd s" "table_of s (dir_index va)" d "table_index va"]
  by (auto simp: pde_def set_pte_def paging_ok_def)

lemma set_pte_ok:
  assumes "paging_ok s" "present s (dir_index va)"
  shows "paging_ok (set_pte va w s)"
proof -
  have "present (set_pte va w s) d = present s d" "present s d \<Longrightarrow> table_of (set_pte va w s) d = table_of s d" for d
    using set_pte_dir [OF assms] by (auto simp: present_def table_of_def)
  with assms(1) show ?thesis by (simp add: paging_ok_def) (simp add: set_pte_def)
qed

lemma set_pte_translate:
  assumes "paging_ok s" "present s (dir_index va)"
  shows "translate (set_pte va w s) v = (if unat v div 4096 = unat va div 4096
     then if w AND 1 = 0 then None else Some ((w AND 0xFFFFF000) OR (v AND 0xFFF)) else translate s v)"
proof -
  have same: "present (set_pte va w s) (dir_index v) = present s (dir_index v)"
    "table_of (set_pte va w s) (dir_index v) = table_of s (dir_index v)"
    using set_pte_dir [OF assms] by (auto simp: present_def table_of_def)
  show ?thesis
  proof (cases "present s (dir_index v)")
    case True
    then have "table_of s (dir_index v) \<in> frame_addrs" "table_of s (dir_index va) \<in> frame_addrs"
      using assms by (auto simp: paging_ok_def)
    then have "entry_at (table_of s (dir_index v)) (table_index v) = entry_at (table_of s (dir_index va)) (table_index va) \<longleftrightarrow>
        dir_index v = dir_index va \<and> table_index v = table_index va"
      using True assms by (auto simp: entry_inj paging_ok_def)
    then have "v_mem (set_pte va w s) (entry_at (table_of s (dir_index v)) (table_index v)) =
        (if unat v div 4096 = unat va div 4096 then w
         else v_mem s (entry_at (table_of s (dir_index v)) (table_index v)))"
      unfolding same_page [symmetric] by (auto simp: set_pte_def)
    with same True show ?thesis by (simp add: translate_tables Let_def)
  next
    case False
    then have "dir_index v \<noteq> dir_index va" using assms(2) by auto
    then have "unat v div 4096 \<noteq> unat va div 4096" using same_page [of v va] by auto
    with same False show ?thesis by (simp add: translate_tables)
  qed
qed

subsection \<open>A new table\<close>

definition add_table :: "u32 \<Rightarrow> u32 \<Rightarrow> u8 list \<Rightarrow> vmm \<Rightarrow> vmm" where
  "add_table va new bm s = s\<lparr>v_mem := (zero_page new (v_mem s))(entry_at (v_pd s) (dir_index va) :=
     new OR PAGE_PRESENT OR PAGE_RW), v_bitmap := bm\<rparr>"

lemma frame_aligned: "t \<in> frame_addrs \<Longrightarrow> t AND 0xFFF = 0"
proof -
  assume "t \<in> frame_addrs"
  then obtain f where "t = of_nat f * 4096" by (auto simp: frame_addrs_def)
  then have "t = push_bit 12 (of_nat f)" by (simp add: push_bit_eq_mult)
  then show ?thesis unfolding low_mask by (simp add: take_bit_eq_mask [symmetric] take_bit_push_bit)
qed

lemma add_table_pde:
  assumes "v_pd s \<in> frame_addrs" "new \<in> frame_addrs" "new \<noteq> v_pd s" "unat d < 1024"
  shows "pde (add_table va new bm s) d = (if d = dir_index va then new OR PAGE_PRESENT OR PAGE_RW else pde s d)"
  using assms entry_inj [OF assms(1,1), of d "dir_index va"] zero_page_entry [OF assms(2,1), of d]
  by (simp add: pde_def add_table_def)

lemma add_table_ok:
  assumes ok: "paging_ok s" and absent: "\<not> present s (dir_index va)"
    and new: "new \<in> free_addrs (v_bitmap s)" "bitmap_ok bm" "free_addrs bm = free_addrs (v_bitmap s) - {new}"
  shows "paging_ok (add_table va new bm s)" "present (add_table va new bm s) (dir_index va)"
    "translate (add_table va new bm s) v = translate s v"
proof -
  let ?s = "add_table va new bm s"
  have nf: "new \<in> frame_addrs" "new \<noteq> v_pd s"
    using new(1) pmm.avail_frames ok by (auto simp: paging_ok_def)
  note p = add_table_pde [OF _ nf, where bm = bm and va = va]
  have pd: "v_pd s \<in> frame_addrs" using ok by (simp add: paging_ok_def)
  have pr: "present ?s d \<longleftrightarrow> d = dir_index va \<or> present s d" for d
    using p [OF pd, of d] flags_bits by (cases "d = dir_index va") (auto simp: present_def)
  have tb: "present ?s d \<Longrightarrow> table_of ?s d = (if d = dir_index va then new else table_of s d)" for d
    using p [OF pd, of d] frame_bits [OF frame_aligned [OF nf(1)]] by (simp add: present_def table_of_def)
  have old: "present s d \<Longrightarrow> table_of s d \<in> frame_addrs \<and> table_of s d \<noteq> v_pd s \<and> table_of s d \<notin> free_addrs (v_bitmap s)" for d
    using ok by (simp add: paging_ok_def)
  have bm: "v_bitmap ?s = bm" "v_pd ?s = v_pd s" by (simp_all add: add_table_def)
  have "\<And>d e. present s d \<Longrightarrow> present s e \<Longrightarrow> table_of s d = table_of s e \<Longrightarrow> d = e" "v_pd s \<notin> free_addrs (v_bitmap s)"
    using ok by (simp_all add: paging_ok_def)
  with pr tb old nf new pd show "paging_ok ?s"
    unfolding paging_ok_def bm by (auto split: if_splits)
  show "present ?s (dir_index va)" by (simp add: pr)
  show "translate ?s v = translate s v"
  proof (cases "dir_index v = dir_index va")
    case True
    have "v_mem ?s (entry_at new (table_index v)) = 0"
      using zero_page_entry [OF nf(1,1), of "table_index v"] entry_inj [OF nf(1) pd, of "table_index v" "dir_index va"] nf(2)
      by (simp add: add_table_def)
    with True absent pr tb [of "dir_index va"] show ?thesis by (simp add: translate_tables Let_def)
  next
    case False
    show ?thesis
    proof (cases "present s (dir_index v)")
      case present: True
      note o = old [OF present]
      then have "table_of s (dir_index v) \<noteq> new" using new(1) by auto
      then have "v_mem ?s (entry_at (table_of s (dir_index v)) (table_index v)) =
          v_mem s (entry_at (table_of s (dir_index v)) (table_index v))"
        using o zero_page_entry [of new "table_of s (dir_index v)" "table_index v"] nf pd
          entry_inj [of "table_of s (dir_index v)" "v_pd s" "table_index v" "dir_index va"]
        by (simp add: add_table_def)
      with present False pr tb [of "dir_index v"] show ?thesis by (simp add: translate_tables Let_def)
    next
      case absent: False
      with False pr show ?thesis by (simp add: translate_tables)
    qed
  qed
qed

section \<open>The operations on the translation\<close>

lemma map_page_present:
  "present s (dir_index va) \<Longrightarrow> vmm_map_page va pa s = Inr (set_pte va (pa OR PAGE_PRESENT OR PAGE_RW) s)"
  by (simp add: vmm_map_page_def Let_def present_def pde_def set_pte_def table_of_def)

lemma map_page_absent:
  assumes "\<not> present s (dir_index va)" "pmm_alloc_frame (v_bitmap s) = Inr (new, bm)"
  shows "vmm_map_page va pa s =
    Inr (set_pte va (pa OR PAGE_PRESENT OR PAGE_RW) (add_table va new bm s))"
  using assms
  by (simp add: vmm_map_page_def Let_def present_def pde_def set_pte_def table_of_def add_table_def)

text \<open>The frames in use by the paging structures only grow when a new table is needed.\<close>

lemma vmm_map_page_spec:
  assumes "paging_ok s" "free_frames (v_bitmap s) \<noteq> {}" "pa AND 0xFFF = 0"
  shows "\<exists>s'. vmm_map_page va pa s = Inr s' \<and> paging_ok s' \<and> v_pd s' = v_pd s \<and>
    free_addrs (v_bitmap s') \<subseteq> free_addrs (v_bitmap s) \<and>
    (\<forall>v. translate s' v = (if unat v div 4096 = unat va div 4096 then Some (pa OR (v AND 0xFFF)) else translate s v))"
proof -
  let ?w = "pa OR PAGE_PRESENT OR PAGE_RW"
  have w: "?w AND 1 \<noteq> 0" "?w AND 0xFFFFF000 = pa" using flags_bits frame_bits [OF assms(3)] by auto
  show ?thesis
  proof (cases "present s (dir_index va)")
    case True
    show ?thesis
      unfolding map_page_present [OF True]
      using set_pte_ok [OF assms(1) True] set_pte_translate [OF assms(1) True] w
      by (simp add: set_pte_def)
  next
    case False
    have "bitmap_ok (v_bitmap s)" using assms(1) by (simp add: paging_ok_def)
    from pmm.alloc_some [OF this] assms(2) obtain new bm where
      a: "pmm_alloc_frame (v_bitmap s) = Inr (new, bm)" "new \<in> free_addrs (v_bitmap s)" "bitmap_ok bm"
      "free_addrs bm = free_addrs (v_bitmap s) - {new}" by auto
    note t = add_table_ok [OF assms(1) False a(2-4)]
    show ?thesis
      unfolding map_page_absent [OF False a(1)]
      using set_pte_ok [OF t(1,2)] set_pte_translate [OF t(1,2)] w t(3) a(4)
      by (auto simp: set_pte_def add_table_def)
  qed
qed

lemma vmm_unmap_page_set: "vmm_unmap_page va s = set_pte va 0 s"
  by (simp add: vmm_unmap_page_def set_pte_def table_of_def pde_def Let_def)

subsection \<open>\<open>vmm_init\<close>\<close>

definition identity_words :: "u32 \<Rightarrow> (u32 \<Rightarrow> u32) \<Rightarrow> u32 \<Rightarrow> u32" where
  "identity_words page_table mem =
     fold (\<lambda>i mem. mem(entry_at page_table (of_nat i) := of_nat i * 4096 OR PAGE_PRESENT OR PAGE_RW)) [0..<1024] mem"

lemma index_nat: "n < 1024 \<Longrightarrow> unat (of_nat n :: u16) = n"
  by (simp add: unat_of_nat)

lemma fold_update:
  assumes "\<And>i. i < n \<Longrightarrow> a i = x \<longleftrightarrow> P \<and> i = k"
  shows "fold (\<lambda>i m. m(a i := b i)) [0..<n] m x = (if P \<and> k < n then b k else m x)"
  using assms by (induction n) (auto simp: less_Suc_eq)

lemma identity_words_spec:
  assumes "t \<in> frame_addrs" "q \<in> frame_addrs" "unat i < 1024"
  shows "identity_words t mem (entry_at q i) =
    (if q = t then of_nat (unat i) * 4096 OR PAGE_PRESENT OR PAGE_RW else mem (entry_at q i))"
proof -
  have "entry_at t (of_nat n) = entry_at q i \<longleftrightarrow> q = t \<and> n = unat i" if "n < 1024" for n
    using entry_inj [OF assms(1,2) _ assms(3), of "of_nat n"] that index_nat [of n]
    by (auto simp: word_unat_eq_iff simp del: of_nat_unat)
  from fold_update [of 1024 "\<lambda>n. entry_at t (of_nat n)", OF this,
      where b = "\<lambda>n. of_nat n * 4096 OR PAGE_PRESENT OR PAGE_RW"] show ?thesis
    unfolding identity_words_def using assms(3) by simp
qed

lemma identity_address:
  assumes "unat v < 2 ^ 22"
  shows "of_nat (unat (table_index v)) * 4096 OR (v AND 0xFFF) = v"
proof -
  have "take_bit 22 v = v"
    using assms by (simp add: take_bit_eq_mod word_unat_eq_iff unat_mod)
  then have high: "bit v n \<Longrightarrow> n < 22" for n by (metis bit_take_bit_iff)
  have "unat (table_index v) = unat (drop_bit 12 v AND mask 10)"
    by (simp add: table_index_unat take_bit_eq_mask [symmetric] take_bit_eq_mod drop_bit_eq_div unat_mod unat_div)
  then have "of_nat (unat (table_index v)) * 4096 = push_bit 12 (drop_bit 12 v AND mask 10)"
    by (simp add: push_bit_eq_mult del: of_nat_unat) simp
  then show ?thesis
    unfolding low_mask
    by (simp only:) (rule bit_word_eqI, auto simp: bit_simps dest: high)
qed

lemma dir_zero: "dir_index v = 0 \<longleftrightarrow> unat v < 2 ^ 22"
proof -
  have "dir_index v = 0 \<longleftrightarrow> unat v div 2 ^ 22 = 0"
    using dir_index_unat [of v] by (auto simp: word_unat_eq_iff)
  then show ?thesis by (simp add: div_eq_0_iff)
qed

lemma vmm_init_spec:
  assumes "bitmap_ok (v_bitmap s)" "2 \<le> card (free_frames (v_bitmap s))"
  shows "\<exists>s'. vmm_init s = Inr s' \<and> paging_ok s' \<and> v_cr3 s' = v_pd s' \<and> bit (v_cr0 s') 31 \<and>
    (\<forall>v. translate s' v = (if unat v < 2 ^ 22 then Some v else None))"
proof -
  have ne: "free_frames (v_bitmap s) \<noteq> {}" using assms(2) by auto
  obtain bm1 where b1: "pmm_alloc_frame (v_bitmap s) = Inr (of_nat (Min (free_frames (v_bitmap s))) * 4096, bm1)"
    "bitmap_ok bm1" "free_frames bm1 = free_frames (v_bitmap s) - {Min (free_frames (v_bitmap s))}"
    using pmm_alloc_frame_spec [OF assms(1)] ne by auto
  have "card (free_frames bm1) = card (free_frames (v_bitmap s)) - 1"
    unfolding b1(3) using ne by (simp add: card_Diff_singleton)
  then have ne1: "free_addrs bm1 \<noteq> {}" using assms(2) by auto
  obtain pd where pd: "pmm_alloc_frame (v_bitmap s) = Inr (pd, bm1)" "pd \<in> free_addrs (v_bitmap s)"
    "free_addrs bm1 = free_addrs (v_bitmap s) - {pd}"
    using pmm.alloc_some [OF assms(1)] ne b1(1) by fastforce
  obtain pt bm2 where pt: "pmm_alloc_frame bm1 = Inr (pt, bm2)" "pt \<in> free_addrs bm1" "bitmap_ok bm2"
    "free_addrs bm2 = free_addrs bm1 - {pt}"
    using pmm.alloc_some [OF b1(2) ne1] by blast
  have fr: "pd \<in> frame_addrs" "pt \<in> frame_addrs" "pt \<noteq> pd"
    using pmm.avail_frames assms(1) b1(2) pd pt by auto
  let ?mem = "(identity_words pt (zero_page pd (v_mem s)))(entry_at pd 0 := pt OR PAGE_PRESENT OR PAGE_RW)"
  let ?s = "flip_bit_31 (load_CR3 pd (s\<lparr>v_pd := pd, v_mem := ?mem, v_bitmap := bm2\<rparr>))"
  have run: "vmm_init s = Inr ?s"
    using pd(1) pt(1) by (simp add: vmm_init_def identity_words_def Let_def del: upt_Suc)
  have dir: "pde ?s d = (if d = 0 then pt OR PAGE_PRESENT OR PAGE_RW else 0)" if "unat d < 1024" for d
    using that fr entry_inj [OF fr(1,1), of d 0] identity_words_spec [OF fr(2,1), of d]
      zero_page_entry [OF fr(1,1), of d]
    by (auto simp: pde_def flip_bit_31_def load_CR3_def)
  have pres: "present ?s d \<longleftrightarrow> d = 0" for d
    using dir [of d] flags_bits [of pt] by (cases "d = 0") (simp_all add: present_def)
  have tab: "table_of ?s 0 = pt"
    using dir [of 0] frame_bits [OF frame_aligned [OF fr(2)]] by (simp add: table_of_def)
  have sel: "v_pd ?s = pd" "v_bitmap ?s = bm2" "v_cr3 ?s = pd" "v_mem ?s = ?mem" "v_cr0 ?s = v_cr0 s OR 0x80000000"
    by (simp_all add: flip_bit_31_def load_CR3_def)
  have "paging_ok ?s"
    unfolding paging_ok_def sel pres using fr pd pt tab by auto
  moreover have "bit (v_cr0 ?s) 31"
  proof -
    have "(0x80000000 :: u32) = push_bit 31 1" by simp
    then show ?thesis unfolding sel by (simp only: bit_or_iff) (simp add: bit_simps)
  qed
  moreover have "translate ?s v = (if unat v < 2 ^ 22 then Some v else None)" for v
  proof (cases "dir_index v = 0")
    case True
    let ?f = "of_nat (unat (table_index v)) * 4096 :: u32"
    have low: "unat v < 2 ^ 22" using True dir_zero by simp
    have "v_mem ?s (entry_at pt (table_index v)) = ?f OR PAGE_PRESENT OR PAGE_RW"
      unfolding sel using identity_words_spec [OF fr(2,2), of "table_index v"] fr
      by (simp add: entry_inj)
    moreover have "?f AND 0xFFF = 0" unfolding low_mask
      by (simp add: push_bit_eq_mult [of 12, symmetric, simplified] take_bit_eq_mask [symmetric] take_bit_push_bit)
    ultimately show ?thesis
      using low identity_address [OF low] True tab flags_bits [of ?f] frame_bits [of ?f]
      unfolding translate_tables by (simp add: pres Let_def)
  next
    case False
    then show ?thesis using dir_zero by (simp add: translate_tables pres)
  qed
  ultimately show ?thesis using run sel by auto
qed

section \<open>Properties\<close>

text \<open>
  Property C16. After \<open>vmm_init\<close> paging is on, \<open>CR3\<close> holds the kernel directory, and the
  processor maps exactly the first 4 MB, each address to itself.
\<close>

theorem vmm_init_identity:
  assumes "bitmap_ok (v_bitmap s)" "2 \<le> card (free_frames (v_bitmap s))"
  shows "\<exists>s'. vmm_init s = Inr s' \<and> paging_ok s' \<and> v_cr3 s' = vmm_get_kernel_directory s' \<and> bit (v_cr0 s') 31 \<and>
    (\<forall>v. translate s' v = (if unat v < 2 ^ 22 then Some v else None))"
  using vmm_init_spec [OF assms] by (simp add: vmm_get_kernel_directory_def)

text \<open>A machine whose first four frames are taken; its directory in frame 1 has one table, in frame 2.\<close>

definition sample_vmm :: vmm where
  "sample_vmm = \<lparr>v_pd = 0x1000, v_mem = (\<lambda>_. 0)(0x1000 := 0x2003, 0x2004 := 0x5003),
     v_bitmap = 0x0F # replicate 4095 0, v_cr0 = 0x11, v_cr3 = 0x1000\<rparr>"

lemma sample_frames: "bitmap_ok (v_bitmap sample_vmm)" "{4, 5} \<subseteq> free_frames (v_bitmap sample_vmm)"
  "1 \<notin> free_frames (v_bitmap sample_vmm)" "2 \<notin> free_frames (v_bitmap sample_vmm)"
  by (simp_all add: sample_vmm_def bitmap_ok_def free_frames_def bit_simps flip: bit_numeral_rec)

theorem vmm_init_identity_witness:
  "\<exists>s'. vmm_init sample_vmm = Inr s' \<and> translate s' 0xB8000 = Some 0xB8000 \<and> translate s' 0x400000 = None"
proof -
  have "card {4, 5 :: nat} \<le> card (free_frames (v_bitmap sample_vmm))"
    by (rule card_mono) (use sample_frames in auto)
  then have "2 \<le> card (free_frames (v_bitmap sample_vmm))" by simp
  from vmm_init_identity [OF sample_frames(1) this] show ?thesis by fastforce
qed

text \<open>
  Property C17. \<open>vmm_map_page va pa\<close> makes the page of \<open>va\<close> translate to the frame \<open>pa\<close> and leaves
  every other page as it was, whether a page table for \<open>va\<close> exists or a frame must be taken
  for one.
\<close>

theorem map_page_maps_one_page:
  assumes "paging_ok s" "free_frames (v_bitmap s) \<noteq> {}" "pa AND 0xFFF = 0"
  shows "\<exists>s'. vmm_map_page va pa s = Inr s' \<and> paging_ok s' \<and>
    (\<forall>v. translate s' v = (if unat v div 4096 = unat va div 4096 then Some (pa OR (v AND 0xFFF)) else translate s v))"
  using vmm_map_page_spec [OF assms] by blast

lemma sample_pde: "unat d < 1024 \<Longrightarrow> pde sample_vmm d = (if d = 0 then 0x2003 else 0)"
proof -
  assume d: "unat d < 1024"
  have f: "0x1000 \<in> frame_addrs" "0x2000 \<in> frame_addrs"
    by (auto simp: frame_addrs_def MAX_FRAMES_def image_iff intro: bexI [of _ 1] bexI [of _ 2])
  show ?thesis
    using entry_inj [OF f(1,1) d, of 0] entry_inj [OF f(1,2) d, of 1]
    by (auto simp: pde_def sample_vmm_def entry_at_def)
qed

lemma sample_paging: "paging_ok sample_vmm" "present sample_vmm (dir_index 0x1234)"
proof -
  have f: "0x1000 \<in> frame_addrs" "0x2000 \<in> frame_addrs"
    by (auto simp: frame_addrs_def MAX_FRAMES_def image_iff intro: bexI [of _ 1] bexI [of _ 2])
  have a: "0x1000 \<notin> free_addrs (v_bitmap sample_vmm)" "0x2000 \<notin> free_addrs (v_bitmap sample_vmm)"
    using free_addr_iff [OF sample_frames(1), of 1] free_addr_iff [OF sample_frames(1), of 2] sample_frames(3,4)
    by (simp_all add: MAX_FRAMES_def)
  have p: "present sample_vmm d \<longleftrightarrow> d = 0" for d
    using sample_pde [of d] by (cases "d = 0") (auto simp: present_def)
  have "table_of sample_vmm 0 = 0x2000" "v_pd sample_vmm = 0x1000"
    using sample_pde [of 0] by (simp_all add: table_of_def) (simp add: sample_vmm_def)
  with f a p show "paging_ok sample_vmm" by (simp add: paging_ok_def sample_frames)
  show "present sample_vmm (dir_index 0x1234)" by (simp add: p dir_index_def)
qed

text \<open>A mapping under a table that has to be made.\<close>

theorem map_page_maps_one_page_witness:
  "\<exists>s'. vmm_map_page 0xC0000000 0x7000 sample_vmm = Inr s' \<and>
    translate s' 0xC0000123 = Some 0x7123 \<and> translate s' 0x1234 = Some 0x5234"
proof -
  have "free_frames (v_bitmap sample_vmm) \<noteq> {}" using sample_frames by auto
  moreover have "translate sample_vmm 0x1234 = Some 0x5234"
    by (simp add: translate_def sample_vmm_def entry_at_def dir_index_def table_index_def)
  ultimately show ?thesis
    using map_page_maps_one_page [OF sample_paging(1), where va = "0xC0000000" and pa = "0x7000"] by fastforce
qed

text \<open>
  Unmapping a page under a present table removes that page and nothing else.
\<close>

theorem unmap_page_unmaps_one_page:
  assumes "paging_ok s" "present s (dir_index va)"
  shows "paging_ok (vmm_unmap_page va s) \<and>
    (\<forall>v. translate (vmm_unmap_page va s) v = (if unat v div 4096 = unat va div 4096 then None else translate s v))"
  unfolding vmm_unmap_page_set
  using set_pte_ok [OF assms, of 0] set_pte_translate [OF assms, of 0] by simp

theorem unmap_page_unmaps_one_page_witness:
  "translate (vmm_unmap_page 0x1234 sample_vmm) 0x1FFF = None"
  using unmap_page_unmaps_one_page [OF sample_paging] by simp

end
