(* ===== verification/Heap.thy ===== *)
theory Heap
  imports Pmm Kstring Chains
begin

text \<open>
  The kernel heap of \<^verbatim>\<open>pelikanOS/src/heap.c\<close>: a doubly linked list of blocks cut out of
  frames, first fit with splitting, and coalescing of neighbours when a block is freed. This
  theory holds the operations; \<open>Heap_Spec\<close> says what they do.
\<close>

section \<open>State\<close>

text \<open>
  Pointers are addresses. \<open>h_mem\<close> gives the header \<open>block_t\<close> at an address; the payload bytes
  behind a header are the clients' and are not part of the state. \<open>h_console\<close> are the bytes given
  to \<open>print\<close>, \<open>h_if\<close> is the interrupt flag of the processor.
\<close>

record block_t =
  b_size :: u32
  b_free :: u32
  b_magic :: u32
  b_next :: u32
  b_prev :: u32

record heap =
  h_head :: u32
  h_mem :: "u32 \<Rightarrow> block_t"
  h_bitmap :: "u8 list"
  h_console :: "u8 list"
  h_if :: bool

definition BLOCK_SIZE :: u32 where "BLOCK_SIZE = 20"
definition HEAP_MAGIC_ALLOC :: u32 where "HEAP_MAGIC_ALLOC = 0xDEADBEEF"
definition HEAP_MAGIC_FREE :: u32 where "HEAP_MAGIC_FREE = 0xFEEEFEEE"

text \<open>\<open>p->f = ...\<close>, \<open>print(s)\<close>, and \<open>hlt\<close>, which waits for an interrupt.\<close>

definition at_block :: "u32 \<Rightarrow> (block_t \<Rightarrow> block_t) \<Rightarrow> heap \<Rightarrow> heap" where
  "at_block p f s = s\<lparr>h_mem := (h_mem s)(p := f (h_mem s p))\<rparr>"

definition say :: "u8 list \<Rightarrow> heap \<Rightarrow> heap" where
  "say text s = s\<lparr>h_console := h_console s @ text\<rparr>"

definition hlt :: "heap \<Rightarrow> heap result" where
  "hlt s = (if h_if s then Inr s else Inl Halted)"

section \<open>Allocation\<close>

definition request_space :: "u32 \<Rightarrow> heap \<Rightarrow> (u32 \<times> heap) result" where
  "request_space last_block s =
     andthen (pmm_alloc_frame (h_bitmap s)) (\<lambda>(raw, bitmap).
       let s = s\<lparr>h_bitmap := bitmap\<rparr>
       in if raw = 0 then Inl Halted
          else let block = raw;
                   s = at_block block (\<lambda>b. b\<lparr>b_size := 4096 - BLOCK_SIZE, b_free := 1,
                         b_magic := HEAP_MAGIC_FREE, b_next := 0\<rparr>) s;
                   s = (if last_block \<noteq> 0
                        then at_block last_block (b_next_update (\<lambda>_. block)) (at_block block (b_prev_update (\<lambda>_. last_block)) s)
                        else at_block block (b_prev_update (\<lambda>_. 0)) s)
               in Inr (block, s))"

text \<open>The two loops of \<open>kmalloc\<close> in one recursion; the first argument bounds its steps.\<close>

fun kmalloc_loop :: "nat \<Rightarrow> u32 \<Rightarrow> u32 \<Rightarrow> u32 \<Rightarrow> heap \<Rightarrow> (u32 \<times> heap) result" where
  "kmalloc_loop 0 sz current last_block s = Inl Out_Of_Fuel"
| "kmalloc_loop (Suc n) sz current last_block s =
     (if current \<noteq> 0 then
        let b = h_mem s current
        in if b_free b = 1 \<and> b_size b = sz then
             Inr (current + BLOCK_SIZE, at_block current (\<lambda>b. b\<lparr>b_free := 0, b_magic := HEAP_MAGIC_ALLOC\<rparr>) s)
           else if b_free b = 1 \<and> b_size b \<ge> sz + BLOCK_SIZE + 1 then
             let new_block = current + BLOCK_SIZE + sz;
                 s = at_block new_block (\<lambda>m. m\<lparr>b_size := b_size b - sz - BLOCK_SIZE, b_free := 1,
                       b_next := b_next b, b_prev := current, b_magic := HEAP_MAGIC_FREE\<rparr>) s;
                 s = at_block current (\<lambda>b. b\<lparr>b_size := sz, b_free := 0, b_next := new_block,
                       b_magic := HEAP_MAGIC_ALLOC\<rparr>) s
             in Inr (current + BLOCK_SIZE, s)
           else if b_free b = 1 \<and> b_size b > sz then
             Inr (current + BLOCK_SIZE, at_block current (\<lambda>b. b\<lparr>b_free := 0, b_magic := HEAP_MAGIC_ALLOC\<rparr>) s)
           else kmalloc_loop n sz (b_next b) current s
      else andthen (request_space last_block s) (\<lambda>(block, s).
        if block = 0 then Inr (0, say (text_bytes ''HEAP: alloc FAILED, no space\<newline>'') s)
        else kmalloc_loop n sz block last_block s))"

definition kmalloc :: "nat \<Rightarrow> u32 \<Rightarrow> heap \<Rightarrow> (u32 \<times> heap) result" where
  "kmalloc n sz s =
     (if sz = 0 then Inr (0, say (text_bytes ''HEAP: kmalloc(0) ignored\<newline>'') s)
      else if sz > 4096 - BLOCK_SIZE then Inr (0, say (text_bytes ''HEAP: too big\<newline>'') s)
      else andthen (if h_head s = 0
             then andthen (request_space 0 s) (\<lambda>(block, s). Inr (s\<lparr>h_head := block\<rparr>))
             else Inr s) (\<lambda>s. kmalloc_loop n sz (h_head s) 0 s))"

section \<open>Freeing\<close>

definition coalesce_next :: "u32 \<Rightarrow> heap \<Rightarrow> heap" where
  "coalesce_next block s =
     (let nxt = b_next (h_mem s block)
      in if nxt \<noteq> 0 \<and> b_free (h_mem s nxt) = 1 \<and> block + BLOCK_SIZE + b_size (h_mem s block) = nxt then
           let s = at_block block (\<lambda>b. b\<lparr>b_size := b_size b + BLOCK_SIZE + b_size (h_mem s nxt)\<rparr>) s;
               s = at_block block (b_next_update (\<lambda>_. b_next (h_mem s nxt))) s;
               s = (if b_next (h_mem s nxt) \<noteq> 0
                    then at_block (b_next (h_mem s block)) (b_prev_update (\<lambda>_. block)) s else s)
           in say (text_bytes '' +coalesced next'') s
         else s)"

definition coalesce_prev :: "u32 \<Rightarrow> heap \<Rightarrow> heap" where
  "coalesce_prev block s =
     (let prv = b_prev (h_mem s block)
      in if prv \<noteq> 0 \<and> b_free (h_mem s prv) = 1 \<and> prv + BLOCK_SIZE + b_size (h_mem s prv) = block then
           let s = at_block prv (\<lambda>b. b\<lparr>b_size := b_size b + BLOCK_SIZE + b_size (h_mem s block)\<rparr>) s;
               s = at_block prv (b_next_update (\<lambda>_. b_next (h_mem s block))) s;
               s = (if b_next (h_mem s block) \<noteq> 0
                    then at_block (b_next (h_mem s block)) (b_prev_update (\<lambda>_. prv)) s else s)
           in say (text_bytes '' +coalesced prev'') s
         else s)"

text \<open>\<open>char buf[32]; itoa(num, buf); print(buf);\<close>\<close>

definition c_string :: "u8 list \<Rightarrow> u8 list" where
  "c_string buf = takeWhile (\<lambda>c. c \<noteq> 0) buf"

definition say_number :: "nat \<Rightarrow> u32 \<Rightarrow> heap \<Rightarrow> heap result" where
  "say_number len num s = andthen (itoa num (replicate len 0)) (\<lambda>buf. Inr (say (c_string buf) s))"

definition kfree :: "u32 \<Rightarrow> heap \<Rightarrow> heap result" where
  "kfree ptr s =
     (if ptr = 0 then Inr (say (text_bytes ''HEAP: kfree(NULL) ignored\<newline>'') s)
      else let block = ptr - BLOCK_SIZE in
        andthen (if b_magic (h_mem s block) \<noteq> HEAP_MAGIC_ALLOC \<and> b_magic (h_mem s block) \<noteq> HEAP_MAGIC_FREE
          then hlt (say (text_bytes ''HEAP: bad free - not my block\<newline>'') s) else Inr s) (\<lambda>s.
        andthen (if b_magic (h_mem s block) = HEAP_MAGIC_FREE
          then hlt (say (text_bytes ''HEAP: double free\<newline>'') s) else Inr s) (\<lambda>s.
        let s = at_block block (\<lambda>b. b\<lparr>b_free := 1, b_magic := HEAP_MAGIC_FREE\<rparr>) s;
            s = say (text_bytes ''HEAP: freed block, size '') s
        in andthen (say_number 32 (b_size (h_mem s block)) s) (\<lambda>s.
          Inr (say (text_bytes ''\<newline>'') (coalesce_prev block (coalesce_next block s)))))))"

section \<open>\<open>heap_dump\<close>\<close>

fun dump_loop :: "nat \<Rightarrow> u32 \<Rightarrow> heap \<Rightarrow> heap result" where
  "dump_loop 0 current s = Inl Out_Of_Fuel"
| "dump_loop (Suc n) current s =
     (if current \<noteq> 0 then
        andthen (say_number 20 current s) (\<lambda>s. let s = say (text_bytes ''  '') s in
        andthen (say_number 20 (b_size (h_mem s current)) s) (\<lambda>s. let s = say (text_bytes ''  '') s in
        andthen (say_number 20 (b_free (h_mem s current)) s) (\<lambda>s.
          let s = say (text_bytes ''\<newline>'') (say (text_bytes ''  '') s)
          in dump_loop n (b_next (h_mem s current)) s)))
      else Inr s)"

definition heap_dump :: "nat \<Rightarrow> heap \<Rightarrow> heap result" where
  "heap_dump n s =
     (if h_head s = 0 then Inr (say (text_bytes ''NO LIST??'') s) else dump_loop n (h_head s) s)"

end
