(* ===== verification/Allocator.thy ===== *)
theory Allocator
  imports Prelude
begin

text \<open>
  What a client may expect of \<open>malloc\<close> and \<open>free\<close>. The repository has two implementations, the
  heap of the kernel and \<open>my_malloc\<close>; both keep this contract.
\<close>

section \<open>A client\<close>

text \<open>
  A client keeps a list of the pointers it holds, with the sizes it asked for. It asks for memory,
  or frees the \<open>k\<close>-th pointer it holds.
\<close>

datatype need = Get nat | Put nat

fun use_heap :: "(nat \<Rightarrow> 's \<Rightarrow> ('p \<times> 's) result) \<Rightarrow> ('p \<Rightarrow> 's \<Rightarrow> 's result) \<Rightarrow>
    need \<Rightarrow> ('p \<times> nat) list \<times> 's \<Rightarrow> (('p \<times> nat) list \<times> 's) result" where
  "use_heap malloc free (Get n) (held, s) = andthen (malloc n s) (\<lambda>(p, s). Inr ((p, n) # held, s))"
| "use_heap malloc free (Put k) (held, s) =
     (if k < length held then andthen (free (fst (held ! k)) s) (\<lambda>s. Inr (take k held @ drop (Suc k) held, s))
      else Inr (held, s))"

definition asks :: "need list \<Rightarrow> nat list" where
  "asks ns = concat (map (\<lambda>x. case x of Get n \<Rightarrow> [n] | Put k \<Rightarrow> []) ns)"

lemma asks_simps [simp]: "asks [] = []" "asks (Get n # ns) = n # asks ns" "asks (Put k # ns) = asks ns"
  by (simp_all add: asks_def)

text \<open>No byte of a held block belongs to another one.\<close>

definition no_overlap :: "('p \<Rightarrow> nat) \<Rightarrow> ('p \<times> nat) list \<Rightarrow> bool" where
  "no_overlap addr held \<longleftrightarrow> distinct (map fst held) \<and>
     (\<forall>(p, m) \<in> set held. \<forall>(q, n) \<in> set held. p \<noteq> q \<longrightarrow> {addr p..<addr p + m} \<inter> {addr q..<addr q + n} = {})"

section \<open>The contract\<close>

text \<open>
  \<open>live s p\<close> is the room at \<open>p\<close> while \<open>p\<close> is allocated, \<open>servable n\<close> the request sizes the allocator
  deals with, \<open>room s\<close> a number of further requests that are sure to be served.
\<close>

locale allocator =
  fixes malloc :: "nat \<Rightarrow> 's \<Rightarrow> ('p \<times> 's) result"
    and free :: "'p \<Rightarrow> 's \<Rightarrow> 's result"
    and valid :: "'s \<Rightarrow> bool"
    and live :: "'s \<Rightarrow> 'p \<Rightarrow> nat option"
    and addr :: "'p \<Rightarrow> nat"
    and servable :: "nat \<Rightarrow> bool"
    and room :: "'s \<Rightarrow> nat"
  assumes malloc_new: "valid s \<Longrightarrow> servable n \<Longrightarrow> 0 < room s \<Longrightarrow>
      \<exists>p s' m. malloc n s = Inr (p, s') \<and> valid s' \<and> live s p = None \<and> live s' = (live s)(p \<mapsto> m) \<and>
        n \<le> m \<and> room s \<le> Suc (room s')"
    and free_live: "valid s \<Longrightarrow> live s p = Some m \<Longrightarrow>
      \<exists>s'. free p s = Inr s' \<and> valid s' \<and> live s' = (live s)(p := None) \<and> room s \<le> room s'"
    and apart: "valid s \<Longrightarrow> live s p = Some m \<Longrightarrow> live s q = Some n \<Longrightarrow> p \<noteq> q \<Longrightarrow>
      {addr p..<addr p + m} \<inter> {addr q..<addr q + n} = {}"
begin

definition holds_live :: "('p \<times> nat) list \<times> 's \<Rightarrow> bool" where
  "holds_live hs \<longleftrightarrow> valid (snd hs) \<and> distinct (map fst (fst hs)) \<and>
     (\<forall>(p, n) \<in> set (fst hs). \<exists>m. live (snd hs) p = Some m \<and> n \<le> m)"

lemma holds_liveD: "holds_live (held, s) \<Longrightarrow> (p, n) \<in> set held \<Longrightarrow> \<exists>m. live s p = Some m \<and> n \<le> m"
  by (auto simp: holds_live_def)

lemma holds_liveI:
  "valid s \<Longrightarrow> distinct (map fst held) \<Longrightarrow> (\<And>p n. (p, n) \<in> set held \<Longrightarrow> \<exists>m. live s p = Some m \<and> n \<le> m) \<Longrightarrow>
    holds_live (held, s)"
  by (auto simp: holds_live_def)

lemma holds_live_no_overlap: "holds_live (held, s) \<Longrightarrow> no_overlap addr held"
proof -
  assume h: "holds_live (held, s)"
  have "{addr p..<addr p + m} \<inter> {addr q..<addr q + n} = {}"
    if inp: "(p, m) \<in> set held" and inq: "(q, n) \<in> set held" and ne: "p \<noteq> q" for p m q n
  proof -
    obtain m' n' where "live s p = Some m'" "m \<le> m'" "live s q = Some n'" "n \<le> n'"
      using holds_liveD [OF h inp] holds_liveD [OF h inq] by blast
    moreover have "valid s" using h by (simp add: holds_live_def)
    ultimately have "{addr p..<addr p + m'} \<inter> {addr q..<addr q + n'} = {}"
      using apart ne by blast
    moreover have "{addr p..<addr p + m} \<subseteq> {addr p..<addr p + m'}" "{addr q..<addr q + n} \<subseteq> {addr q..<addr q + n'}"
      using \<open>m \<le> m'\<close> \<open>n \<le> n'\<close> by auto
    ultimately show ?thesis by blast
  qed
  with h show ?thesis by (auto simp: no_overlap_def holds_live_def)
qed

lemma use_heap_step:
  assumes "holds_live (held, s)" "set (asks [x]) \<subseteq> {n. servable n}" "length (asks [x]) \<le> room s"
  shows "\<exists>held' s'. use_heap malloc free x (held, s) = Inr (held', s') \<and> holds_live (held', s') \<and>
    room s \<le> room s' + length (asks [x])"
proof (cases x)
  case (Get n)
  then have "servable n" "0 < room s" "valid s" using assms by (auto simp: holds_live_def)
  from malloc_new [OF this(3,1,2)] obtain p s' m where
    n: "malloc n s = Inr (p, s')" "valid s'" "live s p = None" "live s' = (live s)(p \<mapsto> m)" "n \<le> m" "room s \<le> Suc (room s')"
    by blast
  have "p \<notin> fst ` set held" using holds_liveD [OF assms(1)] n(3) by fastforce
  moreover have "distinct (map fst held)" using assms(1) by (simp add: holds_live_def)
  moreover have "\<exists>m'. live s' q = Some m' \<and> j \<le> m'" if "(q, j) \<in> set held" for q j
    using holds_liveD [OF assms(1) that] n(3,4) by auto
  moreover have "\<exists>m'. live s' p = Some m' \<and> n \<le> m'" using n(4,5) by simp
  ultimately have "holds_live ((p, n) # held, s')"
    using n(2) by (intro holds_liveI) (simp, simp, auto simp only: set_simps prod.inject insert_iff)
  with n Get show ?thesis by simp
next
  case (Put k)
  show ?thesis
  proof (cases "k < length held")
    case True
    obtain p n where p: "held ! k = (p, n)" by fastforce
    then have in_held: "(p, n) \<in> set held" using True nth_mem by fastforce
    then obtain m where "live s p = Some m" using assms(1) by (fastforce simp: holds_live_def)
    then obtain s' where s': "free p s = Inr s'" "valid s'" "live s' = (live s)(p := None)" "room s \<le> room s'"
      using free_live assms(1) by (fastforce simp: holds_live_def)
    let ?held = "take k held @ drop (Suc k) held"
    have d: "distinct (map fst held)" using assms(1) by (simp add: holds_live_def)
    have r: "distinct (map fst ?held)" "set (map fst ?held) = set (map fst held) - {p}"
      using remove_nth [OF d, of k] True p by (simp_all add: take_map drop_map)
    have "set ?held \<subseteq> set held" using set_take_subset [of k held] set_drop_subset [of "Suc k" held] by auto
    moreover have np: "p \<notin> fst ` set ?held" using r(2) by (metis DiffD2 insertCI list.set_map)
    moreover have "\<exists>m. live s' q = Some m \<and> j \<le> m" if "(q, j) \<in> set ?held" for q j
    proof -
      have "q \<noteq> p" using that np by force
      with s'(3) holds_liveD [OF assms(1), of q j] that \<open>set ?held \<subseteq> set held\<close> show ?thesis by auto
    qed
    ultimately have "holds_live (?held, s')" using r(1) s'(2) by (intro holds_liveI)
    with s' True p Put show ?thesis by simp
  next
    case False
    then show ?thesis using assms Put by simp
  qed
qed

text \<open>However the client asks and frees, no two blocks it holds share a byte.\<close>

lemma use_heap_safe:
  assumes "holds_live (held, s)" "set (asks ns) \<subseteq> {n. servable n}" "length (asks ns) \<le> room s"
  shows "\<exists>held' s'. each (use_heap malloc free) ns (held, s) = Inr (held', s') \<and> holds_live (held', s') \<and>
    no_overlap addr held'"
  using assms
proof (induction ns arbitrary: held s)
  case (Cons x ns)
  have split: "asks (x # ns) = asks [x] @ asks ns" by (simp add: asks_def)
  then obtain held1 s1 where 1: "use_heap malloc free x (held, s) = Inr (held1, s1)" "holds_live (held1, s1)"
    "room s \<le> room s1 + length (asks [x])"
    using use_heap_step [OF Cons.prems(1), of x] Cons.prems(2,3) by auto
  with Cons.IH [OF 1(2)] Cons.prems(2,3) split show ?case by simp
qed (simp add: holds_live_no_overlap)

end

end
