(* ===== verification/Heap_Spec.thy ===== *)
theory Heap_Spec
  imports Heap Allocator
begin

text \<open>
  What the kernel heap does. A heap is seen as the list of its chunks in list order, each an
  address, a payload size and whether it is free; \<open>kmalloc\<close> and \<open>kfree\<close> are a first-fit
  allocation and a merge on this list. The back links need care: a split does not update the back
  link of the block behind it, so the invariant says how stale a back link can be.
\<close>

section \<open>Regions\<close>

text \<open>\<open>sz\<close> gives the payload size of the header at an address.\<close>

definition block_end :: "(u32 \<Rightarrow> u32) \<Rightarrow> u32 \<Rightarrow> nat" where
  "block_end sz a = unat a + 20 + unat (sz a)"

definition span :: "(u32 \<Rightarrow> u32) \<Rightarrow> u32 \<Rightarrow> nat set" where
  "span sz a = {unat a..<block_end sz a}"

definition regions :: "(u32 \<Rightarrow> u32) \<Rightarrow> u32 set \<Rightarrow> bool" where
  "regions sz A \<longleftrightarrow> (\<forall>a \<in> A. 0 < sz a \<and> block_end sz a \<le> 2 ^ 27) \<and>
     (\<forall>a \<in> A. \<forall>b \<in> A. a \<noteq> b \<longrightarrow> span sz a \<inter> span sz b = {})"

lemma span_self [simp]: "unat a \<in> span sz a"
  by (simp add: span_def block_end_def)

lemma regions_apart:
  "regions sz A \<Longrightarrow> a \<in> A \<Longrightarrow> b \<in> A \<Longrightarrow> a \<noteq> b \<Longrightarrow> x \<in> span sz a \<Longrightarrow> x \<notin> span sz b"
  by (auto simp: regions_def)

lemma regions_insert:
  "regions sz (insert c A) \<longleftrightarrow> 0 < sz c \<and> block_end sz c \<le> 2 ^ 27 \<and>
     (\<forall>a \<in> A. a \<noteq> c \<longrightarrow> span sz c \<inter> span sz a = {}) \<and> regions sz A"
proof -
  have "(\<forall>a \<in> A. a \<noteq> c \<longrightarrow> span sz a \<inter> span sz c = {}) \<longleftrightarrow> (\<forall>a \<in> A. a \<noteq> c \<longrightarrow> span sz c \<inter> span sz a = {})"
    by (simp only: Int_commute)
  moreover have "(\<forall>b \<in> A. c \<noteq> b \<longrightarrow> span sz c \<inter> span sz b = {}) \<longleftrightarrow> (\<forall>a \<in> A. a \<noteq> c \<longrightarrow> span sz c \<inter> span sz a = {})"
    by (simp only: eq_commute [of c])
  ultimately show ?thesis unfolding regions_def by (simp add: ball_conj_distrib) argo
qed

lemma regions_cong:
  assumes "\<And>a. a \<in> A \<Longrightarrow> sz' a = sz a"
  shows "regions sz' A \<longleftrightarrow> regions sz A"
  using assms by (simp add: regions_def span_def block_end_def)

lemma regions_subset: "regions sz A \<Longrightarrow> B \<subseteq> A \<Longrightarrow> regions sz B"
  unfolding regions_def by blast

lemma block_end_word:
  assumes "block_end sz a \<le> 2 ^ 27"
  shows "unat (a + 20 + sz a) = block_end sz a"
proof -
  have "unat (a + 20) = unat a + 20"
    using assms by (subst unat_plus_u32) (simp_all add: block_end_def)
  then show ?thesis
    using assms by (subst unat_plus_u32) (simp_all add: block_end_def)
qed

lemma block_end_eq:
  assumes "block_end sz a \<le> 2 ^ 27"
  shows "a + 20 + sz a = n \<longleftrightarrow> block_end sz a = unat n"
  using block_end_word [OF assms] by (metis word_unat_eq_iff)

section \<open>Stale back links\<close>

text \<open>
  \<open>reach sz q n bs\<close> for the blocks \<open>bs\<close> before \<open>n\<close>, nearest first: \<open>q\<close> points into one of them,
  with no gap between this block and the nearest one, and if the header at \<open>q\<close> is not that of a
  block of the list any more, it does not end where \<open>n\<close> starts.
\<close>

definition into :: "(u32 \<Rightarrow> u32) \<Rightarrow> u32 \<Rightarrow> u32 \<Rightarrow> u32 \<Rightarrow> bool" where
  "into sz q n c \<longleftrightarrow> unat q \<in> span sz c \<and> (q \<noteq> c \<longrightarrow> q + 20 + sz q \<noteq> n)"

fun reach :: "(u32 \<Rightarrow> u32) \<Rightarrow> u32 \<Rightarrow> u32 \<Rightarrow> u32 list \<Rightarrow> bool" where
  "reach sz q n [] \<longleftrightarrow> False"
| "reach sz q n (c # bs) \<longleftrightarrow> into sz q n c \<or>
     (reach sz q n bs \<and> block_end sz (hd bs) = unat c)"

text \<open>\<open>backs sz pv rp as\<close>: the back links of the blocks \<open>as\<close>, which follow the blocks \<open>rev rp\<close>.\<close>

fun backs :: "(u32 \<Rightarrow> u32) \<Rightarrow> (u32 \<Rightarrow> u32) \<Rightarrow> u32 list \<Rightarrow> u32 list \<Rightarrow> bool" where
  "backs sz pv rp [] \<longleftrightarrow> True"
| "backs sz pv rp (n # ns) \<longleftrightarrow> (pv n \<noteq> 0 \<longrightarrow> reach sz (pv n) n rp) \<and> backs sz pv (n # rp) ns"

lemma backs_append: "backs sz pv rp (xs @ ys) \<longleftrightarrow> backs sz pv rp xs \<and> backs sz pv (rev xs @ rp) ys"
  by (induction xs arbitrary: rp) auto

text \<open>A back link that passes the adjacency test of \<open>kfree\<close> is the predecessor in the list.\<close>

lemma reach_adjacent:
  assumes "reach sz q n bs" "regions sz (insert n (set bs))" "n \<notin> set bs" "q + 20 + sz q = n"
  shows "\<exists>r. bs = q # r"
proof -
  have "q = hd bs"
    using assms
  proof (induction bs)
    case (Cons c bs)
    show ?case
    proof (cases "into sz q n c")
      case True
      with Cons.prems(4) show ?thesis by (auto simp: into_def)
    next
      case False
      with Cons.prems(1) have r: "reach sz q n bs" "block_end sz (hd bs) = unat c" by auto
      then have "bs \<noteq> []" by auto
      have "regions sz (insert n (set bs))" using Cons.prems(2) by (auto simp: regions_def)
      with Cons.IH r Cons.prems have "q = hd bs" by auto
      moreover have "block_end sz (hd bs) \<le> 2 ^ 27"
        using Cons.prems(2) \<open>bs \<noteq> []\<close> by (auto simp: regions_def)
      ultimately have "unat n = unat c" using r(2) Cons.prems(4) block_end_word by metis
      then have "n = c" by (simp add: word_unat_eq_iff)
      with Cons.prems(3) show ?thesis by simp
    qed
  qed simp
  with assms(1) show ?thesis by (cases bs) auto
qed

text \<open>Changes of the sizes outside the blocks concerned.\<close>

lemma into_cong: "(\<And>x. unat x \<in> span sz c \<Longrightarrow> sz' x = sz x) \<Longrightarrow> into sz q n c \<Longrightarrow> into sz' q n c"
  by (auto simp: into_def span_def block_end_def)

lemma block_end_cong: "(\<And>x. unat x \<in> span sz c \<Longrightarrow> sz' x = sz x) \<Longrightarrow> block_end sz' c = block_end sz c"
  by (simp add: block_end_def)

lemma reach_cong:
  assumes "\<And>c x. c \<in> set bs \<Longrightarrow> unat x \<in> span sz c \<Longrightarrow> sz' x = sz x" "reach sz q n bs"
  shows "reach sz' q n bs"
  using assms
proof (induction bs)
  case (Cons c bs)
  have "into sz' q n c" if "into sz q n c"
    by (rule into_cong [OF _ that]) (rule Cons.prems(1), simp_all)
  moreover have "block_end sz' (hd bs) = block_end sz (hd bs)" if "bs \<noteq> []"
    by (rule block_end_cong) (rule Cons.prems(1) [of "hd bs"], simp_all add: that)
  moreover have "reach sz q n bs \<Longrightarrow> reach sz' q n bs"
    by (rule Cons.IH) (rule Cons.prems(1), simp_all)
  moreover have "reach sz q n bs \<Longrightarrow> bs \<noteq> []" by (cases bs) simp_all
  ultimately show ?case using Cons.prems(2) by (simp only: reach.simps) metis
qed simp

text \<open>The blocks \<open>ns\<close> do not change, those before them do.\<close>

lemma backs_suffix:
  assumes "\<And>q n. n \<in> set ns \<Longrightarrow> reach sz q n rp \<Longrightarrow> reach sz' q n rp'"
    and "rp \<noteq> [] \<Longrightarrow> rp' \<noteq> [] \<and> block_end sz' (hd rp') = block_end sz (hd rp)"
    and "\<And>n x. n \<in> set ns \<Longrightarrow> unat x \<in> span sz n \<Longrightarrow> sz' x = sz x"
    and "\<And>n. n \<in> set ns \<Longrightarrow> pv' n = pv n"
    and "backs sz pv rp ns"
  shows "backs sz' pv' rp' ns"
  using assms
proof (induction ns arbitrary: rp rp')
  case (Cons n ns)
  have "backs sz' pv' (n # rp') ns"
  proof (rule Cons.IH)
    fix q m assume m: "m \<in> set ns" "reach sz q m (n # rp)"
    have "into sz' q m n" if "into sz q m n"
      by (rule into_cong [OF _ that]) (rule Cons.prems(3) [of n], simp_all)
    moreover have "reach sz q m rp \<Longrightarrow> reach sz' q m rp' \<and> block_end sz' (hd rp') = block_end sz (hd rp)"
    proof
      assume r: "reach sz q m rp"
      then show "reach sz' q m rp'" using m(1) by (intro Cons.prems(1)) simp_all
      have "rp \<noteq> []" using r by (cases rp) simp_all
      then show "block_end sz' (hd rp') = block_end sz (hd rp)" using Cons.prems(2) by simp
    qed
    ultimately show "reach sz' q m (n # rp')" using m(2) by (simp only: reach.simps) metis
  next
    show "n # rp \<noteq> [] \<Longrightarrow> n # rp' \<noteq> [] \<and> block_end sz' (hd (n # rp')) = block_end sz (hd (n # rp))"
      using Cons.prems(3) [of n] by (simp add: block_end_def)
    show "unat x \<in> span sz m \<Longrightarrow> sz' x = sz x" if "m \<in> set ns" for m x
      using Cons.prems(3) [of m x] that by simp
    show "pv' m = pv m" if "m \<in> set ns" for m using Cons.prems(4) [of m] that by simp
    show "backs sz pv (n # rp) ns" using Cons.prems(5) by simp
  qed
  moreover have "pv' n = pv n" using Cons.prems(4) [of n] by simp
  moreover have "pv n \<noteq> 0 \<Longrightarrow> reach sz' (pv n) n rp'"
    using Cons.prems(1) [of n "pv n"] Cons.prems(5) by simp
  ultimately show ?case by simp
qed simp

section \<open>Splitting, merging and adding a block\<close>

text \<open>An address inside a block other than \<open>c\<close> is not the address of something inside \<open>c\<close>.\<close>

lemma regions_other:
  assumes "regions sz A" "a \<in> A" "c \<in> A" "a \<noteq> c" "unat x \<in> span sz a" "unat y \<in> span sz c"
  shows "x \<noteq> y"
  using regions_apart assms by blast

text \<open>\<open>c\<close> keeps \<open>k\<close> bytes, the rest becomes the block \<open>m\<close>.\<close>

definition split_sizes :: "u32 \<Rightarrow> u32 \<Rightarrow> (u32 \<Rightarrow> u32) \<Rightarrow> u32 \<Rightarrow> u32" where
  "split_sizes c k sz = sz(c + 20 + k := sz c - k - 20, c := k)"

lemma split_facts:
  assumes "block_end sz c \<le> 2 ^ 27" "unat k + 20 < unat (sz c)"
  shows "unat (c + 20 + k) = unat c + 20 + unat k" "c + 20 + k \<noteq> c"
    "block_end (split_sizes c k sz) c = unat (c + 20 + k)"
    "block_end (split_sizes c k sz) (c + 20 + k) = block_end sz c"
    "unat (c + 20 + k) \<in> span sz c" "0 < sz c - k - 20" "unat (sz c - k - 20) = unat (sz c) - unat k - 20"
proof -
  have "unat (c + 20) = unat c + 20"
    using assms by (subst unat_plus_u32) (simp_all add: block_end_def)
  then show m: "unat (c + 20 + k) = unat c + 20 + unat k"
    using assms by (subst unat_plus_u32) (simp_all add: block_end_def)
  then show ne: "c + 20 + k \<noteq> c" by (auto simp: word_unat_eq_iff)
  have "unat (sz c - k) = unat (sz c) - unat k" using assms by (subst unat_sub) (simp_all add: word_le_nat_alt)
  then show r: "unat (sz c - k - 20) = unat (sz c) - unat k - 20"
    using assms by (subst unat_sub) (simp_all add: word_le_nat_alt)
  show "block_end (split_sizes c k sz) c = unat (c + 20 + k)"
    by (simp only: block_end_def m) (simp add: split_sizes_def)
  show "block_end (split_sizes c k sz) (c + 20 + k) = block_end sz c"
    using ne assms by (simp only: block_end_def m) (simp add: split_sizes_def r)
  show "unat (c + 20 + k) \<in> span sz c" using assms m by (simp add: span_def block_end_def)
  have "0 < unat (sz c - k - 20)" using r assms by simp
  then show "0 < sz c - k - 20" by (simp only: word_less_nat_alt unat_0)
qed

lemma regions_split:
  assumes "regions sz (insert c A)" "c \<notin> A" "unat k + 20 < unat (sz c)" "0 < k"
  shows "regions (split_sizes c k sz) (insert c (insert (c + 20 + k) A))" "c + 20 + k \<notin> A"
    "a \<in> A \<Longrightarrow> unat x \<in> span sz a \<Longrightarrow> split_sizes c k sz x = sz x"
    "span (split_sizes c k sz) c \<union> span (split_sizes c k sz) (c + 20 + k) = span sz c"
proof -
  have "block_end sz c \<le> 2 ^ 27" using assms(1) by (simp add: regions_def)
  note f = split_facts [OF this assms(3)]
  let ?sz = "split_sizes c k sz" and ?m = "c + 20 + k"
  have out: "x \<noteq> c \<and> x \<noteq> ?m" if "a \<in> A" "unat x \<in> span sz a" for a x
    using regions_other [OF assms(1), of a c x] that f(5) assms(2) by (metis insert_iff span_self)
  show same: "a \<in> A \<Longrightarrow> unat x \<in> span sz a \<Longrightarrow> ?sz x = sz x" for a x
    using out [of a x] by (simp add: split_sizes_def)
  show "?m \<notin> A" using out [of ?m ?m] by auto
  have sp: "a \<in> A \<Longrightarrow> span ?sz a = span sz a" "a \<in> A \<Longrightarrow> block_end ?sz a = block_end sz a" "a \<in> A \<Longrightarrow> ?sz a = sz a" for a
    using same [of a a] by (simp_all add: span_def block_end_def)
  show un: "span ?sz c \<union> span ?sz ?m = span sz c"
    unfolding span_def f(3,4) using f(1) assms(3) by (auto simp: block_end_def)
  have cm: "span ?sz c \<inter> span ?sz ?m = {}" unfolding span_def f(3,4) by auto
  have "span sz c \<inter> span sz a = {}" if "a \<in> A" for a
    using assms(1,2) that by (auto simp: regions_insert)
  then have off: "span ?sz c \<inter> span sz a = {}" "span ?sz ?m \<inter> span sz a = {}" if "a \<in> A" for a
    using that un by blast+
  have "?sz c = k" "?sz ?m = sz c - k - 20" using f(2) by (simp_all add: split_sizes_def)
  moreover have "unat ?m \<le> 2 ^ 27" "block_end sz c \<le> 2 ^ 27"
    using f(5) \<open>block_end sz c \<le> 2 ^ 27\<close> by (simp_all add: span_def)
  moreover have "regions sz A" using assms(1) by (simp only: regions_insert)
  then have "regions ?sz A" using regions_cong sp(3) by blast
  ultimately show "regions ?sz (insert c (insert ?m A))"
    unfolding regions_insert using f(3,4,6) cm off sp(1) assms(4) by simp
qed

lemma backs_split:
  assumes "regions sz (set (pre @ c # post))" "distinct (pre @ c # post)" "unat k + 20 < unat (sz c)" "0 < k"
    and "backs sz pv [] (pre @ c # post)"
  shows "backs (split_sizes c k sz) (pv(c + 20 + k := c)) [] (pre @ c # (c + 20 + k) # post)"
proof -
  let ?sz = "split_sizes c k sz" and ?m = "c + 20 + k" and ?pv = "pv(c + 20 + k := c)"
  have r: "regions sz (insert c (set pre \<union> set post))" using assms(1) by simp
  have nc: "c \<notin> set pre \<union> set post" using assms(2) by auto
  note rs = regions_split [OF r nc assms(3,4)]
  have "block_end sz c \<le> 2 ^ 27" using r by (simp add: regions_def)
  note f = split_facts [OF this assms(3)]
  have b: "backs sz pv [] pre" "pv c \<noteq> 0 \<Longrightarrow> reach sz (pv c) c (rev pre)" "backs sz pv (c # rev pre) post"
    using assms(5) by (simp_all add: backs_append)
  have same: "a \<in> set pre \<union> set post \<Longrightarrow> unat x \<in> span sz a \<Longrightarrow> ?sz x = sz x" for a x by (rule rs(3))
  have rp: "reach sz q n (rev pre) \<Longrightarrow> reach ?sz q n (rev pre)" for q n
    by (rule reach_cong) (rule same, auto)
  have "backs ?sz ?pv [] pre"
    by (rule backs_suffix [OF _ _ _ _ b(1)]) (use rs(2) in \<open>auto intro!: same\<close>)
  moreover have "?pv c \<noteq> 0 \<Longrightarrow> reach ?sz (?pv c) c (rev pre)" using b(2) rp f(2) by simp
  moreover have "reach ?sz c ?m (c # rev pre)" by (simp add: into_def)
  moreover have "backs ?sz ?pv (?m # c # rev pre) post"
  proof (rule backs_suffix [OF _ _ _ _ b(3)])
    fix q n assume n: "n \<in> set post" "reach sz q n (c # rev pre)"
    show "reach ?sz q n (?m # c # rev pre)"
    proof (cases "into sz q n c")
      case True
      then have q: "unat c \<le> unat q" "unat q < block_end sz c" "q \<noteq> c \<Longrightarrow> q + 20 + sz q \<noteq> n"
        by (auto simp: into_def span_def)
      have at: "q \<noteq> c \<Longrightarrow> q \<noteq> ?m \<Longrightarrow> ?sz q = sz q" by (simp add: split_sizes_def)
      show ?thesis
      proof (cases "unat q < unat ?m")
        case True
        then have "q \<noteq> ?m" by auto
        with True have "into ?sz q n c" using q f(3) at by (auto simp: into_def span_def)
        then show ?thesis using f(3) by simp
      next
        case False
        moreover have "q \<noteq> c" using False f(1) by auto
        ultimately have "into ?sz q n ?m" using q f(4) at by (auto simp: into_def span_def)
        then show ?thesis by simp
      qed
    next
      case False
      with n(2) have o: "reach sz q n (rev pre)" "block_end sz (hd (rev pre)) = unat c" by auto
      then have "pre \<noteq> []" by auto
      then have "block_end ?sz (hd (rev pre)) = block_end sz (hd (rev pre))"
        by (intro block_end_cong) (rule same [of "hd (rev pre)"], simp add: hd_rev, assumption)
      then show ?thesis using rp [OF o(1)] o(2) f(3) by simp
    qed
  qed (use f(4) rs(2) in \<open>auto intro!: same\<close>)
  ultimately show ?thesis by (simp add: backs_append)
qed

text \<open>\<open>b\<close> takes in the block \<open>z\<close> that starts where \<open>b\<close> ends.\<close>

definition merge_sizes :: "u32 \<Rightarrow> u32 \<Rightarrow> (u32 \<Rightarrow> u32) \<Rightarrow> u32 \<Rightarrow> u32" where
  "merge_sizes b z sz = sz(b := sz b + 20 + sz z)"

lemma merge_facts:
  assumes "block_end sz b = unat z" "block_end sz z \<le> 2 ^ 27"
  shows "unat (sz b + 20 + sz z) = unat (sz b) + 20 + unat (sz z)"
    "block_end (merge_sizes b z sz) b = block_end sz z" "span (merge_sizes b z sz) b = span sz b \<union> span sz z"
proof -
  have bound: "unat (sz b) + 20 + unat (sz z) \<le> 2 ^ 27" using assms by (simp add: block_end_def)
  have "unat (sz b + 20) = unat (sz b) + 20" using bound by (subst unat_plus_u32) simp_all
  then show u: "unat (sz b + 20 + sz z) = unat (sz b) + 20 + unat (sz z)"
    using bound by (subst unat_plus_u32) simp_all
  then show e: "block_end (merge_sizes b z sz) b = block_end sz z"
    using assms(1) by (simp add: merge_sizes_def block_end_def)
  show "span (merge_sizes b z sz) b = span sz b \<union> span sz z"
    unfolding span_def e using assms(1) by (auto simp: block_end_def)
qed

lemma regions_merge:
  assumes "regions sz (insert b (insert z A))" "b \<notin> A" "z \<notin> A" "b \<noteq> z" "block_end sz b = unat z"
  shows "regions (merge_sizes b z sz) (insert b A)"
    "a \<in> A \<Longrightarrow> unat x \<in> span sz a \<Longrightarrow> merge_sizes b z sz x = sz x"
proof -
  have "block_end sz z \<le> 2 ^ 27" using assms(1) by (simp add: regions_def)
  note f = merge_facts [OF assms(5) this]
  let ?sz = "merge_sizes b z sz"
  have out: "x \<noteq> b" if "a \<in> A" "unat x \<in> span sz a" for a x
    using regions_other [OF assms(1), of a b x b] that assms(2) by auto
  then show same: "a \<in> A \<Longrightarrow> unat x \<in> span sz a \<Longrightarrow> ?sz x = sz x" for a x
    by (simp add: merge_sizes_def)
  have sp: "a \<in> A \<Longrightarrow> span ?sz a = span sz a" "a \<in> A \<Longrightarrow> ?sz a = sz a" for a
    using same [of a a] by (simp_all add: span_def block_end_def)
  have "0 < ?sz b"
  proof -
    have "0 < unat (?sz b)" using f(1) by (simp add: merge_sizes_def)
    then show ?thesis by (simp only: word_less_nat_alt unat_0)
  qed
  moreover have "span ?sz b \<inter> span sz a = {}" if "a \<in> A" for a
  proof -
    have "span sz b \<inter> span sz a = {}" "span sz z \<inter> span sz a = {}"
      using assms(1-3) that by (auto simp: regions_insert)
    then show ?thesis unfolding f(3) by blast
  qed
  moreover have "regions sz A" using assms(1) by (simp only: regions_insert)
  then have "regions ?sz A" using regions_cong sp(2) by blast
  ultimately show "regions ?sz (insert b A)"
    using \<open>block_end sz z \<le> 2 ^ 27\<close> sp(1) f(2) by (simp add: regions_insert)
qed

lemma backs_merge:
  assumes "regions sz (set (pre @ b # z # post))" "distinct (pre @ b # z # post)" "block_end sz b = unat z"
    and "backs sz pv [] (pre @ b # z # post)"
    and "\<And>x. x \<in> set (pre @ b # tl post) \<Longrightarrow> pv' x = pv x" "post \<noteq> [] \<Longrightarrow> pv' (hd post) = b"
  shows "backs (merge_sizes b z sz) pv' [] (pre @ b # post)"
proof -
  let ?sz = "merge_sizes b z sz"
  have r: "regions sz (insert b (insert z (set pre \<union> set post)))" using assms(1) by simp
  have nb: "b \<notin> set pre \<union> set post" "z \<notin> set pre \<union> set post" "b \<noteq> z" using assms(2) by auto
  note rs = regions_merge [OF r nb assms(3)]
  have "block_end sz z \<le> 2 ^ 27" using r by (simp add: regions_def)
  note f = merge_facts [OF assms(3) this]
  have b: "backs sz pv [] pre" "pv b \<noteq> 0 \<Longrightarrow> reach sz (pv b) b (rev pre)" "backs sz pv (z # b # rev pre) post"
    using assms(4) by (simp_all add: backs_append)
  have same: "a \<in> set pre \<union> set post \<Longrightarrow> unat x \<in> span sz a \<Longrightarrow> ?sz x = sz x" for a x by (rule rs(2))
  have rp: "reach sz q n (rev pre) \<Longrightarrow> reach ?sz q n (rev pre)" for q n
    by (rule reach_cong) (rule same, auto)
  have 1: "backs ?sz pv' [] pre"
    by (rule backs_suffix [OF _ _ _ _ b(1)]) (use assms(5) in \<open>auto intro!: same\<close>)
  have 2: "pv' b \<noteq> 0 \<Longrightarrow> reach ?sz (pv' b) b (rev pre)" using b(2) rp assms(5) [of b] by simp
  have 3: "backs ?sz pv' (b # rev pre) post"
  proof (cases post)
    case (Cons y ys)
    have "pv' y = b" using assms(6) Cons by simp
    moreover have "reach ?sz b y (b # rev pre)" by (simp add: into_def)
    moreover have "backs ?sz pv' (y # b # rev pre) ys"
    proof (rule backs_suffix)
      show "backs sz pv (y # z # b # rev pre) ys" using b(3) Cons by simp
      fix q n assume n: "n \<in> set ys" "reach sz q n (y # z # b # rev pre)"
      have into_b: "into ?sz q n b" if "into sz q n b"
        using that f(3) by (auto simp: into_def merge_sizes_def)
      have "into ?sz q n y \<or> (reach ?sz q n (b # rev pre) \<and> block_end ?sz b = unat y)"
      proof (cases "into sz q n y")
        case True
        have "into ?sz q n y" by (rule into_cong [OF _ True]) (rule same [of y], simp add: Cons)
        then show ?thesis by simp
      next
        case False
        with n(2) have zy: "block_end sz z = unat y" "reach sz q n (z # b # rev pre)" by auto
        have ny: "n \<noteq> y" using n(1) assms(2) Cons by auto
        consider "into sz q n z" | "into sz q n b" |
          "reach sz q n (rev pre)" "block_end sz (hd (rev pre)) = unat b" using zy(2) by auto
        then have "reach ?sz q n (b # rev pre)"
        proof cases
          case 1
          have "q + 20 + sz q \<noteq> n"
          proof (cases "q = z")
            case True
            then show ?thesis using zy(1) ny block_end_eq [of sz z y] block_end_eq [of sz z n] r
              by (auto simp: regions_def)
          qed (use 1 in \<open>simp add: into_def\<close>)
          then have "into ?sz q n b" using 1 f(3) by (auto simp: into_def merge_sizes_def)
          then show ?thesis by simp
        next
          case 2
          then show ?thesis using into_b by simp
        next
          case 3
          then have "pre \<noteq> []" by auto
          then have "block_end ?sz (hd (rev pre)) = block_end sz (hd (rev pre))"
            by (intro block_end_cong) (rule same [of "hd (rev pre)"], simp add: hd_rev, assumption)
          with 3 rp show ?thesis by simp
        qed
        then show ?thesis using f(2) zy(1) by simp
      qed
      then show "reach ?sz q n (y # b # rev pre)" by simp
    next
      have "block_end ?sz y = block_end sz y" by (rule block_end_cong) (rule same [of y], simp_all add: Cons)
      then show "y # z # b # rev pre \<noteq> [] \<Longrightarrow> y # b # rev pre \<noteq> [] \<and>
          block_end ?sz (hd (y # b # rev pre)) = block_end sz (hd (y # z # b # rev pre))" by simp
    qed (use assms(5) Cons in \<open>auto intro!: same\<close>)
    ultimately show ?thesis by (simp add: Cons)
  qed simp
  from 1 2 3 show ?thesis by (simp add: backs_append)
qed

lemma backs_snoc:
  assumes "backs sz pv [] bs" "\<And>c x. c \<in> set bs \<Longrightarrow> unat x \<in> span sz c \<Longrightarrow> sz' x = sz x"
    "\<And>c. c \<in> set bs \<Longrightarrow> pv' c = pv c" "pv' g = (if bs = [] then 0 else last bs)"
  shows "backs sz' pv' [] (bs @ [g])"
proof -
  have "backs sz' pv' [] bs"
    by (rule backs_suffix [OF _ _ _ _ assms(1)]) (simp_all add: assms(3), rule assms(2))
  moreover have "reach sz' (last bs) g (rev bs)" if "bs \<noteq> []"
  proof -
    have "rev bs = last bs # tl (rev bs)" using that by (metis hd_rev list.collapse rev_is_Nil_conv)
    then show ?thesis by (metis into_def reach.simps(2) span_self)
  qed
  ultimately show ?thesis using assms(4) by (auto simp: backs_append)
qed

section \<open>The invariant\<close>

definition sizes :: "heap \<Rightarrow> u32 \<Rightarrow> u32" where "sizes s a = b_size (h_mem s a)"
definition nexts :: "heap \<Rightarrow> u32 \<Rightarrow> u32" where "nexts s a = b_next (h_mem s a)"
definition prevs :: "heap \<Rightarrow> u32 \<Rightarrow> u32" where "prevs s a = b_prev (h_mem s a)"

text \<open>The two stamps.\<close>

definition stamped :: "heap \<Rightarrow> u32 \<Rightarrow> bool" where
  "stamped s a \<longleftrightarrow> (b_free (h_mem s a) = 1 \<and> b_magic (h_mem s a) = HEAP_MAGIC_FREE) \<or>
     (b_free (h_mem s a) = 0 \<and> b_magic (h_mem s a) = HEAP_MAGIC_ALLOC)"

definition heap_inv :: "heap \<Rightarrow> u32 list \<Rightarrow> bool" where
  "heap_inv s bs \<longleftrightarrow> bitmap_ok (h_bitmap s) \<and> 0 \<notin> free_frames (h_bitmap s) \<and>
     chain (nexts s) (h_head s) bs \<and> distinct bs \<and> regions (sizes s) (set bs) \<and>
     backs (sizes s) (prevs s) [] bs \<and> (\<forall>a \<in> set bs. stamped s a) \<and>
     (\<forall>a \<in> set bs. \<forall>x \<in> span (sizes s) a. x div 4096 \<notin> free_frames (h_bitmap s))"

text \<open>The chunks: address, payload size, free or not.\<close>

type_synonym chunk = "nat \<times> nat \<times> bool"

definition chunk_at :: "heap \<Rightarrow> u32 \<Rightarrow> chunk" where
  "chunk_at s a = (unat a, unat (sizes s a), b_free (h_mem s a) = 1)"

subsection \<open>What the updates do to the fields\<close>

lemma at_block_views [simp]:
  "sizes (at_block p f s) = (sizes s)(p := b_size (f (h_mem s p)))"
  "nexts (at_block p f s) = (nexts s)(p := b_next (f (h_mem s p)))"
  "prevs (at_block p f s) = (prevs s)(p := b_prev (f (h_mem s p)))"
  "h_mem (at_block p f s) = (h_mem s)(p := f (h_mem s p))"
  "h_head (at_block p f s) = h_head s" "h_bitmap (at_block p f s) = h_bitmap s" "h_if (at_block p f s) = h_if s"
  by (auto simp: at_block_def sizes_def nexts_def prevs_def)

lemma same_view [simp]:
  "(sizes s)(p := b_size (h_mem s p)) = sizes s"
  "(nexts s)(p := b_next (h_mem s p)) = nexts s"
  "(prevs s)(p := b_prev (h_mem s p)) = prevs s"
  by (auto simp: sizes_def nexts_def prevs_def)

lemma say_views [simp]:
  "sizes (say t s) = sizes s" "nexts (say t s) = nexts s" "prevs (say t s) = prevs s"
  "h_mem (say t s) = h_mem s" "h_head (say t s) = h_head s" "h_bitmap (say t s) = h_bitmap s" "h_if (say t s) = h_if s"
  by (auto simp: say_def sizes_def nexts_def prevs_def)

lemma bitmap_views [simp]:
  "sizes (h_bitmap_update g s) = sizes s" "nexts (h_bitmap_update g s) = nexts s" "prevs (h_bitmap_update g s) = prevs s"
  "sizes (h_head_update h s) = sizes s" "nexts (h_head_update h s) = nexts s" "prevs (h_head_update h s) = prevs s"
  by (auto simp: sizes_def nexts_def prevs_def)

lemma say_inv [simp]: "heap_inv (say t s) bs \<longleftrightarrow> heap_inv s bs" "chunk_at (say t s) = chunk_at s"
  by (auto simp: heap_inv_def stamped_def chunk_at_def)

lemma heap_inv_bound: "heap_inv s bs \<Longrightarrow> a \<in> set bs \<Longrightarrow> block_end (sizes s) a \<le> 2 ^ 27"
  by (simp add: heap_inv_def regions_def)

lemma heap_inv_chain:
  assumes "heap_inv s (pre @ c # post)"
  shows "c \<noteq> 0" "nexts s c = (case post of [] \<Rightarrow> 0 | d # _ \<Rightarrow> d)" "h_head s \<noteq> 0"
proof -
  have c: "chain (nexts s) (h_head s) (pre @ c # post)" using assms by (simp add: heap_inv_def)
  then show "c \<noteq> 0" "nexts s c = (case post of [] \<Rightarrow> 0 | d # _ \<Rightarrow> d)"
    using chain_suffix [OF c] by (cases post; auto)+
  show "h_head s \<noteq> 0" using c by (cases pre) auto
qed

subsection \<open>Changing the state of a block\<close>

lemma stamp_inv:
  assumes "heap_inv s bs" "v = 0 \<and> g = HEAP_MAGIC_ALLOC \<or> v = 1 \<and> g = HEAP_MAGIC_FREE"
  shows "heap_inv (at_block c (\<lambda>b. b\<lparr>b_free := v, b_magic := g\<rparr>) s) bs"
  using assms by (auto simp: heap_inv_def stamped_def)

lemma stamp_chunk:
  "chunk_at (at_block c (\<lambda>b. b\<lparr>b_free := v, b_magic := g\<rparr>) s) a =
     (unat a, unat (sizes s a), if a = c then v = 1 else b_free (h_mem s a) = 1)"
  by (simp add: chunk_at_def)

subsection \<open>Splitting a free block\<close>

definition split_block :: "u32 \<Rightarrow> u32 \<Rightarrow> heap \<Rightarrow> heap" where
  "split_block c k s = at_block c (\<lambda>b. b\<lparr>b_size := k, b_free := 0, b_next := c + 20 + k, b_magic := HEAP_MAGIC_ALLOC\<rparr>)
     (at_block (c + 20 + k) (\<lambda>m. m\<lparr>b_size := sizes s c - k - 20, b_free := 1, b_next := nexts s c,
        b_prev := c, b_magic := HEAP_MAGIC_FREE\<rparr>) s)"

lemma split_inv:
  assumes inv: "heap_inv s (pre @ c # post)" and k: "unat k + 20 < unat (sizes s c)" "0 < k"
  shows "heap_inv (split_block c k s) (pre @ c # (c + 20 + k) # post)"
    "map (chunk_at (split_block c k s)) (pre @ c # (c + 20 + k) # post) =
       map (chunk_at s) pre @ (unat c, unat k, False) # (unat c + 20 + unat k, unat (sizes s c) - unat k - 20, True) #
       map (chunk_at s) post"
proof -
  let ?m = "c + 20 + k" and ?s = "split_block c k s"
  have bound: "block_end (sizes s) c \<le> 2 ^ 27" using heap_inv_bound [OF inv] by simp
  note f = split_facts [OF bound k(1)]
  have dist: "distinct (pre @ c # post)" "c \<notin> set pre \<union> set post"
    and reg: "regions (sizes s) (insert c (set pre \<union> set post))"
    using inv by (auto simp: heap_inv_def)
  note r = regions_split [OF reg dist(2) k]
  have ne: "?m \<noteq> c" "c \<noteq> ?m" using f(2) by auto
  have sz: "sizes ?s = split_sizes c k (sizes s)"
    using ne by (auto simp: split_block_def split_sizes_def fun_eq_iff sizes_def at_block_def)
  have nx: "nexts ?s = (nexts s)(?m := nexts s c, c := ?m)"
    using ne by (auto simp: split_block_def fun_eq_iff nexts_def at_block_def)
  have pv: "prevs ?s = (prevs s)(?m := c)"
    using ne by (auto simp: split_block_def fun_eq_iff prevs_def at_block_def)
  have other: "a \<noteq> c \<Longrightarrow> a \<noteq> ?m \<Longrightarrow> h_mem ?s a = h_mem s a" for a by (simp add: split_block_def)
  have mc: "h_bitmap ?s = h_bitmap s" "h_head ?s = h_head s" "b_free (h_mem ?s c) = 0" "b_magic (h_mem ?s c) = HEAP_MAGIC_ALLOC"
    "b_free (h_mem ?s ?m) = 1" "b_magic (h_mem ?s ?m) = HEAP_MAGIC_FREE"
    using ne by (simp_all add: split_block_def)
  have out: "a \<in> set pre \<union> set post \<Longrightarrow> a \<noteq> c \<and> a \<noteq> ?m" for a using r(2) dist(2) by auto
  have nz: "?m \<noteq> 0" using f(1) by (auto simp: word_unat_eq_iff)
  have "chain (nexts s) (h_head s) (pre @ c # post)" using inv by (simp add: heap_inv_def)
  moreover from chain_suffix [OF this] have "chain (nexts ?s) (nexts ?s c) (?m # post)"
    using nz ne out unfolding nx by (auto intro: chain_cong)
  moreover have "x \<in> set pre \<Longrightarrow> nexts ?s x = nexts s x" for x using out [of x] by (simp add: nx)
  ultimately have "chain (nexts ?s) (h_head ?s) (pre @ c # ?m # post)"
    unfolding mc(2) using chain_replace by blast
  moreover have "distinct (pre @ c # ?m # post)" using dist r(2) ne by auto
  moreover have "regions (sizes ?s) (set (pre @ c # ?m # post))" unfolding sz using r(1) by (simp add: insert_commute)
  moreover have "backs (sizes ?s) (prevs ?s) [] (pre @ c # ?m # post)"
    unfolding sz pv using inv dist(1) k by (intro backs_split) (auto simp: heap_inv_def)
  moreover have "\<forall>a \<in> set (pre @ c # ?m # post). stamped ?s a"
    using inv other out mc by (auto simp: heap_inv_def stamped_def)
  moreover have "x div 4096 \<notin> free_frames (h_bitmap s)"
    if "a \<in> set (pre @ c # ?m # post)" "x \<in> span (sizes ?s) a" for a x
  proof -
    have "\<exists>a' \<in> set (pre @ c # post). x \<in> span (sizes s) a'"
    proof (cases "a \<in> set pre \<union> set post")
      case True
      then have "span (sizes ?s) a = span (sizes s) a"
        unfolding sz using r(3) [OF True, of a] by (simp add: span_def block_end_def)
      with True that show ?thesis by auto
    next
      case False
      then have "x \<in> span (sizes s) c" using that r(4) unfolding sz by auto
      then show ?thesis by auto
    qed
    with inv show ?thesis by (auto simp: heap_inv_def)
  qed
  ultimately show "heap_inv ?s (pre @ c # ?m # post)"
    using inv mc(1) unfolding heap_inv_def by simp
  have same: "a \<in> set pre \<union> set post \<Longrightarrow> chunk_at ?s a = chunk_at s a" for a
    using out [of a] other [of a] by (simp add: chunk_at_def sizes_def)
  have "sizes ?s c = k" "sizes ?s ?m = sizes s c - k - 20" using ne by (simp_all add: sz split_sizes_def)
  then show "map (chunk_at ?s) (pre @ c # ?m # post) =
       map (chunk_at s) pre @ (unat c, unat k, False) # (unat c + 20 + unat k, unat (sizes s c) - unat k - 20, True) #
       map (chunk_at s) post"
    using same mc f(1,7) by (auto simp: chunk_at_def)
qed

subsection \<open>Adding a frame\<close>

lemma request_space_spec:
  assumes inv: "heap_inv s bs" and free: "free_frames (h_bitmap s) \<noteq> {}"
  defines "g \<equiv> of_nat (Min (free_frames (h_bitmap s))) * 4096"
  shows "\<exists>s'. request_space (if bs = [] then 0 else last bs) s = Inr (g, s') \<and> g \<noteq> 0 \<and>
    heap_inv (s'\<lparr>h_head := if bs = [] then g else h_head s\<rparr>) (bs @ [g]) \<and> h_head s' = h_head s \<and>
    map (chunk_at s') (bs @ [g]) = map (chunk_at s) bs @ [(Min (free_frames (h_bitmap s)) * 4096, 4076, True)] \<and>
    free_frames (h_bitmap s') = free_frames (h_bitmap s) - {Min (free_frames (h_bitmap s))}"
proof -
  let ?f = "Min (free_frames (h_bitmap s))" and ?l = "if bs = [] then 0 else last bs"
  have bm: "bitmap_ok (h_bitmap s)" "0 \<notin> free_frames (h_bitmap s)" using inv by (auto simp: heap_inv_def)
  have fin: "?f \<in> free_frames (h_bitmap s)" using free by simp
  have f: "?f < MAX_FRAMES" "?f \<noteq> 0" using fin free_frames_bound [OF bm(1)] bm(2) by metis+
  obtain bm' where a: "pmm_alloc_frame (h_bitmap s) = Inr (g, bm')" "bitmap_ok bm'"
    "free_frames bm' = free_frames (h_bitmap s) - {?f}"
    using pmm_alloc_frame_spec [OF bm(1)] free by (auto simp: g_def)
  have ug: "unat g = ?f * 4096" using frame_address [OF f(1)] by (simp add: g_def)
  then have nz: "g \<noteq> 0" using f(2) by auto
  have new: "g \<notin> set bs"
  proof
    assume "g \<in> set bs"
    then have "unat g div 4096 \<notin> free_frames (h_bitmap s)" using inv by (auto simp: heap_inv_def)
    with ug fin show False by simp
  qed
  let ?h = "\<lambda>b :: block_t. b\<lparr>b_size := 4076, b_free := 1, b_magic := HEAP_MAGIC_FREE, b_next := 0, b_prev := ?l\<rparr>"
  let ?s1 = "at_block g ?h (s\<lparr>h_bitmap := bm'\<rparr>)"
  define s' where "s' = (if bs = [] then ?s1 else at_block (last bs) (b_next_update (\<lambda>_. g)) ?s1)"
  have last: "bs \<noteq> [] \<Longrightarrow> last bs \<in> set bs" by simp
  then have lnz: "bs \<noteq> [] \<Longrightarrow> last bs \<noteq> 0 \<and> last bs \<noteq> g"
    using inv new chain_null by (metis heap_inv_def)
  have run: "request_space ?l s = Inr (g, s')"
    using a(1) nz lnz by (auto simp: s'_def request_space_def BLOCK_SIZE_def Let_def at_block_def fun_eq_iff)
  have views: "sizes s' = (sizes s)(g := 4076)" "prevs s' = (prevs s)(g := ?l)"
    "nexts s' = (if bs = [] then (nexts s)(g := 0) else (nexts s)(g := 0, last bs := g))"
    "h_bitmap s' = bm'" "h_head s' = h_head s"
    using lnz by (auto simp: s'_def fun_eq_iff sizes_def prevs_def nexts_def at_block_def)
  have other: "x \<noteq> g \<Longrightarrow> sizes s' x = sizes s x" for x by (simp add: views)
  have flags: "b_free (h_mem s' a) = (if a = g then 1 else b_free (h_mem s a))"
    "b_magic (h_mem s' a) = (if a = g then HEAP_MAGIC_FREE else b_magic (h_mem s a))" for a
    using lnz by (auto simp: s'_def)
  have span_g: "span (sizes s') g = {?f * 4096..<(?f + 1) * 4096}"
    using ug by (auto simp: span_def block_end_def views)
  have used: "x div 4096 \<notin> free_frames (h_bitmap s)" if "c \<in> set bs" "x \<in> span (sizes s) c" for c x
    using inv that by (auto simp: heap_inv_def)
  have far: "x \<noteq> g" if "c \<in> set bs" "unat x \<in> span (sizes s) c" for c x
    using used [OF that] ug fin by auto
  have at_f: "x div 4096 = ?f" if "x \<in> span (sizes s') g" for x
    using that unfolding span_g by auto
  have "chain (nexts s') (if bs = [] then g else h_head s) (bs @ [g])"
  proof (cases "bs = []")
    case True
    then show ?thesis using nz by (simp add: views)
  next
    case False
    then obtain as l where bs: "bs = as @ [l]" by (metis append_butlast_last_id)
    have "chain (nexts s) (h_head s) (as @ [l])" "distinct (as @ [l])" using inv bs by (simp_all add: heap_inv_def)
    then show ?thesis using chain_snoc [of "nexts s" "h_head s" as l g] nz new False by (simp add: views bs)
  qed
  moreover have "regions (sizes s') (set (bs @ [g]))"
  proof -
    have "regions (sizes s') (set bs)"
      using inv new by (subst regions_cong [of _ _ "sizes s"]) (auto simp: views heap_inv_def)
    moreover have "span (sizes s') g \<inter> span (sizes s') c = {}" if "c \<in> set bs" for c
    proof -
      have "c \<noteq> g" using that new by auto
      then have "span (sizes s') c = span (sizes s) c" using other [of c] by (simp add: span_def block_end_def)
      with used [OF that] at_f fin show ?thesis by fastforce
    qed
    moreover have "block_end (sizes s') g \<le> 2 ^ 27" using ug f(1) by (simp add: block_end_def views MAX_FRAMES_def)
    ultimately show ?thesis by (simp add: regions_insert views)
  qed
  moreover have "backs (sizes s') (prevs s') [] (bs @ [g])"
  proof (rule backs_snoc)
    show "backs (sizes s) (prevs s) [] bs" using inv by (simp add: heap_inv_def)
    show "c \<in> set bs \<Longrightarrow> unat x \<in> span (sizes s) c \<Longrightarrow> sizes s' x = sizes s x" for c x
      using far other by blast
    show "c \<in> set bs \<Longrightarrow> prevs s' c = prevs s c" for c using new by (auto simp: views)
  qed (simp add: views)
  moreover have "x div 4096 \<notin> free_frames bm'" if "c \<in> set (bs @ [g])" "x \<in> span (sizes s') c" for c x
  proof (cases "c = g")
    case True
    with that at_f a(3) show ?thesis by auto
  next
    case False
    then have "span (sizes s') c = span (sizes s) c" using other [of c] by (simp add: span_def block_end_def)
    with False that used a(3) show ?thesis by auto
  qed
  moreover have "\<forall>c \<in> set (bs @ [g]). stamped s' c"
    using inv new by (auto simp: stamped_def flags heap_inv_def)
  moreover have "distinct (bs @ [g])" using inv new by (simp add: heap_inv_def)
  ultimately have inv': "heap_inv (s'\<lparr>h_head := if bs = [] then g else h_head s\<rparr>) (bs @ [g])"
    using a(2,3) bm(2) unfolding heap_inv_def stamped_def by (simp add: views(4) bitmap_views)
  have ch: "map (chunk_at s') (bs @ [g]) = map (chunk_at s) bs @ [(?f * 4096, 4076, True)]"
    using new ug by (auto simp: chunk_at_def flags views)
  have fr: "free_frames (h_bitmap s') = free_frames (h_bitmap s) - {?f}"
    unfolding views(4) by (rule a(3))
  show ?thesis by (rule exI [of _ s'], intro conjI) (rule run nz inv' views(5) ch fr)+
qed

section \<open>\<open>kmalloc\<close> is first fit\<close>

text \<open>
  The first free chunk with room for \<open>n\<close> bytes is taken; what is left over becomes a chunk of its
  own when it can hold a header and at least one byte.
\<close>

fun first_fit :: "nat \<Rightarrow> chunk list \<Rightarrow> (nat \<times> chunk list) option" where
  "first_fit n [] = None"
| "first_fit n ((a, k, f) # cs) =
     (if f \<and> n \<le> k then
        Some (a + 20, if n + 20 < k then (a, n, False) # (a + 20 + n, k - n - 20, True) # cs else (a, k, False) # cs)
      else map_option (\<lambda>(p, cs). (p, (a, k, f) # cs)) (first_fit n cs))"

lemma first_fit_append:
  "first_fit n cs = None \<Longrightarrow> first_fit n (cs @ ds) = map_option (\<lambda>(p, ds). (p, cs @ ds)) (first_fit n ds)"
proof (induction cs rule: first_fit.induct)
  case (1 n)
  then show ?case by (cases "first_fit n ds") auto
next
  case (2 n a k f cs)
  then show ?case by (cases "first_fit n ds") (auto split: if_splits)
qed

text \<open>One round of the loop.\<close>

declare kmalloc_loop.simps(2) [simp del]

lemma loop_round:
  assumes "c \<noteq> 0" "unat sz \<le> 4076"
  shows "kmalloc_loop (Suc n) sz c lst s =
    (if b_free (h_mem s c) = 1 \<and> sz \<le> sizes s c then
       Inr (c + 20, if unat sz + 20 < unat (sizes s c) then split_block c sz s
                    else at_block c (\<lambda>b. b\<lparr>b_free := 0, b_magic := HEAP_MAGIC_ALLOC\<rparr>) s)
     else kmalloc_loop n sz (nexts s c) c s)"
proof -
  have u: "unat (sz + 20 + 1) = unat sz + 21"
  proof -
    have "unat (sz + 20) = unat sz + 20" using assms(2) by (subst unat_plus_u32) simp_all
    then show ?thesis using assms(2) by (subst unat_plus_u32) simp_all
  qed
  have big: "sz + BLOCK_SIZE + 1 \<le> sizes s c \<longleftrightarrow> unat sz + 20 < unat (sizes s c)"
    unfolding BLOCK_SIZE_def word_le_nat_alt u by auto
  have eq: "sizes s c = sz \<Longrightarrow> \<not> unat sz + 20 < unat (sizes s c)" by simp
  have le: "unat sz + 20 < unat (sizes s c) \<Longrightarrow> sz < sizes s c" by (simp add: word_less_nat_alt)
  have sp: "at_block c (\<lambda>b. b\<lparr>b_size := sz, b_free := 0, b_next := c + BLOCK_SIZE + sz, b_magic := HEAP_MAGIC_ALLOC\<rparr>)
      (at_block (c + BLOCK_SIZE + sz) (\<lambda>m. m\<lparr>b_size := sizes s c - sz - BLOCK_SIZE, b_free := 1, b_next := nexts s c,
         b_prev := c, b_magic := HEAP_MAGIC_FREE\<rparr>) s) = split_block c sz s"
    by (simp only: split_block_def BLOCK_SIZE_def)
  have bs: "c + BLOCK_SIZE = c + 20" by (simp only: BLOCK_SIZE_def)
  show ?thesis
    unfolding kmalloc_loop.simps(2) Let_def sizes_def [symmetric] nexts_def [symmetric] sp big unfolding bs
    using assms(1) eq le by (auto simp: order.order_iff_strict)
qed

lemma loop_null:
  "kmalloc_loop (Suc n) sz 0 lst s = andthen (request_space lst s) (\<lambda>(block, s).
     if block = 0 then Inr (0, say (text_bytes ''HEAP: alloc FAILED, no space\<newline>'') s)
     else kmalloc_loop n sz block lst s)"
  by (simp add: kmalloc_loop.simps(2))

lemma loop_fits:
  assumes inv: "heap_inv s (pre @ c # post)" and fits: "b_free (h_mem s c) = 1" "sz \<le> sizes s c" "0 < sz" "unat sz \<le> 4076"
  shows "\<exists>s' bs'. kmalloc_loop (Suc n) sz c lst s = Inr (c + 20, s') \<and> heap_inv s' bs' \<and>
    map (chunk_at s') bs' = map (chunk_at s) pre @ snd (the (first_fit (unat sz) (map (chunk_at s) (c # post)))) \<and>
    h_bitmap s' = h_bitmap s"
proof -
  note round = loop_round [OF heap_inv_chain(1) [OF inv] fits(4), of n lst s]
  have dist: "c \<notin> set pre \<union> set post" using inv by (auto simp: heap_inv_def)
  have u: "unat sz \<le> unat (sizes s c)" using fits(2) by (simp add: word_le_nat_alt)
  show ?thesis
  proof (cases "unat sz + 20 < unat (sizes s c)")
    case True
    have "h_bitmap (split_block c sz s) = h_bitmap s" by (simp add: split_block_def)
    then show ?thesis using split_inv [OF inv True fits(3)] True fits u
      unfolding round by (auto simp: chunk_at_def)
  next
    case False
    let ?s' = "at_block c (\<lambda>b. b\<lparr>b_free := 0, b_magic := HEAP_MAGIC_ALLOC\<rparr>) s"
    have "heap_inv ?s' (pre @ c # post)" by (rule stamp_inv [OF inv]) simp
    moreover have "map (chunk_at ?s') (pre @ c # post) = map (chunk_at s) pre @ (unat c, unat (sizes s c), False) # map (chunk_at s) post"
      using dist by (auto simp: stamp_chunk chunk_at_def)
    ultimately show ?thesis using False fits u unfolding round by (auto simp: chunk_at_def)
  qed
qed

lemma chunk_fits:
  "first_fit (unat sz) (map (chunk_at s) (c # cs)) = None \<Longrightarrow> b_free (h_mem s c) \<noteq> 1 \<or> \<not> sz \<le> sizes s c"
  by (auto simp: chunk_at_def word_le_nat_alt split: if_splits)

text \<open>The scan over the rest \<open>post\<close> of the list.\<close>

lemma loop_scan:
  assumes "heap_inv s (pre @ post)" "length post < n" "0 < sz" "unat sz \<le> 4076"
  shows "case first_fit (unat sz) (map (chunk_at s) post) of
      Some (p, cs) \<Rightarrow> \<exists>q s' bs'. kmalloc_loop n sz (case post of [] \<Rightarrow> 0 | c # _ \<Rightarrow> c) lst s = Inr (q, s') \<and> unat q = p \<and>
        heap_inv s' bs' \<and> map (chunk_at s') bs' = map (chunk_at s) pre @ cs \<and> h_bitmap s' = h_bitmap s
    | None \<Rightarrow> kmalloc_loop n sz (case post of [] \<Rightarrow> 0 | c # _ \<Rightarrow> c) lst s =
        kmalloc_loop (n - length post) sz 0 (if post = [] then lst else last post) s"
  using assms
proof (induction post arbitrary: pre n lst)
  case (Cons c post)
  then obtain m where n: "n = Suc m" "length post < m" by (cases n) auto
  note c = heap_inv_chain [OF Cons.prems(1)]
  have bound: "block_end (sizes s) c \<le> 2 ^ 27" using heap_inv_bound [OF Cons.prems(1)] by simp
  show ?case
  proof (cases "b_free (h_mem s c) = 1 \<and> sz \<le> sizes s c")
    case True
    have "unat (c + 20) = unat c + 20"
      using bound by (subst unat_plus_u32) (simp_all add: block_end_def)
    moreover have "\<exists>cs. first_fit (unat sz) (map (chunk_at s) (c # post)) = Some (unat c + 20, cs)"
      using True by (simp add: chunk_at_def word_le_nat_alt)
    ultimately show ?thesis
      using loop_fits [OF Cons.prems(1) _ _ Cons.prems(3,4), of m lst] True n by auto
  next
    case False
    then have s: "kmalloc_loop n sz c lst s = kmalloc_loop m sz (case post of [] \<Rightarrow> 0 | d # _ \<Rightarrow> d) c s"
      unfolding n c(2) [symmetric] loop_round [OF c(1) Cons.prems(4)] by (simp only: if_False)
    have f: "first_fit (unat sz) (map (chunk_at s) (c # post)) =
        map_option (\<lambda>(p, cs). (p, chunk_at s c # cs)) (first_fit (unat sz) (map (chunk_at s) post))"
      using False by (auto simp: chunk_at_def word_le_nat_alt)
    have "heap_inv s ((pre @ [c]) @ post)" using Cons.prems(1) by simp
    from Cons.IH [OF this n(2) Cons.prems(3,4), of c] show ?thesis
      unfolding f by (auto simp: s [unfolded n(1)] n split: option.splits)
  qed
qed simp

text \<open>The chunks the search runs over: with a new frame at the end when none of the old ones fits.\<close>

definition grown :: "nat \<Rightarrow> heap \<Rightarrow> u32 list \<Rightarrow> chunk list" where
  "grown n s bs = map (chunk_at s) bs @
     (if first_fit n (map (chunk_at s) bs) = None then [(Min (free_frames (h_bitmap s)) * 4096, 4076, True)] else [])"

text \<open>
  When no block fits, the search comes to the end of the list and goes on in the block of
  \<open>request_space\<close>. The header of a list that is still empty has to be made the head.
\<close>

lemma kmalloc_asks:
  assumes inv: "heap_inv s bs" and sz: "0 < sz" "unat sz \<le> 4076" and n: "length bs + 1 < n"
    and full: "first_fit (unat sz) (map (chunk_at s) bs) = None"
    and r: "request_space (if bs = [] then 0 else last bs) s = Inr (g, s1)" "g \<noteq> 0"
  obtains m lst where "kmalloc n sz s = kmalloc_loop (Suc m) sz g lst (if bs = [] then s1\<lparr>h_head := g\<rparr> else s1)"
proof -
  have ok: "sz \<noteq> 0" "\<not> sz > 4096 - BLOCK_SIZE"
    using sz by (auto simp: word_less_nat_alt BLOCK_SIZE_def)
  show thesis
  proof (cases "bs = []")
    case True
    then have "h_head s = 0" using inv by (simp add: heap_inv_def)
    moreover obtain m where "n = Suc m" using n by (cases n) auto
    ultimately show ?thesis using that [of m 0] ok r(1) True by (simp add: kmalloc_def)
  next
    case False
    then obtain c post where bs: "bs = c # post" by (cases bs) auto
    have h: "h_head s = c" using inv bs by (simp add: heap_inv_def)
    have "kmalloc_loop n sz c 0 s = kmalloc_loop (n - length bs) sz 0 (last bs) s"
      using loop_scan [where pre = "[]" and post = bs, of s n sz 0] inv n sz full bs by simp
    also obtain m where "n - length bs = Suc (Suc m)" using n by (metis add.commute less_diff_conv less_imp_Suc_add plus_1_eq_Suc add_Suc)
    finally have "kmalloc_loop n sz c 0 s = kmalloc_loop (Suc (Suc m)) sz 0 (last bs) s" by simp
    also have "\<dots> = kmalloc_loop (Suc m) sz g (last bs) s1"
      using r False by (simp add: loop_null del: kmalloc_loop.simps)
    finally have "kmalloc n sz s = kmalloc_loop (Suc m) sz g (last bs) s1"
      using ok h heap_inv_chain(3) [of s "[]" c post] inv bs by (simp add: kmalloc_def)
    with that [of m "last bs"] False show ?thesis by simp
  qed
qed

lemma kmalloc_new_frame:
  assumes inv: "heap_inv s bs" and sz: "0 < sz" "unat sz \<le> 4076" and free: "free_frames (h_bitmap s) \<noteq> {}"
    and full: "first_fit (unat sz) (map (chunk_at s) bs) = None" and n: "length bs + 1 < n"
  shows "\<exists>q s' bs'. kmalloc n sz s = Inr (q, s') \<and> heap_inv s' bs' \<and>
    first_fit (unat sz) (grown (unat sz) s bs) = Some (unat q, map (chunk_at s') bs') \<and>
    free_frames (h_bitmap s') = free_frames (h_bitmap s) - {Min (free_frames (h_bitmap s))}"
proof -
  let ?f = "Min (free_frames (h_bitmap s))"
  define g :: u32 where "g = of_nat ?f * 4096"
  have new: "unat sz \<le> 4076 \<Longrightarrow> first_fit (unat sz) [(?f * 4096, 4076, True)] \<noteq> None" by simp
  obtain s1 where r: "request_space (if bs = [] then 0 else last bs) s = Inr (g, s1)" "g \<noteq> 0"
    "heap_inv (s1\<lparr>h_head := if bs = [] then g else h_head s\<rparr>) (bs @ [g])" "h_head s1 = h_head s"
    "map (chunk_at s1) (bs @ [g]) = map (chunk_at s) bs @ [(?f * 4096, 4076, True)]"
    "free_frames (h_bitmap s1) = free_frames (h_bitmap s) - {?f}"
    using request_space_spec [OF inv free] unfolding g_def by blast
  define s2 where "s2 = s1\<lparr>h_head := if bs = [] then g else h_head s\<rparr>"
  have c2: "chunk_at s2 = chunk_at s1" "h_bitmap s2 = h_bitmap s1"
    by (auto simp: s2_def chunk_at_def sizes_def fun_eq_iff)
  have s2: "s2 = (if bs = [] then s1\<lparr>h_head := g\<rparr> else s1)" by (simp add: s2_def flip: r(4))
  obtain m lst where run: "kmalloc n sz s = kmalloc_loop (Suc m) sz g lst s2"
    unfolding s2 by (rule kmalloc_asks [OF inv sz n full r(1,2)])
  have "chunk_at s2 g = (?f * 4096, 4076, True)" using r(5) by (auto simp: c2)
  then have fits: "b_free (h_mem s2 g) = 1" "sz \<le> sizes s2 g"
    using sz(2) by (auto simp: chunk_at_def word_le_nat_alt)
  have inv2: "heap_inv s2 (bs @ g # [])" using r(3) by (simp add: s2_def)
  from loop_fits [OF inv2 fits sz, of m lst] obtain s' bs' where s': "kmalloc n sz s = Inr (g + 20, s')" "heap_inv s' bs'"
    "map (chunk_at s') bs' = map (chunk_at s2) bs @ snd (the (first_fit (unat sz) (map (chunk_at s2) [g])))"
    "h_bitmap s' = h_bitmap s2" unfolding run by auto
  have "block_end (sizes s2) g \<le> 2 ^ 27" using heap_inv_bound [OF inv2] by simp
  then have "unat (g + 20) = unat g + 20" by (subst unat_plus_u32) (simp_all add: block_end_def)
  moreover have "map (chunk_at s2) bs = map (chunk_at s) bs" using r(5) by (simp add: c2)
  moreover have "first_fit (unat sz) (map (chunk_at s2) [g]) = Some (unat g + 20, snd (the (first_fit (unat sz) (map (chunk_at s2) [g]))))"
    using fits by (auto simp: chunk_at_def word_le_nat_alt)
  moreover have "grown (unat sz) s bs = map (chunk_at s) bs @ map (chunk_at s2) [g]"
    using full \<open>chunk_at s2 g = (?f * 4096, 4076, True)\<close> by (simp add: grown_def)
  ultimately have "first_fit (unat sz) (grown (unat sz) s bs) = Some (unat (g + 20), map (chunk_at s') bs')"
    using first_fit_append [OF full, of "map (chunk_at s2) [g]"] s'(3) by simp
  with s' r(6) c2(2) show ?thesis by metis
qed

lemma kmalloc_spec:
  assumes inv: "heap_inv s bs" and sz: "0 < sz" "unat sz \<le> 4076" and n: "length bs + 1 < n"
    and room: "first_fit (unat sz) (map (chunk_at s) bs) = None \<Longrightarrow> free_frames (h_bitmap s) \<noteq> {}"
  shows "\<exists>q s' bs'. kmalloc n sz s = Inr (q, s') \<and> heap_inv s' bs' \<and>
    first_fit (unat sz) (grown (unat sz) s bs) = Some (unat q, map (chunk_at s') bs') \<and>
    free_frames (h_bitmap s') = (if first_fit (unat sz) (map (chunk_at s) bs) = None
      then free_frames (h_bitmap s) - {Min (free_frames (h_bitmap s))} else free_frames (h_bitmap s))"
proof (cases "first_fit (unat sz) (map (chunk_at s) bs)")
  case None
  with kmalloc_new_frame [OF inv sz room [OF None] None n] show ?thesis by simp
next
  case (Some pc)
  then obtain p cs where ff: "first_fit (unat sz) (map (chunk_at s) bs) = Some (p, cs)" by (cases pc) auto
  then obtain c post where bs: "bs = c # post" by (cases bs) auto
  have ok: "sz \<noteq> 0" "\<not> sz > 4096 - BLOCK_SIZE"
    using sz by (auto simp: word_less_nat_alt BLOCK_SIZE_def)
  have "h_head s = c" "c \<noteq> 0" using inv bs by (simp_all add: heap_inv_def)
  then have "kmalloc n sz s = kmalloc_loop n sz c 0 s" using ok by (simp add: kmalloc_def)
  with loop_scan [where pre = "[]" and post = bs, of s n sz 0] inv n sz ff bs show ?thesis
    by (auto simp: grown_def)
qed

section \<open>\<open>kfree\<close> joins neighbours\<close>

text \<open>
  A freed chunk takes in the chunk behind it when that one is free and starts where it ends, and
  is taken in by the chunk before it likewise, provided its back link leads there (\<open>linked_back\<close>).
\<close>

definition joins :: "chunk \<Rightarrow> chunk \<Rightarrow> bool" where
  "joins x y \<longleftrightarrow> snd (snd y) \<and> snd (snd x) \<and> fst x + 20 + fst (snd x) = fst y"

definition join :: "chunk \<Rightarrow> chunk \<Rightarrow> chunk" where
  "join x y = (fst x, fst (snd x) + 20 + fst (snd y), snd (snd x))"

fun join_right :: "chunk \<Rightarrow> chunk list \<Rightarrow> chunk list" where
  "join_right x [] = [x]"
| "join_right x (y # ys) = (if joins x y then join x y # ys else x # y # ys)"

definition free_chunk :: "bool \<Rightarrow> chunk list \<Rightarrow> chunk \<Rightarrow> chunk list \<Rightarrow> chunk list" where
  "free_chunk linked_back ps c cs =
     (let cs = join_right (fst c, fst (snd c), True) cs
      in if linked_back \<and> ps \<noteq> [] \<and> joins (last ps) (hd cs) then butlast ps @ join (last ps) (hd cs) # tl cs else ps @ cs)"

definition merge_block :: "u32 \<Rightarrow> u32 \<Rightarrow> heap \<Rightarrow> heap" where
  "merge_block b z s =
     (let s1 = at_block b (\<lambda>x. x\<lparr>b_size := b_size x + 20 + sizes s z, b_next := nexts s z\<rparr>) s
      in if nexts s z \<noteq> 0 then at_block (nexts s z) (b_prev_update (\<lambda>_. b)) s1 else s1)"

lemma merge_inv:
  assumes inv: "heap_inv s (pre @ b # z # post)" and adj: "block_end (sizes s) b = unat z"
  shows "heap_inv (merge_block b z s) (pre @ b # post)"
    "map (chunk_at (merge_block b z s)) (pre @ b # post) =
       map (chunk_at s) pre @ join (chunk_at s b) (chunk_at s z) # map (chunk_at s) post"
proof -
  define s' where "s' = merge_block b z s"
  let ?y = "nexts s z"
  have dist: "distinct (pre @ b # z # post)" "b \<notin> set pre \<union> set post" "z \<notin> set pre \<union> set post" "b \<noteq> z"
    and reg: "regions (sizes s) (insert b (insert z (set pre \<union> set post)))"
    using inv by (auto simp: heap_inv_def)
  have inv': "heap_inv s ((pre @ [b]) @ z # post)" using inv by simp
  have y: "?y = (case post of [] \<Rightarrow> 0 | d # _ \<Rightarrow> d)" using heap_inv_chain(2) [OF inv'] .
  have post0: "0 \<notin> set post" using inv chain_null by (fastforce simp: heap_inv_def)
  then have y0: "?y \<noteq> 0 \<longleftrightarrow> post \<noteq> []" unfolding y by (cases post) auto
  have yb: "?y \<noteq> b" using dist(2) heap_inv_chain(1) [OF inv] unfolding y by (cases post) auto
  have bound: "block_end (sizes s) z \<le> 2 ^ 27" using heap_inv_bound [OF inv] by simp
  note f = merge_facts [OF adj bound]
  note r = regions_merge [OF reg dist(2,3,4) adj]
  have sz: "sizes s' = merge_sizes b z (sizes s)"
    using yb by (auto simp: s'_def merge_block_def merge_sizes_def fun_eq_iff sizes_def at_block_def Let_def)
  have nx: "nexts s' = (nexts s)(b := ?y)"
    using yb by (auto simp: s'_def merge_block_def fun_eq_iff nexts_def at_block_def Let_def)
  have pv: "prevs s' = (if post = [] then prevs s else (prevs s)(?y := b))"
    using yb y0 by (auto simp: s'_def merge_block_def fun_eq_iff prevs_def at_block_def Let_def)
  have fl: "b_free (h_mem s' a) = b_free (h_mem s a)" "b_magic (h_mem s' a) = b_magic (h_mem s a)" for a
    by (auto simp: s'_def merge_block_def at_block_def Let_def)
  have mc: "h_bitmap s' = h_bitmap s" "h_head s' = h_head s" by (auto simp: s'_def merge_block_def Let_def)
  have "chain (nexts s) (h_head s) (pre @ b # z # post)" "chain (nexts s) (h_head s) ((pre @ [b]) @ z # post)"
    using inv by (simp_all add: heap_inv_def)
  then have "chain (nexts s') (nexts s' b) post"
    using chain_suffix dist(2) by (fastforce simp: nx intro: chain_cong)
  moreover have "x \<in> set pre \<Longrightarrow> nexts s' x = nexts s x" for x using dist(2) by (auto simp: nx)
  moreover note \<open>chain (nexts s) (h_head s) (pre @ b # z # post)\<close>
  ultimately have "chain (nexts s') (h_head s') (pre @ b # post)"
    unfolding mc(2) using chain_replace by blast
  moreover have "backs (sizes s') (prevs s') [] (pre @ b # post)"
    unfolding sz
  proof (rule backs_merge [OF _ dist(1) adj])
    show "regions (sizes s) (set (pre @ b # z # post))" "backs (sizes s) (prevs s) [] (pre @ b # z # post)"
      using inv by (simp_all add: heap_inv_def)
    show "post \<noteq> [] \<Longrightarrow> prevs s' (hd post) = b" by (cases post) (auto simp: pv y)
    show "prevs s' x = prevs s x" if "x \<in> set (pre @ b # tl post)" for x
    proof -
      have "post \<noteq> [] \<Longrightarrow> x \<noteq> ?y" using that dist yb by (cases post) (auto simp: y)
      then show ?thesis by (simp add: pv)
    qed
  qed
  moreover have "x div 4096 \<notin> free_frames (h_bitmap s)" if "a \<in> set (pre @ b # post)" "x \<in> span (sizes s') a" for a x
  proof -
    have "\<exists>a' \<in> set (pre @ b # z # post). x \<in> span (sizes s) a'"
    proof (cases "a = b")
      case True
      with that f(3) show ?thesis unfolding sz by auto
    next
      case False
      then have "sizes s' a = sizes s a" unfolding sz by (simp add: merge_sizes_def)
      then have "span (sizes s') a = span (sizes s) a" by (simp add: span_def block_end_def)
      with that show ?thesis by auto
    qed
    with inv show ?thesis by (auto simp: heap_inv_def)
  qed
  moreover have "\<forall>a \<in> set (pre @ b # post). stamped s' a" using inv by (auto simp: stamped_def fl heap_inv_def)
  moreover have "regions (sizes s') (set (pre @ b # post))" unfolding sz using r(1) by simp
  ultimately have "heap_inv s' (pre @ b # post)"
    using inv dist(1) mc(1) unfolding heap_inv_def by simp
  then show "heap_inv (merge_block b z s) (pre @ b # post)" by (simp add: s'_def)
  have "chunk_at s' a = (if a = b then join (chunk_at s b) (chunk_at s z) else chunk_at s a)" for a
    using f(1) by (simp add: chunk_at_def join_def fl sz merge_sizes_def)
  then have "map (chunk_at s') (pre @ b # post) = map (chunk_at s) pre @ join (chunk_at s b) (chunk_at s z) # map (chunk_at s) post"
    using dist(2) by auto
  then show "map (chunk_at (merge_block b z s)) (pre @ b # post) =
       map (chunk_at s) pre @ join (chunk_at s b) (chunk_at s z) # map (chunk_at s) post" by (simp add: s'_def)
qed

lemma merge_block_prevs: "b \<noteq> nexts s z \<Longrightarrow> prevs (merge_block b z s) b = prevs s b"
  "h_bitmap (merge_block b z s) = h_bitmap s"
  by (auto simp: merge_block_def prevs_def at_block_def Let_def)

text \<open>The two tests of \<open>kfree\<close>.\<close>

definition touches :: "heap \<Rightarrow> u32 \<Rightarrow> u32 \<Rightarrow> u32 \<Rightarrow> bool" where
  "touches s q b z \<longleftrightarrow> q \<noteq> 0 \<and> b_free (h_mem s q) = 1 \<and> b + 20 + sizes s b = z"

lemma coalesce_next_merge:
  assumes "b \<noteq> nexts s b"
  shows "coalesce_next b s = (if touches s (nexts s b) b (nexts s b)
     then say (text_bytes '' +coalesced next'') (merge_block b (nexts s b) s) else s)"
  using assms
  by (auto simp: coalesce_next_def touches_def merge_block_def Let_def BLOCK_SIZE_def sizes_def nexts_def at_block_def)

lemma coalesce_prev_merge:
  assumes "b \<noteq> prevs s b"
  shows "coalesce_prev b s = (if touches s (prevs s b) (prevs s b) b
     then say (text_bytes '' +coalesced prev'') (merge_block (prevs s b) b s) else s)"
  using assms
  by (auto simp: coalesce_prev_def touches_def merge_block_def Let_def BLOCK_SIZE_def sizes_def nexts_def prevs_def at_block_def)

lemma joins_iff:
  assumes "heap_inv s (pre @ b # z # post)"
  shows "joins (chunk_at s b) (chunk_at s z) \<longleftrightarrow>
    b_free (h_mem s b) = 1 \<and> b_free (h_mem s z) = 1 \<and> b + 20 + sizes s b = z"
  using block_end_eq [OF heap_inv_bound [OF assms], of b z]
  by (auto simp: joins_def chunk_at_def block_end_def)

lemma coalesce_next_spec:
  assumes inv: "heap_inv s (pre @ c # post)" and free: "b_free (h_mem s c) = 1"
  shows "\<exists>post'. heap_inv (coalesce_next c s) (pre @ c # post') \<and>
    map (chunk_at (coalesce_next c s)) (pre @ c # post') =
      map (chunk_at s) pre @ join_right (chunk_at s c) (map (chunk_at s) post) \<and>
    prevs (coalesce_next c s) c = prevs s c \<and> b_free (h_mem (coalesce_next c s) c) = 1 \<and>
    h_bitmap (coalesce_next c s) = h_bitmap s"
proof (cases post)
  case Nil
  then have n: "nexts s c = 0" using heap_inv_chain(2) [OF inv] by simp
  then have "c \<noteq> nexts s c" using heap_inv_chain(1) [OF inv] by simp
  then have "coalesce_next c s = s" using n by (simp add: coalesce_next_merge touches_def)
  then show ?thesis using inv Nil free by (intro exI [of _ "[]"]) simp
next
  case (Cons z post')
  then have inv': "heap_inv s (pre @ c # z # post')" "heap_inv s ((pre @ [c]) @ z # post')" using inv by simp_all
  have n: "nexts s c = z" "z \<noteq> 0" "c \<noteq> z" "c \<noteq> nexts s z"
  proof -
    show "nexts s c = z" using heap_inv_chain(2) [OF inv'(1)] by simp
    show "z \<noteq> 0" using heap_inv_chain(1) [OF inv'(2)] .
    have d: "distinct (c # z # post')" using inv'(1) by (simp add: heap_inv_def)
    then show "c \<noteq> z" by simp
    show "c \<noteq> nexts s z"
      using heap_inv_chain(2) [OF inv'(2)] heap_inv_chain(1) [OF inv'(1)] d by (cases post') auto
  qed
  have t: "touches s (nexts s c) c (nexts s c) \<longleftrightarrow> joins (chunk_at s c) (chunk_at s z)"
    using joins_iff [OF inv'(1)] free n by (auto simp: touches_def)
  have cn: "coalesce_next c s = (if joins (chunk_at s c) (chunk_at s z)
      then say (text_bytes '' +coalesced next'') (merge_block c z s) else s)"
    using n coalesce_next_merge [of c s] t by simp
  show ?thesis
  proof (cases "joins (chunk_at s c) (chunk_at s z)")
    case True
    then have "block_end (sizes s) c = unat z"
      by (auto simp: joins_def chunk_at_def block_end_def)
    note m = merge_inv [OF inv'(1) this]
    have "b_free (h_mem (merge_block c z s) c) = b_free (h_mem s c)"
      by (auto simp: merge_block_def at_block_def Let_def)
    then show ?thesis using m True merge_block_prevs n(4) free Cons
      by (intro exI [of _ post']) (simp add: cn)
  next
    case False
    then show ?thesis using inv Cons free by (intro exI [of _ post]) (simp add: cn)
  qed
qed

lemma coalesce_prev_spec:
  assumes inv: "heap_inv s (pre @ c # post)" and free: "b_free (h_mem s c) = 1"
  defines "lb \<equiv> pre \<noteq> [] \<and> prevs s c = last pre"
  shows "\<exists>bs'. heap_inv (coalesce_prev c s) bs' \<and> h_bitmap (coalesce_prev c s) = h_bitmap s \<and>
    map (chunk_at (coalesce_prev c s)) bs' =
      (let ps = map (chunk_at s) pre; x = chunk_at s c; cs = map (chunk_at s) post
       in if lb \<and> joins (last ps) x then butlast ps @ join (last ps) x # cs else ps @ x # cs)"
proof -
  let ?q = "prevs s c"
  have d: "distinct (pre @ c # post)" using inv by (simp add: heap_inv_def)
  have reg: "regions (sizes s) (insert c (set (rev pre)))"
    using inv by (auto simp: heap_inv_def intro: regions_subset)
  have bk: "?q \<noteq> 0 \<Longrightarrow> reach (sizes s) ?q c (rev pre)"
    using inv by (auto simp: heap_inv_def backs_append)
  have only: "lb" if t: "touches s ?q ?q c"
  proof -
    have "?q + 20 + sizes s ?q = c" "?q \<noteq> 0" using t by (auto simp: touches_def)
    moreover have "c \<notin> set (rev pre)" using d by simp
    ultimately obtain r where "rev pre = ?q # r" using reach_adjacent [OF bk reg] by blast
    then have "pre = rev r @ [?q]" by (metis rev.simps(2) rev_rev_ident)
    then show ?thesis by (simp add: lb_def)
  qed
  have cq: "c \<noteq> ?q"
  proof
    assume e: "c = ?q"
    then have "?q \<noteq> 0" using heap_inv_chain(1) [OF inv] by simp
    moreover have "\<not> reach (sizes s) c n bs" if "regions (sizes s) (insert c (set bs))" "c \<notin> set bs" for n bs
      using that
    proof (induction bs)
      case (Cons x bs)
      have "unat c \<notin> span (sizes s) x" using Cons.prems regions_apart [of _ _ c x "unat c"] by auto
      moreover have "regions (sizes s) (insert c (set bs))" using Cons.prems(1) by (auto simp: regions_insert)
      ultimately show ?case using Cons by (auto simp: into_def)
    qed simp
    ultimately show False using bk reg d e by auto
  qed
  show ?thesis
  proof (cases "lb")
    case False
    then have "coalesce_prev c s = s" using only coalesce_prev_merge [OF cq] by auto
    then show ?thesis using inv False by (intro exI [of _ "pre @ c # post"]) (simp add: Let_def)
  next
    case True
    then obtain ps p where pre: "pre = ps @ [p]" "?q = p"
      unfolding lb_def by (metis append_butlast_last_id)
    then have inv': "heap_inv s (ps @ p # c # post)" using inv by simp
    have p0: "p \<noteq> 0" using heap_inv_chain(1) [OF inv'] .
    have t: "touches s ?q ?q c \<longleftrightarrow> joins (chunk_at s p) (chunk_at s c)"
      unfolding joins_iff [OF inv'] using free p0 pre(2) by (auto simp: touches_def)
    show ?thesis
    proof (cases "joins (chunk_at s p) (chunk_at s c)")
      case j: True
      then have "block_end (sizes s) p = unat c" by (auto simp: joins_def chunk_at_def block_end_def)
      note m = merge_inv [OF inv' this]
      have "coalesce_prev c s = say (text_bytes '' +coalesced prev'') (merge_block p c s)"
        using j t coalesce_prev_merge [OF cq] pre(2) by simp
      then show ?thesis using m True j pre(1) merge_block_prevs(2)
        by (intro exI [of _ "ps @ p # post"]) (simp add: Let_def)
    next
      case False
      then have "coalesce_prev c s = s" using t coalesce_prev_merge [OF cq] by simp
      then show ?thesis using inv False pre(1) by (intro exI [of _ "pre @ c # post"]) (simp add: Let_def)
    qed
  qed
qed

lemma say_number_ok: "11 \<le> len \<Longrightarrow> \<exists>t. say_number len n s = Inr (say t s)"
  by (auto simp: say_number_def itoa_ok)

lemma kfree_spec:
  assumes inv: "heap_inv s (pre @ c # post)" and used: "b_free (h_mem s c) = 0"
  shows "\<exists>s' bs'. kfree (c + 20) s = Inr s' \<and> heap_inv s' bs' \<and> h_bitmap s' = h_bitmap s \<and>
    map (chunk_at s') bs' = free_chunk (pre \<noteq> [] \<and> prevs s c = last pre) (map (chunk_at s) pre) (chunk_at s c) (map (chunk_at s) post)"
proof -
  have c0: "c + 20 \<noteq> 0"
  proof -
    have "block_end (sizes s) c \<le> 2 ^ 27" using heap_inv_bound [OF inv] by simp
    then have "unat (c + 20) = unat c + 20" by (subst unat_plus_u32) (simp_all add: block_end_def)
    then show ?thesis by auto
  qed
  have magic: "b_magic (h_mem s c) = HEAP_MAGIC_ALLOC" using inv used by (auto simp: heap_inv_def stamped_def)
  define s1 where "s1 = say (text_bytes ''HEAP: freed block, size '') (at_block c (\<lambda>b. b\<lparr>b_free := 1, b_magic := HEAP_MAGIC_FREE\<rparr>) s)"
  obtain t where t: "say_number 32 (b_size (h_mem s1 c)) s1 = Inr (say t s1)" using say_number_ok [of 32] by auto
  define s2 where "s2 = say t s1"
  have run: "kfree (c + 20) s = Inr (say (text_bytes ''\<newline>'') (coalesce_prev c (coalesce_next c s2)))"
    using c0 magic t by (simp add: kfree_def Let_def BLOCK_SIZE_def HEAP_MAGIC_ALLOC_def HEAP_MAGIC_FREE_def s1_def s2_def)
  have d: "c \<notin> set pre \<union> set post" using inv by (auto simp: heap_inv_def)
  have inv2: "heap_inv s2 (pre @ c # post)" unfolding s2_def s1_def say_inv by (rule stamp_inv [OF inv]) simp
  have v2: "b_free (h_mem s2 c) = 1" "prevs s2 = prevs s" "h_bitmap s2 = h_bitmap s"
    "chunk_at s2 c = (fst (chunk_at s c), fst (snd (chunk_at s c)), True)"
    "map (chunk_at s2) pre = map (chunk_at s) pre" "map (chunk_at s2) post = map (chunk_at s) post"
    using d by (auto simp: s2_def s1_def chunk_at_def)
  obtain post' where n: "heap_inv (coalesce_next c s2) (pre @ c # post')"
    "map (chunk_at (coalesce_next c s2)) (pre @ c # post') =
      map (chunk_at s2) pre @ join_right (chunk_at s2 c) (map (chunk_at s2) post)"
    "prevs (coalesce_next c s2) c = prevs s2 c" "b_free (h_mem (coalesce_next c s2) c) = 1"
    "h_bitmap (coalesce_next c s2) = h_bitmap s2"
    using coalesce_next_spec [OF inv2 v2(1)] by blast
  define s3 where "s3 = coalesce_next c s2"
  have m: "map (chunk_at s3) pre = map (chunk_at s) pre"
    "chunk_at s3 c # map (chunk_at s3) post' = join_right (fst (chunk_at s c), fst (snd (chunk_at s c)), True) (map (chunk_at s) post)"
    using n(2) v2 unfolding s3_def by (simp_all add: append_eq_append_conv)
  obtain bs' where p: "heap_inv (coalesce_prev c s3) bs'" "h_bitmap (coalesce_prev c s3) = h_bitmap s3"
    "map (chunk_at (coalesce_prev c s3)) bs' =
      (let ps = map (chunk_at s3) pre; x = chunk_at s3 c; cs = map (chunk_at s3) post'
       in if (pre \<noteq> [] \<and> prevs s3 c = last pre) \<and> joins (last ps) x then butlast ps @ join (last ps) x # cs else ps @ x # cs)"
    using coalesce_prev_spec [OF n(1,4)] unfolding s3_def by blast
  have "prevs s3 c = prevs s c" using n(3) v2(2) by (simp add: s3_def)
  then have "map (chunk_at (coalesce_prev c s3)) bs' =
      free_chunk (pre \<noteq> [] \<and> prevs s c = last pre) (map (chunk_at s) pre) (chunk_at s c) (map (chunk_at s) post)"
    unfolding p(3) free_chunk_def m(1) m(2) [symmetric] by (simp add: Let_def)
  then show ?thesis
    using run p(1,2) n(5) v2(3) by (intro exI [of _ "say (text_bytes ''\<newline>'') (coalesce_prev c s3)"] exI [of _ bs']) (simp add: s3_def)
qed

section \<open>The heap keeps the allocator contract\<close>

text \<open>A list of blocks never has more than \<open>2 ^ 27\<close> elements, so \<open>heap_fuel\<close> rounds are enough.\<close>

definition heap_fuel :: nat where "heap_fuel = 2 ^ 27 + 2"

lemma heap_inv_length:
  assumes "heap_inv s bs"
  shows "length bs + 1 < heap_fuel"
proof -
  have "unat ` set bs \<subseteq> {..<2 ^ 27}"
    using heap_inv_bound [OF assms] by (fastforce simp: block_end_def)
  then have "card (unat ` set bs) \<le> 2 ^ 27"
    using card_mono [of "{..<2 ^ 27 :: nat}"] by (metis card_lessThan finite_lessThan)
  moreover have "card (unat ` set bs) = length bs"
    using assms by (subst card_image) (auto simp: heap_inv_def distinct_card inj_on_def word_unat_eq_iff)
  ultimately show ?thesis by (simp add: heap_fuel_def)
qed

definition live_chunks :: "chunk list \<Rightarrow> (nat \<times> nat) set" where
  "live_chunks cs = {(a, k). (a, k, False) \<in> set cs}"

lemma live_chunks_simps [simp]:
  "live_chunks [] = {}" "live_chunks ((a, k, True) # cs) = live_chunks cs"
  "live_chunks ((a, k, False) # cs) = insert (a, k) (live_chunks cs)"
  "live_chunks (cs @ ds) = live_chunks cs \<union> live_chunks ds"
  by (auto simp: live_chunks_def)

lemma live_chunks_fst: "(a, k) \<in> live_chunks cs \<Longrightarrow> a \<in> fst ` set cs"
  by (force simp: live_chunks_def)

lemma first_fit_live:
  assumes "distinct (map fst cs)" "first_fit n cs = Some (p, cs')"
  shows "\<exists>k \<ge> n. 20 \<le> p \<and> (\<forall>j. (p - 20, j) \<notin> live_chunks cs) \<and> p - 20 \<in> fst ` set cs \<and>
    live_chunks cs' = insert (p - 20, k) (live_chunks cs)"
  using assms
proof (induction n cs arbitrary: cs' rule: first_fit.induct)
  case (2 n a k f cs)
  show ?case
  proof (cases "f \<and> n \<le> k")
    case True
    with 2 live_chunks_fst [of a _ cs] show ?thesis
      by (intro exI [of _ "if n + 20 < k then n else k"]) (cases f, auto)
  next
    case False
    then obtain ds where ds: "first_fit n cs = Some (p, ds)" "cs' = (a, k, f) # ds"
      using "2.prems"(2) by (auto split: if_splits)
    have "distinct (map fst cs)" using "2.prems"(1) by simp
    from "2.IH" [OF False this ds(1)] obtain j where j: "j \<ge> n" "20 \<le> p" "\<forall>i. (p - 20, i) \<notin> live_chunks cs"
      "p - 20 \<in> fst ` set cs" "live_chunks ds = insert (p - 20, j) (live_chunks cs)" by blast
    have "p - 20 \<noteq> a" using j(4) "2.prems"(1) by auto
    with j ds(2) show ?thesis by (intro exI [of _ j]) (cases f, auto)
  qed
qed simp

lemma live_join: "joins x y \<Longrightarrow> live_chunks (join x y # zs) = live_chunks zs \<and> live_chunks (x # y # zs) = live_chunks zs"
  by (cases x; cases y) (auto simp: joins_def join_def)

lemma live_free_chunk: "live_chunks (free_chunk lb ps (a, k, f) cs) = live_chunks (ps @ cs)"
proof -
  have r: "live_chunks (join_right (a, k, True) cs) = live_chunks cs" for cs
    using live_join [of "(a, k, True)" "hd cs" "tl cs"] by (cases cs) auto
  have "join_right (a, k, True) cs \<noteq> []" by (cases cs) (auto split: if_splits)
  then obtain d ds where d: "join_right (a, k, True) cs = d # ds" by (metis list.exhaust)
  show ?thesis
  proof (cases "lb \<and> ps \<noteq> [] \<and> joins (last ps) d")
    case True
    then obtain qs q where ps: "ps = qs @ [q]" by (metis append_butlast_last_id)
    then have "live_chunks (free_chunk lb ps (a, k, f) cs) = live_chunks qs \<union> live_chunks (join q d # ds)"
      using True d by (simp add: free_chunk_def Let_def)
    moreover have "live_chunks (q # d # ds) = live_chunks [q] \<union> live_chunks (d # ds)"
      "live_chunks (q # cs) = live_chunks [q] \<union> live_chunks cs"
      using live_chunks_simps(4) [of "[q]" "d # ds"] live_chunks_simps(4) [of "[q]" cs] by simp_all
    ultimately show ?thesis
      using True live_join [of q d ds] r [of cs] d ps live_join [of q d "[]"] by auto
  next
    case False
    then show ?thesis using r [of cs] d by (auto simp: free_chunk_def Let_def)
  qed
qed

text \<open>The contract's view of the heap.\<close>

definition heap_valid :: "heap \<Rightarrow> bool" where
  "heap_valid s \<longleftrightarrow> (\<exists>bs. heap_inv s bs)"

definition heap_live :: "heap \<Rightarrow> u32 \<Rightarrow> nat option" where
  "heap_live s p = (if \<exists>bs. heap_inv s bs \<and> p - 20 \<in> set bs \<and> b_free (h_mem s (p - 20)) = 0
     then Some (unat (sizes s (p - 20))) else None)"

lemma heap_live_iff:
  assumes "heap_inv s bs"
  shows "heap_live s p = Some k \<longleftrightarrow> (unat (p - 20), k) \<in> live_chunks (map (chunk_at s) bs)"
proof -
  have "bs' = bs" if "heap_inv s bs'" for bs'
    using that assms chain_unique by (auto simp: heap_inv_def)
  then have "(\<exists>bs. heap_inv s bs \<and> p - 20 \<in> set bs \<and> b_free (h_mem s (p - 20)) = 0) \<longleftrightarrow>
      p - 20 \<in> set bs \<and> b_free (h_mem s (p - 20)) = 0" using assms by blast
  moreover have "b_free (h_mem s a) = 0 \<longleftrightarrow> b_free (h_mem s a) \<noteq> 1" if "a \<in> set bs" for a
    using assms that by (auto simp: heap_inv_def stamped_def)
  ultimately show ?thesis
    by (auto simp: heap_live_def live_chunks_def chunk_at_def image_iff simp flip: word_unat_eq_iff)
qed

lemma chunks_distinct:
  assumes "heap_inv s bs"
  shows "distinct (map fst (map (chunk_at s) bs))"
  using assms by (auto simp: heap_inv_def distinct_map inj_on_def chunk_at_def word_unat_eq_iff)

lemma grown_distinct:
  assumes "heap_inv s bs" "first_fit n (map (chunk_at s) bs) = None \<Longrightarrow> free_frames (h_bitmap s) \<noteq> {}"
  shows "distinct (map fst (grown n s bs))"
proof (cases "first_fit n (map (chunk_at s) bs) = None")
  case True
  then have mf: "Min (free_frames (h_bitmap s)) \<in> free_frames (h_bitmap s)" using assms(2) by simp
  have "Min (free_frames (h_bitmap s)) * 4096 \<noteq> unat a" if "a \<in> set bs" for a
  proof
    assume e: "Min (free_frames (h_bitmap s)) * 4096 = unat a"
    have "unat a div 4096 \<notin> free_frames (h_bitmap s)" using assms(1) that by (auto simp: heap_inv_def)
    with mf show False by (simp flip: e)
  qed
  then show ?thesis using True chunks_distinct [OF assms(1)] by (auto simp: grown_def chunk_at_def)
next
  case False
  then have "grown n s bs = map (chunk_at s) bs" by (simp only: grown_def if_False append_Nil2)
  with chunks_distinct [OF assms(1)] show ?thesis by (simp only:)
qed

lemma pointer_at:
  assumes "20 \<le> unat q"
  shows "unat (q - 20) = unat q - 20" "r - 20 = q - 20 \<longleftrightarrow> r = (q :: u32)"
  using assms by (simp_all add: unat_sub word_le_nat_alt)

lemma map_eqI: "(\<And>r k. f r = Some k \<longleftrightarrow> g r = Some k) \<Longrightarrow> f = g"
  by (rule ext) (metis option.exhaust)

interpretation kheap: allocator "\<lambda>n. kmalloc heap_fuel (of_nat n)" kfree heap_valid heap_live unat
  "\<lambda>n. 0 < n \<and> n \<le> 4076" "\<lambda>s. card (free_frames (h_bitmap s))"
proof unfold_locales
  fix s n
  assume v: "heap_valid s" and n: "0 < n \<and> n \<le> (4076 :: nat)" and room: "0 < card (free_frames (h_bitmap s))"
  from v obtain bs where inv: "heap_inv s bs" by (auto simp: heap_valid_def)
  have ne: "free_frames (h_bitmap s) \<noteq> {}" using room by auto
  have u: "unat (of_nat n :: u32) = n" using n by (simp add: unat_of_nat take_bit_nat_eq_self)
  then have "0 < (of_nat n :: u32)" "unat (of_nat n :: u32) \<le> 4076" using n by (simp_all add: word_less_nat_alt)
  from kmalloc_spec [OF inv this heap_inv_length [OF inv] ne] obtain q s' bs' where
    k: "kmalloc heap_fuel (of_nat n) s = Inr (q, s')" "heap_inv s' bs'"
    "first_fit n (grown n s bs) = Some (unat q, map (chunk_at s') bs')"
    "free_frames (h_bitmap s') = (if first_fit n (map (chunk_at s) bs) = None
      then free_frames (h_bitmap s) - {Min (free_frames (h_bitmap s))} else free_frames (h_bitmap s))"
    unfolding u by blast
  obtain m where m: "m \<ge> n" "20 \<le> unat q" "\<forall>j. (unat q - 20, j) \<notin> live_chunks (grown n s bs)"
    "live_chunks (map (chunk_at s') bs') = insert (unat q - 20, m) (live_chunks (grown n s bs))"
    using first_fit_live [OF grown_distinct [OF inv ne] k(3)] by blast
  have g: "live_chunks (grown n s bs) = live_chunks (map (chunk_at s) bs)" by (simp add: grown_def)
  note p = pointer_at [OF m(2)]
  have "heap_live s q = None"
    using heap_live_iff [OF inv, of q] m(3) p(1) g by (cases "heap_live s q") auto
  moreover have "heap_live s' = (heap_live s)(q \<mapsto> m)"
  proof (rule map_eqI)
    fix r j
    have "(unat (r - 20), j) = (unat q - 20, m) \<longleftrightarrow> r = q \<and> j = m"
      using p by (metis prod.inject word_unat_eq_iff)
    then show "heap_live s' r = Some j \<longleftrightarrow> ((heap_live s)(q \<mapsto> m)) r = Some j"
      using heap_live_iff [OF k(2), of r j] heap_live_iff [OF inv, of r j] m(3,4) g p(1) by auto
  qed
  moreover have "card (free_frames (h_bitmap s)) \<le> Suc (card (free_frames (h_bitmap s')))"
    using k(4) room by (auto simp: card_Diff_singleton_if)
  moreover have "heap_valid s'" using k(2) by (auto simp: heap_valid_def)
  ultimately show "\<exists>p s' m. kmalloc heap_fuel (of_nat n) s = Inr (p, s') \<and> heap_valid s' \<and> heap_live s p = None \<and>
      heap_live s' = (heap_live s)(p \<mapsto> m) \<and> n \<le> m \<and>
      card (free_frames (h_bitmap s)) \<le> Suc (card (free_frames (h_bitmap s')))"
    using k(1) m(1) by blast
next
  fix s p m
  assume v: "heap_valid s" and l: "heap_live s p = Some m"
  from v obtain bs where inv: "heap_inv s bs" by (auto simp: heap_valid_def)
  from l obtain bs1 where "heap_inv s bs1" "p - 20 \<in> set bs1" "b_free (h_mem s (p - 20)) = 0"
    by (auto simp: heap_live_def split: if_splits)
  moreover from this have "bs1 = bs" using inv chain_unique by (auto simp: heap_inv_def)
  ultimately have c: "p - 20 \<in> set bs" "b_free (h_mem s (p - 20)) = 0" by simp_all
  obtain pre post where bs: "bs = pre @ (p - 20) # post" using split_list [OF c(1)] by blast
  obtain s' bs' where k: "kfree (p - 20 + 20) s = Inr s'" "heap_inv s' bs'" "h_bitmap s' = h_bitmap s"
    "map (chunk_at s') bs' = free_chunk (pre \<noteq> [] \<and> prevs s (p - 20) = last pre) (map (chunk_at s) pre)
       (chunk_at s (p - 20)) (map (chunk_at s) post)"
    using kfree_spec [of s pre "p - 20" post] inv bs c(2) by blast
  have lv: "live_chunks (map (chunk_at s') bs') = live_chunks (map (chunk_at s) pre) \<union> live_chunks (map (chunk_at s) post)"
    unfolding k(4) chunk_at_def [of s "p - 20"] live_free_chunk by simp
  have "heap_live s' = (heap_live s)(p := None)"
  proof (rule map_eqI)
    fix r j
    have old: "live_chunks (map (chunk_at s) bs) = insert (unat (p - 20), unat (sizes s (p - 20)))
        (live_chunks (map (chunk_at s) pre) \<union> live_chunks (map (chunk_at s) post))"
      unfolding bs using c(2) by (simp add: chunk_at_def)
    have "unat (p - 20) \<notin> fst ` set (map (chunk_at s) pre) \<union> fst ` set (map (chunk_at s) post)"
      using chunks_distinct [OF inv] unfolding bs by (auto simp: chunk_at_def)
    then have gone: "(unat (p - 20), i) \<notin> live_chunks (map (chunk_at s) pre) \<union> live_chunks (map (chunk_at s) post)" for i
      using live_chunks_fst by blast
    have "unat (r - 20) = unat (p - 20) \<longleftrightarrow> r = p" by (simp flip: word_unat_eq_iff)
    then show "heap_live s' r = Some j \<longleftrightarrow> ((heap_live s)(p := None)) r = Some j"
      using heap_live_iff [OF k(2), of r j] heap_live_iff [OF inv, of r j] gone unfolding lv old by auto
  qed
  moreover have "heap_valid s'" using k(2) by (auto simp: heap_valid_def)
  ultimately show "\<exists>s'. kfree p s = Inr s' \<and> heap_valid s' \<and> heap_live s' = (heap_live s)(p := None) \<and>
      card (free_frames (h_bitmap s)) \<le> card (free_frames (h_bitmap s'))"
    using k(1,3) by auto
next
  fix s p m q n
  assume v: "heap_valid s" and l: "heap_live s p = Some m" "heap_live s q = Some n" and ne: "p \<noteq> q"
  from v obtain bs where inv: "heap_inv s bs" by (auto simp: heap_valid_def)
  have mem: "r - 20 \<in> set bs \<and> {unat r..<unat r + k} \<subseteq> span (sizes s) (r - 20)" if "heap_live s r = Some k" for r k
  proof -
    have "(unat (r - 20), k) \<in> live_chunks (map (chunk_at s) bs)" using heap_live_iff [OF inv] that by blast
    then have r: "r - 20 \<in> set bs" "k = unat (sizes s (r - 20))"
      by (auto simp: live_chunks_def chunk_at_def image_iff simp flip: word_unat_eq_iff)
    have "unat (r - 20 + 20) = unat (r - 20) + 20"
      using heap_inv_bound [OF inv r(1)] by (subst unat_plus_u32) (simp_all add: block_end_def)
    then show ?thesis using r by (auto simp: span_def block_end_def)
  qed
  have "p - 20 \<noteq> q - 20" using ne by simp
  moreover have "regions (sizes s) (set bs)" using inv by (simp add: heap_inv_def)
  ultimately have "span (sizes s) (p - 20) \<inter> span (sizes s) (q - 20) = {}"
    using mem [OF l(1)] mem [OF l(2)] by (simp add: regions_def)
  then show "{unat p..<unat p + m} \<inter> {unat q..<unat q + n} = {}"
    using mem [OF l(1)] mem [OF l(2)] by blast
qed

section \<open>Properties\<close>

text \<open>A heap before its first use, over a frame bitmap.\<close>

definition fresh_heap :: "u8 list \<Rightarrow> heap" where
  "fresh_heap bm = \<lparr>h_head = 0, h_mem = (\<lambda>_. \<lparr>b_size = 0, b_free = 0, b_magic = 0, b_next = 0, b_prev = 0\<rparr>),
     h_bitmap = bm, h_console = [], h_if = True\<rparr>"

lemma fresh_heap_inv: "bitmap_ok bm \<Longrightarrow> 0 \<notin> free_frames bm \<Longrightarrow> heap_inv (fresh_heap bm) []"
  by (simp add: heap_inv_def fresh_heap_def regions_def)



text \<open>
  Property C19. \<open>kmalloc\<close> is first fit with splitting on the list of chunks: it takes the first free
  chunk with room, adding the lowest free frame at the end of the list when there is none, keeps
  the invariant of the heap, and its answer is the address behind the chunk's header.
\<close>

theorem kmalloc_first_fit:
  assumes "heap_inv s bs" "0 < n" "n \<le> 4076"
    and "first_fit n (map (chunk_at s) bs) = None \<longrightarrow> free_frames (h_bitmap s) \<noteq> {}"
  shows "\<exists>q s' bs'. kmalloc heap_fuel (of_nat n) s = Inr (q, s') \<and> heap_inv s' bs' \<and>
    first_fit n (grown n s bs) = Some (unat q, map (chunk_at s') bs')"
proof -
  have u: "unat (of_nat n :: u32) = n" using assms(3) by (simp add: unat_of_nat take_bit_nat_eq_self)
  then have "0 < (of_nat n :: u32)" "unat (of_nat n :: u32) \<le> 4076" using assms by (simp_all add: word_less_nat_alt)
  from kmalloc_spec [OF assms(1) this heap_inv_length [OF assms(1)]] assms(4) show ?thesis
    unfolding u by blast
qed

theorem kmalloc_first_fit_witness:
  "\<exists>bm q s' bs'. free_frames bm = {8} \<and> kmalloc heap_fuel 100 (fresh_heap bm) = Inr (q, s') \<and> unat q = 32788 \<and>
    map (chunk_at s') bs' = [(32768, 100, False), (32888, 3956, True)]"
proof -
  obtain bm where bm: "bitmap_ok bm" "free_frames bm = {8}"
    using bitmap_with [of "[8]"] by (auto simp: MAX_FRAMES_def)
  have "\<exists>q s' bs'. kmalloc heap_fuel (of_nat 100) (fresh_heap bm) = Inr (q, s') \<and> heap_inv s' bs' \<and>
    first_fit 100 (grown 100 (fresh_heap bm) []) = Some (unat q, map (chunk_at s') bs')"
    by (rule kmalloc_first_fit [OF fresh_heap_inv [OF bm(1)]]) (simp_all add: bm(2) fresh_heap_def)
  then show ?thesis using bm(2) by (fastforce simp: grown_def fresh_heap_def)
qed

text \<open>
  Property C20. \<open>kfree\<close> of an allocated block makes its chunk free and joins it with the free chunk
  behind it when they touch, and with the free chunk before it when they touch and the back link
  is that of its predecessor; nothing else changes and the invariant holds again.
\<close>

theorem kfree_joins_neighbours:
  assumes "heap_inv s (pre @ c # post)" "b_free (h_mem s c) = 0"
  shows "\<exists>s' bs'. kfree (c + 20) s = Inr s' \<and> heap_inv s' bs' \<and> h_bitmap s' = h_bitmap s \<and>
    map (chunk_at s') bs' =
      free_chunk (pre \<noteq> [] \<and> prevs s c = last pre) (map (chunk_at s) pre) (chunk_at s c) (map (chunk_at s) post)"
  by (rule kfree_spec [OF assms])

text \<open>A heap of two used blocks that fill a frame.\<close>

definition sample_heap :: "u8 list \<Rightarrow> heap" where
  "sample_heap bm = (fresh_heap bm)\<lparr>h_head := 0x8000, h_mem := (h_mem (fresh_heap bm))(
     0x8000 := \<lparr>b_size = 80, b_free = 0, b_magic = HEAP_MAGIC_ALLOC, b_next = 0x8064, b_prev = 0\<rparr>,
     0x8064 := \<lparr>b_size = 3976, b_free = 1, b_magic = HEAP_MAGIC_FREE, b_next = 0, b_prev = 0x8000\<rparr>)\<rparr>"

lemma sample_heap_inv:
  assumes "bitmap_ok bm" "free_frames bm \<subseteq> {9}"
  shows "heap_inv (sample_heap bm) [0x8000, 0x8064]"
proof -
  have "sizes (sample_heap bm) 0x8000 = 80" "sizes (sample_heap bm) 0x8064 = 3976"
    by (simp_all add: sizes_def sample_heap_def)
  then have e: "block_end (sizes (sample_heap bm)) 0x8000 = 32868" "block_end (sizes (sample_heap bm)) 0x8064 = 36864"
    "0 < sizes (sample_heap bm) 0x8000" "0 < sizes (sample_heap bm) 0x8064"
    by (simp_all add: block_end_def)
  then have sp: "span (sizes (sample_heap bm)) 0x8000 = {32768..<32868}" "span (sizes (sample_heap bm)) 0x8064 = {32868..<36864}"
    by (simp_all add: span_def)
  have reg: "regions (sizes (sample_heap bm)) {0x8000, 0x8064}"
    unfolding regions_insert using e sp by (simp add: regions_def)
  have ch: "chain (nexts (sample_heap bm)) (h_head (sample_heap bm)) [0x8000, 0x8064]"
    by (simp add: sample_heap_def nexts_def)
  have bk: "backs (sizes (sample_heap bm)) (prevs (sample_heap bm)) [] [0x8000, 0x8064]"
    using sp by (simp add: sample_heap_def prevs_def into_def)
  have st: "\<forall>a \<in> set [0x8000, 0x8064]. stamped (sample_heap bm) a"
    by (simp add: sample_heap_def stamped_def)
  have bm: "h_bitmap (sample_heap bm) = bm" by (simp add: sample_heap_def fresh_heap_def)
  have "x div 4096 = 8" if "32768 \<le> x" "x < 36864" for x :: nat using that by (intro div_nat_eqI) simp_all
  then have "\<forall>a \<in> set [0x8000, 0x8064]. \<forall>x \<in> span (sizes (sample_heap bm)) a. x div 4096 \<notin> free_frames bm"
    using sp assms(2) by auto
  moreover have "0 \<notin> free_frames bm" using assms(2) by auto
  ultimately show ?thesis using reg ch bk st assms(1) unfolding heap_inv_def bm by simp
qed

theorem kfree_joins_neighbours_witness:
  "\<exists>bm s' bs'. kfree 0x8014 (sample_heap bm) = Inr s' \<and> map (chunk_at s') bs' = [(0x8000, 4076, True)]"
proof -
  obtain bm where bm: "bitmap_ok bm" "free_frames bm = {9}"
    using bitmap_with [of "[9]"] by (auto simp: MAX_FRAMES_def)
  have h: "heap_inv (sample_heap bm) ([] @ 0x8000 # [0x8064])" using sample_heap_inv [OF bm(1)] bm(2) by simp
  have "b_free (h_mem (sample_heap bm) 0x8000) = 0" by (simp add: sample_heap_def)
  from kfree_joins_neighbours [OF h this] show ?thesis
    by (fastforce simp: chunk_at_def sizes_def sample_heap_def free_chunk_def joins_def join_def)
qed

text \<open>
  Property C21. Out of memory: whatever the list of blocks is, when no block of it fits and no frame is
  left, \<open>kmalloc\<close> does not answer 0. \<open>request_space\<close> takes the 0xFFFFFFFF of the frame allocator for the
  address of a block, which becomes the head of an empty list and is linked behind the last block of any other;
  the search goes on in it, and the answer is the address 19.
\<close>

theorem kmalloc_out_of_frames:
  assumes "heap_inv s bs" "first_fit n (map (chunk_at s) bs) = None" "free_frames (h_bitmap s) = {}" "0 < n" "n \<le> 4076"
  shows "\<exists>s'. kmalloc heap_fuel (of_nat n) s = Inr (19, s')"
proof -
  have u: "unat (of_nat n :: u32) = n" using assms(5) by (simp add: unat_of_nat take_bit_nat_eq_self)
  then have sz: "0 < (of_nat n :: u32)" "unat (of_nat n :: u32) \<le> 4076" "(of_nat n :: u32) \<le> 4076"
    using assms(4,5) by (auto simp: word_less_nat_alt word_le_nat_alt)
  have full: "first_fit (unat (of_nat n :: u32)) (map (chunk_at s) bs) = None" unfolding u by (rule assms(2))
  let ?last = "if bs = [] then 0 else last bs"
  have "pmm_alloc_frame (h_bitmap s) = Inr (NO_FRAME, h_bitmap s)"
    using assms(1,3) pmm.alloc_none [of "h_bitmap s"] by (simp add: heap_inv_def)
  then obtain s1 where r: "request_space ?last s = Inr (NO_FRAME, s1)" "b_free (h_mem s1 NO_FRAME) = 1" "sizes s1 NO_FRAME = 4076"
    by (simp add: request_space_def Let_def NO_FRAME_def BLOCK_SIZE_def)
  have nf: "NO_FRAME \<noteq> 0" "NO_FRAME + 20 = 19" by (simp_all add: NO_FRAME_def)
  let ?s2 = "if bs = [] then s1\<lparr>h_head := NO_FRAME\<rparr> else s1"
  obtain m lst where k: "kmalloc heap_fuel (of_nat n) s = kmalloc_loop (Suc m) (of_nat n) NO_FRAME lst ?s2"
    by (rule kmalloc_asks [OF assms(1) sz(1,2) heap_inv_length [OF assms(1)] full r(1) nf(1)])
  have "b_free (h_mem ?s2 NO_FRAME) = 1" "sizes ?s2 NO_FRAME = 4076" using r(2,3) by (simp_all add: sizes_def)
  then show ?thesis unfolding k loop_round [OF nf(1) sz(2)] nf(2) using sz(3) by simp
qed

text \<open>Two blocks fill the only frame, 3976 bytes are free in it, and 4000 are asked for.\<close>

theorem kmalloc_out_of_frames_witness:
  "\<exists>s'. kmalloc heap_fuel 4000 (sample_heap (replicate 4096 0xFF)) = Inr (19, s')"
proof -
  let ?s = "sample_heap (replicate 4096 0xFF)"
  have "heap_inv ?s [0x8000, 0x8064]"
    by (rule sample_heap_inv) (simp_all add: bitmap_ok_def free_frames_full)
  moreover have "first_fit 4000 (map (chunk_at ?s) [0x8000, 0x8064]) = None"
    by (simp add: chunk_at_def sizes_def sample_heap_def)
  moreover have "free_frames (h_bitmap ?s) = {}" by (simp add: sample_heap_def fresh_heap_def free_frames_full)
  ultimately show ?thesis using kmalloc_out_of_frames [of ?s "[0x8000, 0x8064]" 4000] by simp
qed

end
