(* ===== verification/Sched.thy ===== *)
theory Sched
  imports Tasks Heap Vmm
begin

text \<open>
  The scheduler of \<^verbatim>\<open>pelikanOS/src/scheduler.c\<close> and the mutexes of \<^verbatim>\<open>mutex_lock.c\<close>: creating
  tasks, the two halves of the loop of \<open>schedule\<close> around \<open>swtch\<close>, the end of a task, the rounds of
  the reaper and of \<open>mutex_lock\<close>. Each definition is a stretch of code that runs with interrupts
  off, up to the next \<open>yield\<close>; \<open>Sched_Steps\<close> composes them into the executions of the kernel.
\<close>

section \<open>State\<close>

text \<open>
  The globals of both files with what they share with the rest of the kernel. \<open>bitmap\<close> of
  \<^verbatim>\<open>pmm.c\<close> is the one of \<open>k_heap\<close>; paging works on it too. \<open>k_locks\<close> are the mutexes by
  address. Words of the task stacks are words of \<open>v_mem\<close>.
\<close>

record kernel =
  k_tasks :: store
  k_queue :: rd_q
  k_dead_q :: dd_q
  k_current :: u32
  k_reaper :: u32
  k_last :: u32
  k_num :: int
  k_locks :: "u32 \<Rightarrow> mutex_t"
  k_heap :: heap
  k_vmm :: vmm

text \<open>Calls into the other components.\<close>

definition on_ready :: "(rd_q \<times> store \<Rightarrow> rd_q \<times> store) \<Rightarrow> kernel \<Rightarrow> kernel" where
  "on_ready f k = (case f (k_queue k, k_tasks k) of (q, h) \<Rightarrow> k\<lparr>k_queue := q, k_tasks := h\<rparr>)"

definition on_dead :: "(dd_q \<times> store \<Rightarrow> dd_q \<times> store) \<Rightarrow> kernel \<Rightarrow> kernel" where
  "on_dead f k = (case f (k_dead_q k, k_tasks k) of (q, h) \<Rightarrow> k\<lparr>k_dead_q := q, k_tasks := h\<rparr>)"

definition on_lock :: "u32 \<Rightarrow> (mutex_t \<times> store \<Rightarrow> mutex_t \<times> store) \<Rightarrow> kernel \<Rightarrow> kernel" where
  "on_lock l f k = (case f (k_locks k l, k_tasks k) of (m, h) \<Rightarrow> k\<lparr>k_locks := (k_locks k)(l := m), k_tasks := h\<rparr>)"

definition on_ring :: "(u32 \<times> store \<Rightarrow> u32 \<times> store) \<Rightarrow> kernel \<Rightarrow> kernel" where
  "on_ring f k = (case f (k_last k, k_tasks k) of (l, h) \<Rightarrow> k\<lparr>k_last := l, k_tasks := h\<rparr>)"

definition on_vmm :: "(vmm \<Rightarrow> vmm result) \<Rightarrow> kernel \<Rightarrow> kernel result" where
  "on_vmm f k = andthen (f ((k_vmm k)\<lparr>v_bitmap := h_bitmap (k_heap k)\<rparr>)) (\<lambda>v.
     Inr (k\<lparr>k_vmm := v, k_heap := (k_heap k)\<lparr>h_bitmap := v_bitmap v\<rparr>\<rparr>))"

definition on_bitmap :: "(u8 list \<Rightarrow> u8 list result) \<Rightarrow> kernel \<Rightarrow> kernel result" where
  "on_bitmap f k = andthen (f (h_bitmap (k_heap k))) (\<lambda>bm. Inr (k\<lparr>k_heap := (k_heap k)\<lparr>h_bitmap := bm\<rparr>\<rparr>))"

definition set_state :: "u32 \<Rightarrow> u8 \<Rightarrow> kernel \<Rightarrow> kernel" where
  "set_state p b k = k\<lparr>k_tasks := at_ptr p (t_state_update (\<lambda>_. b)) (k_tasks k)\<rparr>"

definition state_of :: "kernel \<Rightarrow> u32 \<Rightarrow> u8" where
  "state_of k p = t_state (k_tasks k p)"

section \<open>Creating a task\<close>

text \<open>\<open>*(--stack_top) = w\<close>\<close>

definition push_word :: "u32 \<Rightarrow> u32 \<times> (u32 \<Rightarrow> u32) \<Rightarrow> u32 \<times> (u32 \<Rightarrow> u32)" where
  "push_word w s = (case s of (stack_top, mem) \<Rightarrow> (stack_top - 4, mem(stack_top - 4 := w)))"

text \<open>The first part of \<open>create_task\<close>: the structure, the stack and what the first switch pops.\<close>

definition new_task :: "nat \<Rightarrow> u32 \<Rightarrow> u32 \<Rightarrow> kernel \<Rightarrow> (u32 \<times> kernel) result" where
  "new_task n execution_code task_id k =
     andthen (kmalloc n 44 (k_heap k)) (\<lambda>(task, heap). let k = k\<lparr>k_heap := heap\<rparr> in
     andthen (pmm_alloc_contiguous 2 (h_bitmap heap)) (\<lambda>(base, bitmap).
     let k = k\<lparr>k_heap := heap\<lparr>h_bitmap := bitmap\<rparr>\<rparr> in
     andthen (on_vmm (\<lambda>v. Inr (vmm_unmap_page base v)) k) (\<lambda>k.
       let stack_base = base + 4096;
           (stack_top, mem) = fold push_word [execution_code, 0x202, 0, 0, 0, 0] (stack_base + 4096, v_mem (k_vmm k));
           task_struct = \<lparr>t_ESP = stack_top, t_EIP = execution_code,
             t_page_directory = vmm_get_kernel_directory (k_vmm k), t_state = 0, t_stack_base = stack_base, t_id = task_id,
             t_next = 0, t_prev = 0, t_ready_next = 0, t_mutex_wait_next = 0, t_dead_next = 0\<rparr>
       in Inr (task, k\<lparr>k_tasks := (k_tasks k)(task := task_struct), k_vmm := (k_vmm k)\<lparr>v_mem := mem\<rparr>\<rparr>))))"

text \<open>Making it known: to the reaper or the ready queue, then to the circular list.\<close>

definition publish_task :: "int \<Rightarrow> u32 \<Rightarrow> kernel \<Rightarrow> kernel" where
  "publish_task type task k =
     (if type = 1 then (set_state task TASK_BLOCKED k)\<lparr>k_reaper := task\<rparr>
      else if type = 0 then on_ready (add_task_to_ready_queue task) (set_state task TASK_READY k)
      else k)"

definition link_task :: "u32 \<Rightarrow> kernel \<Rightarrow> kernel result" where
  "link_task task k =
     (let k = on_ring (insert_task task) k
      in andthen (c_int (k_num k + 1)) (\<lambda>n. Inr (k\<lparr>k_num := n\<rparr>)))"

definition create_task :: "nat \<Rightarrow> u32 \<Rightarrow> u32 \<Rightarrow> int \<Rightarrow> kernel \<Rightarrow> (u32 \<times> kernel) result" where
  "create_task n execution_code task_id type k =
     andthen (new_task n execution_code task_id k) (\<lambda>(task, k).
     andthen (link_task task (publish_task type task k)) (\<lambda>k. Inr (task, k)))"

text \<open>\<open>spawn_reaper\<close>; the address of \<open>reaper_thread\<close> is an argument.\<close>

definition spawn_reaper :: "nat \<Rightarrow> u32 \<Rightarrow> kernel \<Rightarrow> kernel result" where
  "spawn_reaper n reaper_thread k = andthen (create_task n reaper_thread 99 1 k) (\<lambda>(_, k). Inr k)"

definition get_num_of_tasks :: "kernel \<Rightarrow> int" where
  "get_num_of_tasks k = k_num k"

definition get_current_task :: "kernel \<Rightarrow> u32" where
  "get_current_task k = k_current k"

section \<open>The loop of the scheduler\<close>

text \<open>
  \<open>schedule_next\<close> is the loop body up to \<open>swtch\<close>; it answers whether there is a task to switch to.
  \<open>schedule_back\<close> is the rest of the body, after the task has yielded.
\<close>

definition schedule_next :: "kernel \<Rightarrow> bool \<times> kernel" where
  "schedule_next k =
     (case remove_task_from_ready_queue (k_queue k, k_tasks k) of (nxt, q, h) \<Rightarrow>
        let k = k\<lparr>k_queue := q, k_tasks := h\<rparr>
        in if nxt = 0 then (False, k) else (True, (set_state nxt TASK_RUNNING k)\<lparr>k_current := nxt\<rparr>))"

definition schedule_back :: "kernel \<Rightarrow> kernel" where
  "schedule_back k =
     (if state_of k (k_current k) = TASK_RUNNING then
        on_ready (add_task_to_ready_queue (k_current k)) (set_state (k_current k) TASK_READY k)
      else if state_of k (k_current k) = TASK_DEAD then
        let k = on_dead (add_task_to_dead_queue (k_current k)) k
        in if state_of k (k_reaper k) = TASK_BLOCKED
           then on_ready (add_task_to_ready_queue (k_reaper k)) (set_state (k_reaper k) TASK_READY k)
           else k
      else k)"

text \<open>\<open>thread_exit\<close> up to its \<open>yield\<close>.\<close>

definition thread_exit :: "kernel \<Rightarrow> kernel" where
  "thread_exit k = set_state (k_current k) TASK_DEAD k"

text \<open>One round of \<open>reaper_thread\<close>; the answer is whether it goes on to \<open>yield\<close>.\<close>

definition reaper_round :: "kernel \<Rightarrow> (bool \<times> kernel) result" where
  "reaper_round k =
     (case remove_task_from_dead_queue (k_dead_q k, k_tasks k) of (corpse, q, h) \<Rightarrow>
        let k = k\<lparr>k_dead_q := q, k_tasks := h\<rparr>
        in if corpse = 0 then Inr (True, set_state (k_reaper k) TASK_BLOCKED k)
           else let k = on_ring (remove_task_from_circular_list corpse) k;
                    stack_base = t_stack_base (k_tasks k corpse);
                    guard = stack_base - 4096
                in andthen (on_vmm (vmm_map_page guard guard) k) (\<lambda>k.
                   andthen (on_bitmap (pmm_free_frame guard) k) (\<lambda>k.
                   andthen (on_bitmap (pmm_free_frame stack_base) k) (\<lambda>k.
                   andthen (kfree corpse (k_heap k)) (\<lambda>heap. Inr (False, k\<lparr>k_heap := heap\<rparr>))))))"

section \<open>Mutexes\<close>

text \<open>One evaluation of the loop condition of \<open>mutex_lock\<close>: taken, or queued and about to \<open>yield\<close>.\<close>

definition mutex_lock_round :: "u32 \<Rightarrow> kernel \<Rightarrow> bool \<times> kernel" where
  "mutex_lock_round l k =
     (if m_locked (k_locks k l) \<noteq> 0 then
        let me = get_current_task k
        in (False, on_lock l (add_task_to_mutex_queue me) (set_state me TASK_BLOCKED k))
      else (True, k\<lparr>k_locks := (k_locks k)(l := (k_locks k l)\<lparr>m_locked := 1, m_holder := get_current_task k\<rparr>)\<rparr>))"

definition mutex_unlock :: "u32 \<Rightarrow> kernel \<Rightarrow> kernel" where
  "mutex_unlock l k =
     (let k = k\<lparr>k_locks := (k_locks k)(l := (k_locks k l)\<lparr>m_locked := 0, m_holder := 0\<rparr>)\<rparr>
      in if \<not> isempty_wait_queue (k_locks k l) then
           (case remove_task_from_mutex_queue (k_locks k l, k_tasks k) of (task, m, h) \<Rightarrow>
              on_ready (add_task_to_ready_queue task)
                (set_state task TASK_READY (k\<lparr>k_locks := (k_locks k)(l := m), k_tasks := h\<rparr>)))
         else k)"

definition mutex_init :: "u32 \<Rightarrow> kernel \<Rightarrow> kernel" where
  "mutex_init l k = k\<lparr>k_locks := (k_locks k)(l := \<lparr>m_locked = 0, m_holder = 0, m_queue_head = 0, m_queue_tail = 0\<rparr>)\<rparr>"

end
