(* ===== verification/Sched_Spec.thy ===== *)
theory Sched_Spec
  imports Sched
begin

text \<open>
  The scheduler as a machine on lists: the queue of ready tasks, the dead ones, the waiters of each
  mutex, the state of each task and who holds which mutex. The operations of \<open>Sched\<close> refine those
  of this machine.
\<close>

section \<open>The abstract scheduler\<close>

record asched =
  a_ready :: "u32 list"
  a_dead :: "u32 list"
  a_wait :: "u32 \<Rightarrow> u32 list"
  a_state :: "u32 \<Rightarrow> u8"
  a_current :: u32
  a_reaper :: u32
  a_held :: "u32 \<Rightarrow> u32 option"

definition a_make_ready :: "u32 \<Rightarrow> asched \<Rightarrow> asched" where
  "a_make_ready t a = a\<lparr>a_state := (a_state a)(t := TASK_READY), a_ready := a_ready a @ [t]\<rparr>"

definition a_next :: "asched \<Rightarrow> bool \<times> asched" where
  "a_next a = (case a_ready a of
     [] \<Rightarrow> (False, a)
   | t # ts \<Rightarrow> (True, a\<lparr>a_ready := ts, a_state := (a_state a)(t := TASK_RUNNING), a_current := t\<rparr>))"

definition a_back :: "asched \<Rightarrow> asched" where
  "a_back a =
     (if a_state a (a_current a) = TASK_RUNNING then a_make_ready (a_current a) a
      else if a_state a (a_current a) = TASK_DEAD then
        let a = a\<lparr>a_dead := a_dead a @ [a_current a]\<rparr>
        in if a_state a (a_reaper a) = TASK_BLOCKED then a_make_ready (a_reaper a) a else a
      else a)"

definition a_exit :: "asched \<Rightarrow> asched" where
  "a_exit a = a\<lparr>a_state := (a_state a)(a_current a := TASK_DEAD)\<rparr>"

definition a_reap :: "asched \<Rightarrow> bool \<times> asched" where
  "a_reap a = (case a_dead a of
     [] \<Rightarrow> (True, a\<lparr>a_state := (a_state a)(a_reaper a := TASK_BLOCKED)\<rparr>)
   | t # ts \<Rightarrow> (False, a\<lparr>a_dead := ts\<rparr>))"

definition a_lock :: "u32 \<Rightarrow> asched \<Rightarrow> bool \<times> asched" where
  "a_lock l a =
     (if a_held a l \<noteq> None then
        (False, a\<lparr>a_state := (a_state a)(a_current a := TASK_BLOCKED), a_wait := (a_wait a)(l := a_wait a l @ [a_current a])\<rparr>)
      else (True, a\<lparr>a_held := (a_held a)(l := Some (a_current a))\<rparr>))"

definition a_unlock :: "u32 \<Rightarrow> asched \<Rightarrow> asched" where
  "a_unlock l a =
     (let a = a\<lparr>a_held := (a_held a)(l := None)\<rparr>
      in case a_wait a l of [] \<Rightarrow> a | t # ts \<Rightarrow> a_make_ready t (a\<lparr>a_wait := (a_wait a)(l := ts)\<rparr>))"

text \<open>A new task becomes known to the ready queue.\<close>

definition a_publish :: "u32 \<Rightarrow> asched \<Rightarrow> asched" where
  "a_publish t a = a_make_ready t a"

section \<open>The abstraction\<close>

definition models :: "kernel \<Rightarrow> asched \<Rightarrow> bool" where
  "models k a \<longleftrightarrow> holds_list ready_view (k_queue k, k_tasks k) (a_ready a) \<and>
     holds_list dead_view (k_dead_q k, k_tasks k) (a_dead a) \<and>
     (\<forall>l. holds_list waiting_view (k_locks k l, k_tasks k) (a_wait a l)) \<and>
     a_state a = state_of k \<and> a_current a = k_current k \<and> a_reaper a = k_reaper k \<and>
     (\<forall>l. a_held a l = (if m_locked (k_locks k l) = 0 then None else Some (m_holder (k_locks k l))))"

text \<open>What the queue operations leave alone.\<close>

lemma add_ready_other [simp]:
  "t_state (snd (add_task_to_ready_queue p s) x) = t_state (snd s x)"
  "t_dead_next (snd (add_task_to_ready_queue p s) x) = t_dead_next (snd s x)"
  "t_mutex_wait_next (snd (add_task_to_ready_queue p s) x) = t_mutex_wait_next (snd s x)"
  by (auto simp: add_task_to_ready_queue_def at_ptr_def Let_def split: prod.splits)

lemma remove_ready_other [simp]:
  "t_state (snd (snd (remove_task_from_ready_queue s)) x) = t_state (snd s x)"
  "t_dead_next (snd (snd (remove_task_from_ready_queue s)) x) = t_dead_next (snd s x)"
  "t_mutex_wait_next (snd (snd (remove_task_from_ready_queue s)) x) = t_mutex_wait_next (snd s x)"
  by (auto simp: remove_task_from_ready_queue_def at_ptr_def Let_def split: prod.splits)

lemma add_dead_other [simp]:
  "t_state (snd (add_task_to_dead_queue p s) x) = t_state (snd s x)"
  "t_ready_next (snd (add_task_to_dead_queue p s) x) = t_ready_next (snd s x)"
  "t_mutex_wait_next (snd (add_task_to_dead_queue p s) x) = t_mutex_wait_next (snd s x)"
  by (auto simp: add_task_to_dead_queue_def at_ptr_def Let_def split: prod.splits)

lemma remove_dead_other [simp]:
  "t_state (snd (snd (remove_task_from_dead_queue s)) x) = t_state (snd s x)"
  "t_ready_next (snd (snd (remove_task_from_dead_queue s)) x) = t_ready_next (snd s x)"
  "t_mutex_wait_next (snd (snd (remove_task_from_dead_queue s)) x) = t_mutex_wait_next (snd s x)"
  by (auto simp: remove_task_from_dead_queue_def at_ptr_def Let_def split: prod.splits)

lemma add_wait_other [simp]:
  "t_state (snd (add_task_to_mutex_queue p s) x) = t_state (snd s x)"
  "t_ready_next (snd (add_task_to_mutex_queue p s) x) = t_ready_next (snd s x)"
  "t_dead_next (snd (add_task_to_mutex_queue p s) x) = t_dead_next (snd s x)"
  by (auto simp: add_task_to_mutex_queue_def at_ptr_def Let_def split: prod.splits)

lemma remove_wait_other [simp]:
  "t_state (snd (snd (remove_task_from_mutex_queue s)) x) = t_state (snd s x)"
  "t_ready_next (snd (snd (remove_task_from_mutex_queue s)) x) = t_ready_next (snd s x)"
  "t_dead_next (snd (snd (remove_task_from_mutex_queue s)) x) = t_dead_next (snd s x)"
  by (auto simp: remove_task_from_mutex_queue_def at_ptr_def Let_def split: prod.splits)

lemma ring_other:
  "on_ring f k = k\<lparr>k_last := fst (f (k_last k, k_tasks k)), k_tasks := snd (f (k_last k, k_tasks k))\<rparr>"
  by (simp add: on_ring_def split: prod.splits)

lemma insert_task_other [simp]:
  "t_state (snd (insert_task p s) x) = t_state (snd s x)"
  "t_ready_next (snd (insert_task p s) x) = t_ready_next (snd s x)"
  "t_dead_next (snd (insert_task p s) x) = t_dead_next (snd s x)"
  "t_mutex_wait_next (snd (insert_task p s) x) = t_mutex_wait_next (snd s x)"
  by (auto simp: insert_task_def at_ptr_def Let_def split: prod.splits)

lemma unlink_task_other [simp]:
  "t_state (snd (remove_task_from_circular_list p s) x) = t_state (snd s x)"
  "t_ready_next (snd (remove_task_from_circular_list p s) x) = t_ready_next (snd s x)"
  "t_dead_next (snd (remove_task_from_circular_list p s) x) = t_dead_next (snd s x)"
  "t_mutex_wait_next (snd (remove_task_from_circular_list p s) x) = t_mutex_wait_next (snd s x)"
  by (auto simp: remove_task_from_circular_list_def at_ptr_def Let_def split: prod.splits)

text \<open>A queue depends on its own link field only, the chain on its elements only.\<close>

lemma ready_frame:
  assumes "\<And>x. x \<in> set xs \<Longrightarrow> t_ready_next (h' x) = t_ready_next (h x)" "holds_list ready_view (q, h) xs"
  shows "holds_list ready_view (q, h') xs"
  using assms by (auto simp: holds_list_def ready_view_def intro: linked_frame)

lemma dead_frame:
  assumes "\<And>x. x \<in> set xs \<Longrightarrow> t_dead_next (h' x) = t_dead_next (h x)" "holds_list dead_view (q, h) xs"
  shows "holds_list dead_view (q, h') xs"
  using assms by (auto simp: holds_list_def dead_view_def intro: linked_frame)

lemma waiting_frame:
  assumes "\<And>x. x \<in> set xs \<Longrightarrow> t_mutex_wait_next (h' x) = t_mutex_wait_next (h x)" "holds_list waiting_view (q, h) xs"
  shows "holds_list waiting_view (q, h') xs"
  using assms by (auto simp: holds_list_def waiting_view_def intro: linked_frame)

lemma waiting_lock:
  assumes "m_queue_head q' = m_queue_head q" "m_queue_tail q' = m_queue_tail q"
  shows "holds_list waiting_view (q', h) xs \<longleftrightarrow> holds_list waiting_view (q, h) xs"
  using assms by (simp add: holds_list_def waiting_view_def)

lemma set_state_fields [simp]:
  "t_ready_next (k_tasks (set_state p b k) x) = t_ready_next (k_tasks k x)"
  "t_dead_next (k_tasks (set_state p b k) x) = t_dead_next (k_tasks k x)"
  "t_mutex_wait_next (k_tasks (set_state p b k) x) = t_mutex_wait_next (k_tasks k x)"
  "k_queue (set_state p b k) = k_queue k" "k_dead_q (set_state p b k) = k_dead_q k" "k_locks (set_state p b k) = k_locks k"
  "k_current (set_state p b k) = k_current k" "k_reaper (set_state p b k) = k_reaper k"
  "t_state (k_tasks (set_state p b k) x) = (if x = p then b else t_state (k_tasks k x))"
  "state_of (set_state p b k) = (state_of k)(p := b)"
  by (auto simp: set_state_def at_ptr_def state_of_def)

lemma state_of_updates [simp]:
  "state_of (k_current_update f k) = state_of k" "state_of (k_reaper_update f k) = state_of k"
  "state_of (k_locks_update g k) = state_of k" "state_of (k_heap_update j k) = state_of k"
  "state_of (k_vmm_update v k) = state_of k" "state_of (k_num_update n k) = state_of k"
  "state_of (k_last_update z k) = state_of k"
  by (auto simp: state_of_def)

lemma models_distinct:
  assumes "models k a"
  shows "distinct (a_ready a)" "distinct (a_dead a)" "distinct (a_wait a l)"
    "0 \<notin> set (a_ready a)" "0 \<notin> set (a_dead a)" "0 \<notin> set (a_wait a l)"
  using assms by (auto simp: models_def holds_list_def ready_view_def dead_view_def waiting_view_def linked_def dest: chain_null)

section \<open>Refinement\<close>

lemma models_set_state:
  "models k a \<Longrightarrow> models (set_state p b k) (a\<lparr>a_state := (a_state a)(p := b)\<rparr>)"
  by (auto simp: models_def intro: ready_frame [rotated] dead_frame [rotated] waiting_frame [rotated])

lemma models_add_ready:
  assumes "models k a" "p \<noteq> 0" "p \<notin> set (a_ready a)"
  shows "models (on_ready (add_task_to_ready_queue p) k) (a\<lparr>a_ready := a_ready a @ [p]\<rparr>)"
proof -
  obtain q h where e: "add_task_to_ready_queue p (k_queue k, k_tasks k) = (q, h)" by fastforce
  have "holds_list ready_view (q, h) (a_ready a @ [p])"
    using ready.queue.enq_rep [of "(k_queue k, k_tasks k)" "a_ready a" p] assms e by (simp add: models_def)
  moreover have "t_state (h x) = t_state (k_tasks k x)" "t_dead_next (h x) = t_dead_next (k_tasks k x)"
    "t_mutex_wait_next (h x) = t_mutex_wait_next (k_tasks k x)" for x
    using add_ready_other [of p "(k_queue k, k_tasks k)" x] e by simp_all
  ultimately show ?thesis
    using assms(1) e
    by (auto simp: models_def on_ready_def state_of_def intro: dead_frame [rotated] waiting_frame [rotated])
qed

lemma models_add_dead:
  assumes "models k a" "p \<noteq> 0" "p \<notin> set (a_dead a)"
  shows "models (on_dead (add_task_to_dead_queue p) k) (a\<lparr>a_dead := a_dead a @ [p]\<rparr>)"
proof -
  obtain q h where e: "add_task_to_dead_queue p (k_dead_q k, k_tasks k) = (q, h)" by fastforce
  have "holds_list dead_view (q, h) (a_dead a @ [p])"
    using dead.queue.enq_rep [of "(k_dead_q k, k_tasks k)" "a_dead a" p] assms e by (simp add: models_def)
  moreover have "t_state (h x) = t_state (k_tasks k x)" "t_ready_next (h x) = t_ready_next (k_tasks k x)"
    "t_mutex_wait_next (h x) = t_mutex_wait_next (k_tasks k x)" for x
    using add_dead_other [of p "(k_dead_q k, k_tasks k)" x] e by simp_all
  ultimately show ?thesis
    using assms(1) e
    by (auto simp: models_def on_dead_def state_of_def intro: ready_frame [rotated] waiting_frame [rotated])
qed

lemma models_make_ready:
  assumes "models k a" "p \<noteq> 0" "p \<notin> set (a_ready a)"
  shows "models (on_ready (add_task_to_ready_queue p) (set_state p TASK_READY k)) (a_make_ready p a)"
  using models_add_ready [OF models_set_state [OF assms(1)], of p p TASK_READY] assms by (simp add: a_make_ready_def)

lemma models_current: "models k a \<Longrightarrow> models (k\<lparr>k_current := x\<rparr>) (a\<lparr>a_current := x\<rparr>)"
  by (simp add: models_def)

lemma models_next:
  assumes "models k a"
  shows "fst (schedule_next k) = fst (a_next a)" "models (snd (schedule_next k)) (snd (a_next a))"
proof -
  have r: "holds_list ready_view (k_queue k, k_tasks k) (a_ready a)" using assms by (simp add: models_def)
  obtain t q h where e: "remove_task_from_ready_queue (k_queue k, k_tasks k) = (t, q, h)" by (metis prod_cases3)
  have other: "t_state (h x) = t_state (k_tasks k x)" "t_dead_next (h x) = t_dead_next (k_tasks k x)"
    "t_mutex_wait_next (h x) = t_mutex_wait_next (k_tasks k x)" for x
    using remove_ready_other [of "(k_queue k, k_tasks k)" x] e by simp_all
  have "fst (schedule_next k) = fst (a_next a) \<and> models (snd (schedule_next k)) (snd (a_next a))"
  proof (cases "a_ready a")
    case Nil
    then have "t = 0" "q = k_queue k" "h = k_tasks k"
      using ready.queue.deq_empty [of "(k_queue k, k_tasks k)"] r e by (auto simp: taking_def ptr_opt_def split: if_splits)
    with Nil e assms show ?thesis by (simp add: schedule_next_def a_next_def)
  next
    case (Cons x xs)
    then have t: "t = x" "t \<noteq> 0" "holds_list ready_view (q, h) xs"
      using ready.queue.deq_rep [of "(k_queue k, k_tasks k)" x xs] r e by (auto simp: taking_def ptr_opt_def split: if_splits)
    have "models (k\<lparr>k_queue := q, k_tasks := h\<rparr>) (a\<lparr>a_ready := xs\<rparr>)"
      using assms t(3) other
      by (auto simp: models_def state_of_def intro: dead_frame [rotated] waiting_frame [rotated])
    from models_current [OF models_set_state [OF this, of x TASK_RUNNING], of x] have
      "models ((set_state x TASK_RUNNING (k\<lparr>k_queue := q, k_tasks := h\<rparr>))\<lparr>k_current := x\<rparr>)
        (a\<lparr>a_ready := xs, a_state := (a_state a)(x := TASK_RUNNING), a_current := x\<rparr>)"
      by simp
    with Cons e t show ?thesis by (simp add: schedule_next_def a_next_def Let_def)
  qed
  then show "fst (schedule_next k) = fst (a_next a)" "models (snd (schedule_next k)) (snd (a_next a))" by simp_all
qed

lemma models_back:
  assumes "models k a" "a_current a \<noteq> 0" "a_reaper a \<noteq> 0"
    and "a_state a (a_current a) = TASK_RUNNING \<Longrightarrow> a_current a \<notin> set (a_ready a)"
    and "a_state a (a_current a) = TASK_DEAD \<Longrightarrow> a_current a \<notin> set (a_dead a)"
    and "a_state a (a_reaper a) = TASK_BLOCKED \<Longrightarrow> a_reaper a \<notin> set (a_ready a)"
  shows "models (schedule_back k) (a_back a)"
proof -
  have v: "a_current a = k_current k" "a_reaper a = k_reaper k" "a_state a = state_of k" using assms(1) by (simp_all add: models_def)
  show ?thesis
  proof (cases "a_state a (a_current a) = TASK_DEAD")
    case True
    let ?k = "on_dead (add_task_to_dead_queue (k_current k)) k" and ?a = "a\<lparr>a_dead := a_dead a @ [a_current a]\<rparr>"
    have m: "models ?k ?a" using models_add_dead [OF assms(1,2)] assms(5) True v by simp
    have v': "k_reaper ?k = k_reaper k" "state_of ?k = state_of k" using m v by (simp_all add: models_def)
    show ?thesis
    proof (cases "a_state a (a_reaper a) = TASK_BLOCKED")
      case b: True
      have "models (on_ready (add_task_to_ready_queue (k_reaper k)) (set_state (k_reaper k) TASK_READY ?k)) (a_make_ready (a_reaper a) ?a)"
        using models_make_ready [OF m, of "k_reaper k"] assms(3,6) b v by simp
      with True b v v' show ?thesis by (simp add: schedule_back_def a_back_def task_states Let_def)
    next
      case False
      with True m v v' show ?thesis by (simp add: schedule_back_def a_back_def task_states Let_def)
    qed
  next
    case False
    then show ?thesis
      using models_make_ready [OF assms(1,2)] assms(1,4) v by (auto simp: schedule_back_def a_back_def)
  qed
qed

lemma models_exit: "models k a \<Longrightarrow> models (thread_exit k) (a_exit a)"
  using models_set_state [of k a "k_current k" TASK_DEAD] by (simp add: thread_exit_def a_exit_def models_def)

text \<open>The waiters of different mutexes are different tasks.\<close>

definition waits_apart :: "asched \<Rightarrow> bool" where
  "waits_apart a \<longleftrightarrow> (\<forall>l m. l \<noteq> m \<longrightarrow> set (a_wait a l) \<inter> set (a_wait a m) = {})"

lemma add_wait_links:
  assumes "holds_list waiting_view (m, h) ws" "x \<noteq> p" "x \<notin> set ws"
  shows "t_mutex_wait_next (snd (add_task_to_mutex_queue p (m, h)) x) = t_mutex_wait_next (h x)"
proof (cases "m_queue_head m = 0")
  case False
  then have "m_queue_tail m \<in> set ws"
    using assms(1) by (cases ws) (auto simp: holds_list_def waiting_view_def linked_def)
  with assms False show ?thesis by (auto simp: add_task_to_mutex_queue_def isempty_wait_queue_def at_ptr_def)
qed (use assms in \<open>auto simp: add_task_to_mutex_queue_def isempty_wait_queue_def at_ptr_def\<close>)

lemma models_lock:
  assumes "models k a" "a_current a \<noteq> 0" "\<forall>l. a_current a \<notin> set (a_wait a l)" "waits_apart a"
  shows "fst (mutex_lock_round l k) = fst (a_lock l a)" "models (snd (mutex_lock_round l k)) (snd (a_lock l a))"
proof -
  have v: "a_current a = k_current k" "a_state a = state_of k"
    "a_held a l = (if m_locked (k_locks k l) = 0 then None else Some (m_holder (k_locks k l)))"
    using assms(1) by (simp_all add: models_def)
  then show "fst (mutex_lock_round l k) = fst (a_lock l a)"
    by (simp add: mutex_lock_round_def a_lock_def Let_def)
  show "models (snd (mutex_lock_round l k)) (snd (a_lock l a))"
  proof (cases "m_locked (k_locks k l) = 0")
    case True
    let ?m = "(k_locks k l)\<lparr>m_locked := 1, m_holder := k_current k\<rparr>"
    have "holds_list waiting_view (?m, k_tasks k) (a_wait a l)"
      using assms(1) waiting_lock [of ?m "k_locks k l"] by (simp add: models_def)
    with True v assms(1) show ?thesis
      by (auto simp: mutex_lock_round_def a_lock_def get_current_task_def models_def state_of_def)
  next
    case False
    let ?p = "k_current k" and ?k = "set_state (k_current k) TASK_BLOCKED k"
    have s: "models ?k (a\<lparr>a_state := (a_state a)(?p := TASK_BLOCKED)\<rparr>)" by (rule models_set_state [OF assms(1)])
    obtain m h where e: "add_task_to_mutex_queue ?p (k_locks k l, k_tasks ?k) = (m, h)" by fastforce
    have w: "holds_list waiting_view (k_locks k l, k_tasks ?k) (a_wait a l)" using s by (simp add: models_def)
    have "holds_list waiting_view (m, h) (a_wait a l @ [?p])"
      using waiting.queue.enq_rep [OF w] assms(2,3) v e by metis
    moreover have "holds_list waiting_view (k_locks k l', h) (a_wait a l')" if "l' \<noteq> l" for l'
    proof (rule waiting_frame)
      show "holds_list waiting_view (k_locks k l', k_tasks ?k) (a_wait a l')" using s by (simp add: models_def)
      show "t_mutex_wait_next (h x) = t_mutex_wait_next (k_tasks ?k x)" if "x \<in> set (a_wait a l')" for x
      proof -
        have "x \<noteq> ?p" "x \<notin> set (a_wait a l)" using that assms(3,4) \<open>l' \<noteq> l\<close> v by (auto simp: waits_apart_def)
        from add_wait_links [OF w this] e show ?thesis by simp
      qed
    qed
    moreover have "t_state (h x) = t_state (k_tasks ?k x)" "t_ready_next (h x) = t_ready_next (k_tasks ?k x)"
      "t_dead_next (h x) = t_dead_next (k_tasks ?k x)" for x
      using add_wait_other [of ?p "(k_locks k l, k_tasks ?k)" x] e by simp_all
    moreover have "m_locked m = m_locked (k_locks k l)" "m_holder m = m_holder (k_locks k l)"
      using e by (auto simp: add_task_to_mutex_queue_def Let_def split: if_splits)
    ultimately have "models (?k\<lparr>k_locks := (k_locks k)(l := m), k_tasks := h\<rparr>)
        (a\<lparr>a_state := (a_state a)(?p := TASK_BLOCKED), a_wait := (a_wait a)(l := a_wait a l @ [?p])\<rparr>)"
      using s by (auto simp: models_def state_of_def fun_eq_iff intro: ready_frame [rotated] dead_frame [rotated])
    with False v e show ?thesis
      by (simp add: mutex_lock_round_def a_lock_def get_current_task_def on_lock_def Let_def)
  qed
qed

lemma remove_wait_links:
  assumes "holds_list waiting_view (m, h) (t # ts)" "x \<noteq> t"
  shows "t_mutex_wait_next (snd (snd (remove_task_from_mutex_queue (m, h))) x) = t_mutex_wait_next (h x)"
  using assms
  by (auto simp: remove_task_from_mutex_queue_def isempty_wait_queue_def at_ptr_def Let_def holds_list_def waiting_view_def linked_def)

lemma models_unlock:
  assumes "models k a" "waits_apart a"
    and "\<And>t ts. a_wait a l = t # ts \<Longrightarrow> t \<notin> set (a_ready a)"
  shows "models (mutex_unlock l k) (a_unlock l a)"
proof -
  let ?m = "(k_locks k l)\<lparr>m_locked := 0, m_holder := 0\<rparr>"
  let ?k = "k\<lparr>k_locks := (k_locks k)(l := ?m)\<rparr>" and ?a = "a\<lparr>a_held := (a_held a)(l := None)\<rparr>"
  have "holds_list waiting_view (?m, k_tasks k) (a_wait a l)"
    using assms(1) waiting_lock [of ?m "k_locks k l"] by (simp add: models_def)
  then have m: "models ?k ?a" using assms(1) by (simp add: models_def)
  have w: "holds_list waiting_view (?m, k_tasks k) (a_wait a l)" using m by (auto simp: models_def dest: spec [of _ l])
  show ?thesis
  proof (cases "a_wait a l")
    case Nil
    then have "m_queue_head ?m = 0" using w by (simp add: holds_list_def waiting_view_def linked_def)
    with Nil m show ?thesis by (simp add: mutex_unlock_def a_unlock_def isempty_wait_queue_def Let_def)
  next
    case (Cons t ts)
    then have ne: "m_queue_head ?m \<noteq> 0" using w by (auto simp: holds_list_def waiting_view_def linked_def)
    obtain t' m' h where e: "remove_task_from_mutex_queue (?m, k_tasks k) = (t', m', h)" by (metis prod_cases3)
    have t: "t' = t" "t \<noteq> 0" "holds_list waiting_view (m', h) ts"
      using waiting.queue.deq_rep [of "(?m, k_tasks k)" t ts] w e Cons by (auto simp: taking_def ptr_opt_def split: if_splits)
    have "holds_list waiting_view (k_locks k l', h) (a_wait a l')" if "l' \<noteq> l" for l'
    proof (rule waiting_frame)
      show "holds_list waiting_view (k_locks k l', k_tasks k) (a_wait a l')" using assms(1) by (simp add: models_def)
      show "t_mutex_wait_next (h x) = t_mutex_wait_next (k_tasks k x)" if "x \<in> set (a_wait a l')" for x
      proof -
        have "t \<in> set (a_wait a l)" using Cons by simp
        then have "x \<noteq> t" using that assms(2) \<open>l' \<noteq> l\<close> unfolding waits_apart_def by blast
        from remove_wait_links [OF w [unfolded Cons] this] e show ?thesis by simp
      qed
    qed
    moreover have "t_state (h x) = t_state (k_tasks k x)" "t_ready_next (h x) = t_ready_next (k_tasks k x)"
      "t_dead_next (h x) = t_dead_next (k_tasks k x)" for x
      using remove_wait_other [of "(?m, k_tasks k)" x] e by simp_all
    moreover have "m_locked m' = 0"
      using e by (auto simp: remove_task_from_mutex_queue_def Let_def split: if_splits)
    ultimately have "models (k\<lparr>k_locks := (k_locks k)(l := m'), k_tasks := h\<rparr>) (?a\<lparr>a_wait := (a_wait a)(l := ts)\<rparr>)"
      using assms(1) t(3) by (auto simp: models_def state_of_def fun_eq_iff intro: ready_frame [rotated] dead_frame [rotated])
    from models_make_ready [OF this t(2)] assms(3) [OF Cons] have
      "models (on_ready (add_task_to_ready_queue t) (set_state t TASK_READY (k\<lparr>k_locks := (k_locks k)(l := m'), k_tasks := h\<rparr>)))
        (a_make_ready t (?a\<lparr>a_wait := (a_wait a)(l := ts)\<rparr>))" by simp
    with Cons ne e t(1) show ?thesis
      by (simp add: mutex_unlock_def a_unlock_def isempty_wait_queue_def Let_def)
  qed
qed

text \<open>The memory a task takes and gives back is none of the scheduler's lists.\<close>

lemma models_tasks:
  assumes "models k a" "\<And>x. x \<noteq> p \<Longrightarrow> h x = k_tasks k x" "p \<notin> set (a_ready a)" "p \<notin> set (a_dead a)"
    "\<forall>l. p \<notin> set (a_wait a l)"
  shows "models (k\<lparr>k_tasks := h\<rparr>) (a\<lparr>a_state := (a_state a)(p := t_state (h p))\<rparr>)"
proof -
  have "x \<in> set xs \<Longrightarrow> p \<notin> set xs \<Longrightarrow> h x = k_tasks k x" for x xs using assms(2) [of x] by blast
  then show ?thesis
    using assms(1,3-5) assms(2)
    by (auto simp: models_def state_of_def fun_eq_iff
      intro!: ready_frame [of _ h "k_tasks k"] dead_frame [of _ h "k_tasks k"] waiting_frame [of _ h "k_tasks k"])
qed

lemma models_other [simp]:
  "models (k\<lparr>k_heap := x\<rparr>) a \<longleftrightarrow> models k a" "models (k\<lparr>k_vmm := v\<rparr>) a \<longleftrightarrow> models k a"
  "models (k\<lparr>k_num := n\<rparr>) a \<longleftrightarrow> models k a" "models (k\<lparr>k_last := z\<rparr>) a \<longleftrightarrow> models k a"
  by (simp_all add: models_def state_of_def)

lemma models_on_vmm: "on_vmm f k = Inr k' \<Longrightarrow> models k' a \<longleftrightarrow> models k a"
  by (auto simp: on_vmm_def models_def state_of_def)

lemma models_on_bitmap: "on_bitmap f k = Inr k' \<Longrightarrow> models k' a \<longleftrightarrow> models k a"
  by (auto simp: on_bitmap_def models_def state_of_def)

lemma models_ring:
  assumes "\<And>x. t_state (snd (f (k_last k, k_tasks k)) x) = t_state (k_tasks k x)"
    "\<And>x. t_ready_next (snd (f (k_last k, k_tasks k)) x) = t_ready_next (k_tasks k x)"
    "\<And>x. t_dead_next (snd (f (k_last k, k_tasks k)) x) = t_dead_next (k_tasks k x)"
    "\<And>x. t_mutex_wait_next (snd (f (k_last k, k_tasks k)) x) = t_mutex_wait_next (k_tasks k x)"
  shows "models (on_ring f k) a \<longleftrightarrow> models k a"
proof -
  have "holds_list ready_view (q, snd (f (k_last k, k_tasks k))) xs = holds_list ready_view (q, k_tasks k) xs"
    "holds_list dead_view (d, snd (f (k_last k, k_tasks k))) xs = holds_list dead_view (d, k_tasks k) xs"
    "holds_list waiting_view (m, snd (f (k_last k, k_tasks k))) xs = holds_list waiting_view (m, k_tasks k) xs" for q d m xs
    using assms by (simp_all add: holds_list_def ready_view_def dead_view_def waiting_view_def)
  moreover have "state_of (k\<lparr>k_last := z, k_tasks := snd (f (k_last k, k_tasks k))\<rparr>) = state_of k" for z
    using assms(1) by (simp add: state_of_def fun_eq_iff)
  ultimately show ?thesis by (simp add: ring_other models_def)
qed

lemma models_reap:
  assumes "models k a" "reaper_round k = Inr (b, k')"
  shows "b = fst (a_reap a)" "models k' (snd (a_reap a))"
proof -
  have r: "holds_list dead_view (k_dead_q k, k_tasks k) (a_dead a)" using assms(1) by (simp add: models_def)
  obtain t q h where e: "remove_task_from_dead_queue (k_dead_q k, k_tasks k) = (t, q, h)" by (metis prod_cases3)
  have other: "t_state (h x) = t_state (k_tasks k x)" "t_ready_next (h x) = t_ready_next (k_tasks k x)"
    "t_mutex_wait_next (h x) = t_mutex_wait_next (k_tasks k x)" for x
    using remove_dead_other [of "(k_dead_q k, k_tasks k)" x] e by simp_all
  have "b = fst (a_reap a) \<and> models k' (snd (a_reap a))"
  proof (cases "a_dead a")
    case Nil
    then have "t = 0" "q = k_dead_q k" "h = k_tasks k"
      using dead.queue.deq_empty [of "(k_dead_q k, k_tasks k)"] r e by (auto simp: taking_def ptr_opt_def split: if_splits)
    then have "b" "k' = set_state (k_reaper k) TASK_BLOCKED k" using e assms(2) by (simp_all add: reaper_round_def)
    moreover have "a_reaper a = k_reaper k" using assms(1) by (simp add: models_def)
    ultimately show ?thesis using Nil models_set_state [OF assms(1), of "k_reaper k" TASK_BLOCKED]
      by (simp add: a_reap_def)
  next
    case (Cons x xs)
    then have t: "t = x" "t \<noteq> 0" "holds_list dead_view (q, h) xs"
      using dead.queue.deq_rep [of "(k_dead_q k, k_tasks k)" x xs] r e by (auto simp: taking_def ptr_opt_def split: if_splits)
    have "models (k\<lparr>k_dead_q := q, k_tasks := h\<rparr>) (a\<lparr>a_dead := xs\<rparr>)"
      using assms(1) t(3) other
      by (auto simp: models_def state_of_def intro: ready_frame [rotated] waiting_frame [rotated])
    then have "models (on_ring (remove_task_from_circular_list t) (k\<lparr>k_dead_q := q, k_tasks := h\<rparr>)) (a\<lparr>a_dead := xs\<rparr>)"
      by (subst models_ring) simp_all
    moreover obtain k1 k2 k3 g st hp where
      "on_vmm (vmm_map_page g g) (on_ring (remove_task_from_circular_list t) (k\<lparr>k_dead_q := q, k_tasks := h\<rparr>)) = Inr k1"
      "on_bitmap (pmm_free_frame g) k1 = Inr k2" "on_bitmap (pmm_free_frame st) k2 = Inr k3"
      "kfree t (k_heap k3) = Inr hp" "b = False" "k' = k3\<lparr>k_heap := hp\<rparr>"
      using assms(2) e t(2) unfolding reaper_round_def Let_def by (simp add: Let_def) blast
    ultimately have "models k' (a\<lparr>a_dead := xs\<rparr>)"
      using models_on_vmm models_on_bitmap by (metis models_other(1))
    with Cons \<open>b = False\<close> show ?thesis by (simp add: a_reap_def)
  qed
  then show "b = fst (a_reap a)" "models k' (snd (a_reap a))" by simp_all
qed

lemma models_new_task:
  assumes "models k a" "new_task n code task_id k = Inr (p, k')"
    "p \<notin> set (a_ready a)" "p \<notin> set (a_dead a)" "\<forall>l. p \<notin> set (a_wait a l)"
  shows "models k' (a\<lparr>a_state := (a_state a)(p := 0)\<rparr>)"
proof -
  obtain heap base bm k1 st mem pd where
    "on_vmm (\<lambda>v. Inr (vmm_unmap_page base v)) (k\<lparr>k_heap := heap\<lparr>h_bitmap := bm\<rparr>\<rparr>) = Inr k1"
    and k': "k' = k1\<lparr>k_tasks := (k_tasks k1)(p := \<lparr>t_ESP = st, t_EIP = code, t_page_directory = pd, t_state = 0,
      t_stack_base = base + 4096, t_id = task_id, t_next = 0, t_prev = 0, t_ready_next = 0, t_mutex_wait_next = 0, t_dead_next = 0\<rparr>),
      k_vmm := (k_vmm k1)\<lparr>v_mem := mem\<rparr>\<rparr>"
    using assms(2) unfolding new_task_def Let_def by (auto split: prod.splits)
  then have "models k1 a" using models_on_vmm assms(1) by (metis models_other(1))
  from models_tasks [OF this, where p = p and h = "(k_tasks k1)(p := \<lparr>t_ESP = st, t_EIP = code, t_page_directory = pd, t_state = 0,
      t_stack_base = base + 4096, t_id = task_id, t_next = 0, t_prev = 0, t_ready_next = 0, t_mutex_wait_next = 0, t_dead_next = 0\<rparr>)"]
  show ?thesis using assms(3-5) unfolding k' by simp
qed

lemma models_link: "link_task p k = Inr k' \<Longrightarrow> models k' a \<longleftrightarrow> models k a"
  using models_ring [of "insert_task p" k a] by (auto simp: link_task_def Let_def c_int_def split: if_splits)

end
