(* ===== verification/Sched_Steps.thy ===== *)
theory Sched_Steps
  imports Sched_Spec
begin

text \<open>
  The executions of the kernel on its one processor: the scheduler picks tasks, the timer preempts
  them, and they create tasks, end, lock and unlock mutexes; the reaper reaps. The invariant of all
  reachable states is proved by rule induction.
\<close>

section \<open>Configurations\<close>

text \<open>
  Where a task is, as far as it matters: anywhere in its own code, in the loop of
  \<open>mutex_lock(l)\<close> past a \<open>yield\<close>, in \<open>reaper_thread\<close> between blocking itself and its \<open>yield\<close>, or in
  \<open>create_task\<close> between the ready queue and the circular list.
\<close>

datatype place = Free | Locking u32 | Parked | Linking u32

text \<open>
  \<open>c_sched\<close>: the processor is in the loop of \<open>schedule\<close>, otherwise in \<open>current_task\<close>. \<open>c_made\<close> are
  the tasks created and not yet reaped. \<open>c_inside\<close> are the pairs of a task and a mutex such that
  the task's \<open>mutex_lock\<close> has returned and it has not called \<open>mutex_unlock\<close> since.
\<close>

record conf =
  c_kernel :: kernel
  c_sched :: bool
  c_at :: "u32 \<Rightarrow> place"
  c_made :: "u32 set"
  c_inside :: "(u32 \<times> u32) set"

abbreviation cur :: "conf \<Rightarrow> u32" where "cur c \<equiv> k_current (c_kernel c)"
abbreviation reaper :: "conf \<Rightarrow> u32" where "reaper c \<equiv> k_reaper (c_kernel c)"

datatype event = Pick | Preempt | Exit | Lock u32 | Unlock u32 | Reap | Spawn u32 | Link

section \<open>Steps\<close>

text \<open>
  The guards that are not conditions of the code: a task unlocks a mutex only inside, does not end
  inside, and the reaper only reaps; memory for a new task is not that of a task.
\<close>

inductive step :: "conf \<Rightarrow> event \<Rightarrow> conf \<Rightarrow> bool" where
  pick: "c_sched c \<Longrightarrow> schedule_next (c_kernel c) = (True, k) \<Longrightarrow>
    step c Pick (c\<lparr>c_kernel := k, c_sched := False\<rparr>)"
| preempt: "\<not> c_sched c \<Longrightarrow> \<forall>l. c_at c (cur c) \<noteq> Locking l \<Longrightarrow>
    step c Preempt (c\<lparr>c_kernel := schedule_back (c_kernel c), c_sched := True\<rparr>)"
| unpark: "\<not> c_sched c \<Longrightarrow> c_at c (cur c) = Parked \<Longrightarrow>
    step c Preempt (c\<lparr>c_kernel := schedule_back (c_kernel c), c_sched := True, c_at := (c_at c)(cur c := Free)\<rparr>)"
| exit: "\<not> c_sched c \<Longrightarrow> c_at c (cur c) = Free \<Longrightarrow> cur c \<noteq> reaper c \<Longrightarrow> \<forall>l. (cur c, l) \<notin> c_inside c \<Longrightarrow>
    step c Exit (c\<lparr>c_kernel := schedule_back (thread_exit (c_kernel c)), c_sched := True\<rparr>)"
| locked: "\<not> c_sched c \<Longrightarrow> c_at c (cur c) \<in> {Free, Locking l} \<Longrightarrow> cur c \<noteq> reaper c \<Longrightarrow>
    mutex_lock_round l (c_kernel c) = (True, k) \<Longrightarrow>
    step c (Lock l) (c\<lparr>c_kernel := k, c_at := (c_at c)(cur c := Free), c_inside := insert (cur c, l) (c_inside c)\<rparr>)"
| blocked: "\<not> c_sched c \<Longrightarrow> c_at c (cur c) \<in> {Free, Locking l} \<Longrightarrow> cur c \<noteq> reaper c \<Longrightarrow>
    mutex_lock_round l (c_kernel c) = (False, k) \<Longrightarrow>
    step c (Lock l) (c\<lparr>c_kernel := schedule_back k, c_sched := True, c_at := (c_at c)(cur c := Locking l)\<rparr>)"
| unlock: "\<not> c_sched c \<Longrightarrow> c_at c (cur c) = Free \<Longrightarrow> (cur c, l) \<in> c_inside c \<Longrightarrow>
    step c (Unlock l) (c\<lparr>c_kernel := mutex_unlock l (c_kernel c), c_inside := c_inside c - {(cur c, l)}\<rparr>)"
| reap: "\<not> c_sched c \<Longrightarrow> c_at c (cur c) = Free \<Longrightarrow> cur c = reaper c \<Longrightarrow>
    reaper_round (c_kernel c) = Inr (idle, k) \<Longrightarrow>
    step c Reap (c\<lparr>c_kernel := k, c_at := (c_at c)(cur c := if idle then Parked else Free),
      c_made := c_made c - {dead_head (k_dead_q (c_kernel c))}\<rparr>)"
| spawn: "\<not> c_sched c \<Longrightarrow> c_at c (cur c) = Free \<Longrightarrow> cur c \<noteq> reaper c \<Longrightarrow>
    new_task n code task_id (c_kernel c) = Inr (p, k) \<Longrightarrow> p \<noteq> 0 \<Longrightarrow> p \<notin> c_made c \<Longrightarrow>
    step c (Spawn p) (c\<lparr>c_kernel := publish_task 0 p k, c_at := (c_at c)(p := Free, cur c := Linking p),
      c_made := insert p (c_made c)\<rparr>)"
| link: "\<not> c_sched c \<Longrightarrow> c_at c (cur c) = Linking p \<Longrightarrow> link_task p (c_kernel c) = Inr k \<Longrightarrow>
    step c Link (c\<lparr>c_kernel := k, c_at := (c_at c)(cur c := Free)\<rparr>)"

inductive steps :: "conf \<Rightarrow> event list \<Rightarrow> conf \<Rightarrow> bool" where
  none: "steps c [] c"
| more: "steps c es d \<Longrightarrow> step d e d' \<Longrightarrow> steps c (es @ [e]) d'"

inductive_cases step_cases: "step c e d"
inductive_cases steps_cases: "steps c es d"

section \<open>The invariant\<close>

text \<open>The lists, the states and the places fit together.\<close>

definition fits :: "asched \<Rightarrow> u32 \<Rightarrow> bool" where
  "fits a t \<longleftrightarrow> (a_state a t = TASK_READY \<longleftrightarrow> t \<in> set (a_ready a)) \<and> (a_state a t = TASK_DEAD \<longleftrightarrow> t \<in> set (a_dead a)) \<and>
     (t \<noteq> a_reaper a \<longrightarrow> (a_state a t = TASK_BLOCKED \<longleftrightarrow> (\<exists>l. t \<in> set (a_wait a l)))) \<and>
     a_state a t \<in> {TASK_BLOCKED, TASK_READY, TASK_RUNNING, TASK_DEAD}"

definition placed :: "asched \<Rightarrow> u32 set \<Rightarrow> bool" where
  "placed a made \<longleftrightarrow> 0 \<notin> made \<and> a_reaper a \<in> made \<and> set (a_ready a) \<subseteq> made \<and> set (a_dead a) \<subseteq> made \<and>
     (\<forall>l. set (a_wait a l) \<subseteq> made) \<and> (\<forall>t \<in> made. fits a t)"

definition running_ok :: "asched \<Rightarrow> bool \<Rightarrow> (u32 \<Rightarrow> place) \<Rightarrow> u32 set \<Rightarrow> bool" where
  "running_ok a sched at made \<longleftrightarrow>
     (\<forall>t \<in> made. a_state a t = TASK_RUNNING \<longrightarrow> \<not> sched \<and> t = a_current a) \<and>
     (\<not> sched \<longrightarrow> a_current a \<in> made \<and> (a_state a (a_current a) = TASK_RUNNING \<or>
        a_current a = a_reaper a \<and> at (a_reaper a) = Parked \<and> a_state a (a_reaper a) = TASK_BLOCKED))"

definition reaper_ok :: "asched \<Rightarrow> (u32 \<Rightarrow> place) \<Rightarrow> bool" where
  "reaper_ok a at \<longleftrightarrow> at (a_reaper a) \<in> {Free, Parked} \<and> a_state a (a_reaper a) \<noteq> TASK_DEAD \<and>
     (\<forall>l. a_reaper a \<notin> set (a_wait a l)) \<and> (a_dead a \<noteq> [] \<longrightarrow> a_state a (a_reaper a) \<noteq> TASK_BLOCKED)"

definition contended :: "asched \<Rightarrow> (u32 \<Rightarrow> place) \<Rightarrow> u32 set \<Rightarrow> u32 \<Rightarrow> bool" where
  "contended a at made l \<longleftrightarrow> (\<exists>t \<in> made. at t = Locking l \<and> a_state a t \<in> {TASK_READY, TASK_RUNNING})"

definition locks_ok :: "asched \<Rightarrow> (u32 \<Rightarrow> place) \<Rightarrow> u32 set \<Rightarrow> (u32 \<times> u32) set \<Rightarrow> bool" where
  "locks_ok a at made inside \<longleftrightarrow>
     (\<forall>t l. (t, l) \<in> inside \<longleftrightarrow> a_held a l = Some t) \<and>
     (\<forall>l. \<forall>t \<in> set (a_wait a l). at t = Locking l) \<and>
     (\<forall>l. a_wait a l \<noteq> [] \<longrightarrow> a_held a l \<noteq> None \<or> contended a at made l)"

definition good :: "asched \<Rightarrow> conf \<Rightarrow> bool" where
  "good a c \<longleftrightarrow> models (c_kernel c) a \<and> placed a (c_made c) \<and> running_ok a (c_sched c) (c_at c) (c_made c) \<and>
     reaper_ok a (c_at c) \<and> locks_ok a (c_at c) (c_made c) (c_inside c)"

lemma state_distinct [simp]:
  "TASK_READY \<noteq> TASK_BLOCKED" "TASK_BLOCKED \<noteq> TASK_READY" "TASK_RUNNING \<noteq> TASK_BLOCKED" "TASK_BLOCKED \<noteq> TASK_RUNNING"
  "TASK_DEAD \<noteq> TASK_BLOCKED" "TASK_BLOCKED \<noteq> TASK_DEAD" "TASK_RUNNING \<noteq> TASK_READY" "TASK_READY \<noteq> TASK_RUNNING"
  "TASK_DEAD \<noteq> TASK_READY" "TASK_READY \<noteq> TASK_DEAD" "TASK_DEAD \<noteq> TASK_RUNNING" "TASK_RUNNING \<noteq> TASK_DEAD"
  by (simp_all add: task_states)

lemma good_waits_apart: "locks_ok a at made inside \<Longrightarrow> waits_apart a"
  unfolding locks_ok_def waits_apart_def by (metis disjoint_iff place.inject(1))

lemma good_kernel: "models k a \<Longrightarrow> a_current a = k_current k \<and> a_reaper a = k_reaper k"
  by (simp add: models_def)

section \<open>Every step keeps it\<close>

lemma goodD:
  assumes "good a c"
  shows "models (c_kernel c) a" "placed a (c_made c)" "running_ok a (c_sched c) (c_at c) (c_made c)"
    "reaper_ok a (c_at c)" "locks_ok a (c_at c) (c_made c) (c_inside c)"
    "a_current a = cur c" "a_reaper a = reaper c" "waits_apart a"
  using assms good_waits_apart by (auto simp: good_def good_kernel)

lemma placed_fits: "placed a made \<Longrightarrow> t \<in> made \<Longrightarrow> fits a t"
  by (simp add: placed_def)

lemma placedI:
  assumes "placed a made" "a_reaper a' = a_reaper a" "set (a_ready a') \<subseteq> made" "set (a_dead a') \<subseteq> made"
    "\<And>l. set (a_wait a' l) \<subseteq> made" "\<And>u. u \<in> made \<Longrightarrow> fits a' u"
  shows "placed a' made"
  using assms unfolding placed_def by simp

lemma placed_lists:
  assumes "placed a made"
  shows "0 \<notin> made" "a_reaper a \<in> made" "set (a_ready a) \<subseteq> made" "set (a_dead a) \<subseteq> made" "set (a_wait a l) \<subseteq> made"
  using assms unfolding placed_def by blast+

lemma placed_cong:
  assumes "placed a made" "a_reaper a' = a_reaper a" "a_ready a' = a_ready a" "a_dead a' = a_dead a" "a_wait a' = a_wait a"
    "\<And>u. u \<in> made \<Longrightarrow> fits a u \<Longrightarrow> fits a' u"
  shows "placed a' made"
  using assms unfolding placed_def by simp

lemma placed_same:
  assumes "placed a made" "a_reaper a' = a_reaper a" "a_ready a' = a_ready a" "a_dead a' = a_dead a" "a_wait a' = a_wait a"
    "a_state a' = a_state a"
  shows "placed a' made"
proof (rule placed_cong [OF assms(1-5)])
  show "fits a' u" if "fits a u" for u using that unfolding fits_def assms(2-6) .
qed

lemma running_okI:
  assumes "\<And>t. t \<in> made \<Longrightarrow> a_state a t = TASK_RUNNING \<Longrightarrow> \<not> sched \<and> t = a_current a"
    "\<not> sched \<Longrightarrow> a_current a \<in> made"
    "\<not> sched \<Longrightarrow> a_state a (a_current a) = TASK_RUNNING \<or>
        a_current a = a_reaper a \<and> at (a_reaper a) = Parked \<and> a_state a (a_reaper a) = TASK_BLOCKED"
  shows "running_ok a sched at made"
  using assms unfolding running_ok_def by blast

lemma running_only: "running_ok a sched at made \<Longrightarrow> t \<in> made \<Longrightarrow> a_state a t = TASK_RUNNING \<Longrightarrow> \<not> sched \<and> t = a_current a"
  by (simp add: running_ok_def)

lemma fits_blocked:
  assumes "fits a u" "a_state a (a_reaper a) = TASK_RUNNING"
  shows "fits (a\<lparr>a_state := (a_state a)(a_reaper a := TASK_BLOCKED)\<rparr>) u"
  using assms by (cases "u = a_reaper a") (auto simp: fits_def)

lemma locks_ok_mono:
  assumes "locks_ok a at made inside" "a_held a' = a_held a" "a_wait a' = a_wait a"
    "\<And>l. contended a at made l \<Longrightarrow> contended a' at' made' l"
    "\<And>l t. t \<in> set (a_wait a l) \<Longrightarrow> at t = Locking l \<Longrightarrow> at' t = at t"
  shows "locks_ok a' at' made' inside"
  using assms by (simp add: locks_ok_def) blast

lemma contended_more:
  "contended a at made l \<Longrightarrow> (\<And>t. t \<in> made \<Longrightarrow> at t = Locking l \<Longrightarrow> a_state a t \<in> {TASK_READY, TASK_RUNNING} \<Longrightarrow>
     t \<in> made' \<and> at' t = Locking l \<and> a_state a' t \<in> {TASK_READY, TASK_RUNNING}) \<Longrightarrow> contended a' at' made' l"
  unfolding contended_def by blast

lemma pick_good:
  assumes "good a c" "c_sched c" "schedule_next (c_kernel c) = (True, k)"
  shows "\<exists>a'. good a' (c\<lparr>c_kernel := k, c_sched := False\<rparr>) \<and> a_ready a = k_current k # a_ready a'"
proof -
  note g = goodD [OF assms(1)]
  have n: "fst (a_next a)" "models k (snd (a_next a))" using models_next [OF g(1)] assms(3) by simp_all
  then obtain t ts where r: "a_ready a = t # ts" by (cases "a_ready a") (auto simp: a_next_def)
  have d: "t \<notin> set ts" using models_distinct(1) [OF g(1)] r by simp
  define a' where "a' = a\<lparr>a_ready := ts, a_state := (a_state a)(t := TASK_RUNNING), a_current := t\<rparr>"
  have "models k a'" using n(2) r by (simp add: a_next_def a'_def)
  have t: "t \<in> c_made c" using g(2) r by (simp add: placed_def)
  then have f: "fits a t" "a_state a t = TASK_READY" using placed_fits [OF g(2)] r by (simp_all add: fits_def)
  have "fits a' u" if "u \<in> c_made c" for u
    using placed_fits [OF g(2) that] f r d by (cases "u = t") (auto simp: fits_def a'_def)
  then have "placed a' (c_made c)" using g(2) r by (simp add: placed_def a'_def)
  moreover have "running_ok a' False (c_at c) (c_made c)"
    using g(3) assms(2) t by (simp add: running_ok_def a'_def)
  moreover have "reaper_ok a' (c_at c)"
    using g(4) by (simp add: reaper_ok_def a'_def)
  moreover have "locks_ok a' (c_at c) (c_made c) (c_inside c)"
    by (rule locks_ok_mono [OF g(5)]) (auto simp: a'_def elim!: contended_more split: if_splits)
  moreover have "k_current k = t" using good_kernel [OF \<open>models k a'\<close>] by (simp add: a'_def)
  moreover have "a_ready a' = ts" by (simp add: a'_def)
  ultimately show ?thesis using \<open>models k a'\<close> r by (auto simp: good_def)
qed

text \<open>No step but a pick takes a task out of the ready queue, or puts one before another.\<close>

definition extends :: "asched \<Rightarrow> asched \<Rightarrow> bool" where
  "extends a a' \<longleftrightarrow> (\<exists>ys. a_ready a' = a_ready a @ ys)"

lemma extends_same: "a_ready a' = a_ready a \<Longrightarrow> extends a a'"
  by (simp add: extends_def)

lemma extends_make_ready [simp]: "a_ready b = a_ready a \<Longrightarrow> extends a (a_make_ready t b)"
  by (simp add: extends_def a_make_ready_def)

text \<open>Putting a task that is in no list into the ready queue.\<close>

lemma fits_make_ready:
  assumes "fits a u" "t \<notin> set (a_dead a)" "t \<noteq> a_reaper a \<Longrightarrow> \<forall>l. t \<notin> set (a_wait a l)"
  shows "fits (a_make_ready t a) u"
  using assms by (cases "u = t") (auto simp: fits_def a_make_ready_def)

lemma back_good:
  assumes m: "models k a" and p: "placed a made" and w: "waits_apart a"
    and c: "a_current a \<in> made" "a_state a (a_current a) = TASK_RUNNING \<or> a_state a (a_current a) = TASK_BLOCKED"
    and run: "\<forall>t \<in> made. a_state a t = TASK_RUNNING \<longrightarrow> t = a_current a"
    and r: "reaper_ok a at" and l: "locks_ok a at made inside"
  shows "\<exists>a'. models (schedule_back k) a' \<and> placed a' made \<and> running_ok a' True at' made \<and> reaper_ok a' at \<and>
    locks_ok a' at made inside \<and> extends a a'"
proof (cases "a_state a (a_current a) = TASK_RUNNING")
  case True
  let ?t = "a_current a"
  have f: "fits a ?t" by (rule placed_fits [OF p c(1)])
  have nz: "?t \<noteq> 0" "a_reaper a \<noteq> 0" using p c(1) by (auto simp: placed_def)
  have out: "?t \<notin> set (a_ready a)" "?t \<notin> set (a_dead a)" "?t \<noteq> a_reaper a \<Longrightarrow> \<forall>l. ?t \<notin> set (a_wait a l)"
    using f True by (auto simp: fits_def)
  have bk: "a_back a = a_make_ready ?t a" using True by (simp add: a_back_def)
  have rr: "a_state a (a_reaper a) = TASK_BLOCKED \<Longrightarrow> a_reaper a \<notin> set (a_ready a)"
    using p by (auto simp: placed_def fits_def)
  have "models (schedule_back k) (a_back a)"
    using models_back [OF m nz] True out rr by simp
  moreover have "placed (a_back a) made"
    using p c(1) fits_make_ready [OF _ out(2,3)] unfolding bk by (auto simp: placed_def a_make_ready_def [of ?t a])
  moreover have "running_ok (a_back a) True at' made"
    using run unfolding bk by (auto simp: running_ok_def a_make_ready_def)
  moreover have "reaper_ok (a_back a) at"
    using r unfolding bk by (auto simp: reaper_ok_def a_make_ready_def)
  moreover have "locks_ok (a_back a) at made inside"
    unfolding bk by (rule locks_ok_mono [OF l]) (auto simp: a_make_ready_def elim!: contended_more split: if_splits)
  moreover have "extends a (a_back a)" unfolding bk by simp
  ultimately show ?thesis by blast
next
  case False
  then have b: "a_state a (a_current a) = TASK_BLOCKED" using c(2) by simp
  then have bk: "a_back a = a" by (simp add: a_back_def)
  have nz: "a_current a \<noteq> 0" "a_reaper a \<noteq> 0" using p c(1) by (auto simp: placed_def)
  have "a_state a (a_reaper a) = TASK_BLOCKED \<Longrightarrow> a_reaper a \<notin> set (a_ready a)"
    using p by (auto simp: placed_def fits_def)
  then have "models (schedule_back k) a" using models_back [OF m nz] b bk by simp
  moreover have "running_ok a True at' made" using run b by (auto simp: running_ok_def)
  ultimately show ?thesis using p r l extends_same by blast
qed

lemma exit_good:
  assumes m: "models k a" and p: "placed a made" and w: "waits_apart a"
    and c: "a_current a \<in> made" "a_state a (a_current a) = TASK_RUNNING" "a_current a \<noteq> a_reaper a" "at (a_current a) = Free"
    and run: "\<forall>t \<in> made. a_state a t = TASK_RUNNING \<longrightarrow> t = a_current a"
    and r: "reaper_ok a at" and l: "locks_ok a at made inside"
  shows "\<exists>a'. models (schedule_back (thread_exit k)) a' \<and> placed a' made \<and> running_ok a' True at made \<and> reaper_ok a' at \<and>
    locks_ok a' at made inside \<and> extends a a'"
proof -
  let ?t = "a_current a"
  define a1 where "a1 = a_exit a"
  define a2 where "a2 = a1\<lparr>a_dead := a_dead a @ [?t]\<rparr>"
  have f: "fits a ?t" by (rule placed_fits [OF p c(1)])
  have nz: "?t \<noteq> 0" "a_reaper a \<noteq> 0" using p c(1) by (auto simp: placed_def)
  have out: "?t \<notin> set (a_ready a)" "?t \<notin> set (a_dead a)" "\<forall>l. ?t \<notin> set (a_wait a l)"
    using f c(2,3) by (auto simp: fits_def)
  have s1: "a_current a1 = ?t" "a_reaper a1 = a_reaper a" "a_state a1 = (a_state a)(?t := TASK_DEAD)"
    "a_ready a1 = a_ready a" "a_dead a1 = a_dead a" "a_wait a1 = a_wait a" "a_held a1 = a_held a"
    by (simp_all add: a1_def a_exit_def)
  have m1: "models (thread_exit k) a1" unfolding a1_def by (rule models_exit [OF m])
  have rr: "a_state a1 (a_reaper a1) = TASK_BLOCKED \<Longrightarrow> a_reaper a1 \<notin> set (a_ready a1)"
    using p c(3) by (auto simp: placed_def fits_def s1)
  have mb: "models (schedule_back (thread_exit k)) (a_back a1)"
    using models_back [OF m1] nz out rr by (simp add: s1)
  have "a_state a2 = a_state a1" "a_reaper a2 = a_reaper a" by (simp_all add: a2_def s1)
  then have bk: "a_back a1 = (if a_state a (a_reaper a) = TASK_BLOCKED then a_make_ready (a_reaper a) a2 else a2)"
    using c(3) by (simp add: a_back_def s1 a2_def)
  have "fits a2 u" if "u \<in> made" for u
    using placed_fits [OF p that] f out c by (cases "u = ?t") (auto simp: fits_def a2_def s1)
  then have p2: "placed a2 made" using p c(1) by (auto simp: placed_def a2_def s1)
  have l2: "locks_ok a2 at made inside"
    using c(4) by (intro locks_ok_mono [OF l]) (auto simp: a2_def s1 elim!: contended_more split: if_splits)
  show ?thesis
  proof (cases "a_state a (a_reaper a) = TASK_BLOCKED")
    case True
    have ro: "a_reaper a2 \<notin> set (a_dead a2)" using True p c(3) r by (auto simp: a2_def s1 reaper_ok_def placed_def fits_def)
    have "fits (a_make_ready (a_reaper a2) a2) u" if "u \<in> made" for u
      by (rule fits_make_ready [OF placed_fits [OF p2 that] ro]) simp
    then have "placed (a_make_ready (a_reaper a2) a2) made" using p2 by (auto simp: placed_def a_make_ready_def [of "a_reaper a2" a2])
    moreover have "running_ok (a_make_ready (a_reaper a2) a2) True at made"
      using run by (auto simp: running_ok_def a_make_ready_def a2_def s1)
    moreover have "reaper_ok (a_make_ready (a_reaper a2) a2) at"
      using r by (auto simp: reaper_ok_def a_make_ready_def a2_def s1)
    moreover have "locks_ok (a_make_ready (a_reaper a2) a2) at made inside"
      by (rule locks_ok_mono [OF l2]) (auto simp: a_make_ready_def elim!: contended_more split: if_splits)
    moreover have "extends a (a_make_ready (a_reaper a2) a2)" by (simp add: a2_def s1)
    ultimately show ?thesis using mb bk True \<open>a_reaper a2 = a_reaper a\<close> by auto
  next
    case False
    moreover have "running_ok a2 True at made" using run by (auto simp: running_ok_def a2_def s1)
    moreover have "reaper_ok a2 at" using r False c(3) by (auto simp: reaper_ok_def a2_def s1)
    moreover have "extends a a2" by (simp add: extends_def a2_def s1)
    ultimately show ?thesis using mb bk p2 l2 by auto
  qed
qed

text \<open>The running task is in no list.\<close>

lemma runner:
  assumes "good a c" "\<not> c_sched c" "c_at c (cur c) \<noteq> Parked"
  shows "cur c \<in> c_made c" "a_state a (cur c) = TASK_RUNNING" "cur c \<noteq> 0" "cur c \<notin> set (a_ready a)"
    "cur c \<notin> set (a_dead a)" "cur c \<noteq> reaper c \<Longrightarrow> \<forall>l. cur c \<notin> set (a_wait a l)"
proof -
  note g = goodD [OF assms(1)]
  show c: "cur c \<in> c_made c" "a_state a (cur c) = TASK_RUNNING"
    using g(3,6,7) assms(2,3) by (auto simp: running_ok_def)
  with placed_fits [OF g(2) c(1)] g(2,7) show "cur c \<noteq> 0" "cur c \<notin> set (a_ready a)" "cur c \<notin> set (a_dead a)"
    "cur c \<noteq> reaper c \<Longrightarrow> \<forall>l. cur c \<notin> set (a_wait a l)"
    by (auto simp: fits_def placed_def)
qed

lemma only_runner: "good a c \<Longrightarrow> \<forall>t \<in> c_made c. a_state a t = TASK_RUNNING \<longrightarrow> t = a_current a"
  by (simp add: good_def running_ok_def)

lemma locked_good:
  assumes g0: "good a c" and "\<not> c_sched c" "c_at c (cur c) \<in> {Free, Locking l}" "cur c \<noteq> reaper c"
    and lr: "mutex_lock_round l (c_kernel c) = (True, k)"
  shows "\<exists>a'. good a' (c\<lparr>c_kernel := k, c_at := (c_at c)(cur c := Free), c_inside := insert (cur c, l) (c_inside c)\<rparr>) \<and>
    extends a a'"
proof -
  note g = goodD [OF g0]
  have np: "c_at c (cur c) \<noteq> Parked" using assms(3) by auto
  note r = runner [OF g0 assms(2) np]
  have c: "a_current a \<noteq> 0" "\<forall>l. a_current a \<notin> set (a_wait a l)" using r(3) r(6) [OF assms(4)] g(6) by simp_all
  have al: "fst (a_lock l a)" "models k (snd (a_lock l a))"
    using models_lock [OF g(1) c g(8), of l] lr by simp_all
  then have h: "a_held a l = None" by (simp add: a_lock_def split: if_splits)
  define a' where "a' = a\<lparr>a_held := (a_held a)(l := Some (cur c))\<rparr>"
  have "models k a'" using al(2) h g(6) by (simp add: a_lock_def a'_def)
  moreover have "placed a' (c_made c)" by (rule placed_same [OF g(2)]) (simp_all add: a'_def)
  moreover have "running_ok a' False ((c_at c)(cur c := Free)) (c_made c)"
  proof (rule running_okI)
    show "\<not> False \<and> t = a_current a'" if "t \<in> c_made c" "a_state a' t = TASK_RUNNING" for t
      using running_only [OF g(3), of t] that by (simp add: a'_def)
  qed (use r(1,2) g(6) in \<open>simp_all add: a'_def\<close>)
  moreover have "reaper_ok a' ((c_at c)(cur c := Free))" using g(4,7) assms(4) by (simp add: reaper_ok_def a'_def)
  moreover have "locks_ok a' ((c_at c)(cur c := Free)) (c_made c) (insert (cur c, l) (c_inside c))"
  proof -
    have "\<forall>t l'. (t, l') \<in> insert (cur c, l) (c_inside c) \<longleftrightarrow> a_held a' l' = Some t"
      using g(5) h by (auto simp: locks_ok_def a'_def)
    moreover have "\<forall>l'. \<forall>t \<in> set (a_wait a' l'). ((c_at c)(cur c := Free)) t = Locking l'"
      using g(5) r(6) [OF assms(4)] by (auto simp: locks_ok_def a'_def)
    moreover have "a_held a' l' \<noteq> None \<or> contended a' ((c_at c)(cur c := Free)) (c_made c) l'" if "a_wait a' l' \<noteq> []" for l'
    proof (cases "l' = l")
      case False
      then have "a_held a l' \<noteq> None \<or> contended a (c_at c) (c_made c) l'" using g(5) that by (auto simp: locks_ok_def a'_def)
      moreover have "contended a (c_at c) (c_made c) l' \<Longrightarrow> contended a' ((c_at c)(cur c := Free)) (c_made c) l'"
        using False assms(3) by (elim contended_more) (auto simp: a'_def)
      ultimately show ?thesis using False by (auto simp: a'_def)
    qed (simp add: a'_def)
    ultimately show ?thesis unfolding locks_ok_def by blast
  qed
  moreover have "extends a a'" by (simp add: extends_def a'_def)
  ultimately show ?thesis using assms(2) by (intro exI [of _ a']) (simp add: good_def)
qed

lemma blocked_good:
  assumes g0: "good a c" and "\<not> c_sched c" "c_at c (cur c) \<in> {Free, Locking l}" "cur c \<noteq> reaper c"
    and lr: "mutex_lock_round l (c_kernel c) = (False, k)"
  shows "\<exists>a'. good a' (c\<lparr>c_kernel := schedule_back k, c_sched := True, c_at := (c_at c)(cur c := Locking l)\<rparr>) \<and> extends a a'"
proof -
  note g = goodD [OF g0]
  have np: "c_at c (cur c) \<noteq> Parked" using assms(3) by auto
  note r = runner [OF g0 assms(2) np]
  have w: "\<forall>l. cur c \<notin> set (a_wait a l)" by (rule r(6) [OF assms(4)])
  have c: "a_current a \<noteq> 0" "\<forall>l. a_current a \<notin> set (a_wait a l)" using r(3) w g(6) by simp_all
  have al: "\<not> fst (a_lock l a)" "models k (snd (a_lock l a))"
    using models_lock [OF g(1) c g(8), of l] lr by simp_all
  then have h: "a_held a l \<noteq> None" by (auto simp: a_lock_def split: if_splits)
  define a1 where "a1 = a\<lparr>a_state := (a_state a)(cur c := TASK_BLOCKED), a_wait := (a_wait a)(l := a_wait a l @ [cur c])\<rparr>"
  let ?at = "(c_at c)(cur c := Locking l)"
  have m: "models k a1" using al(2) h g(6) by (simp add: a_lock_def a1_def)
  have "fits a1 u" if "u \<in> c_made c" for u
    using placed_fits [OF g(2) that] r(4,5) w by (cases "u = cur c") (auto simp: fits_def a1_def split: if_splits)
  then have p: "placed a1 (c_made c)" using g(2) r(1) by (auto simp: placed_def a1_def)
  have ro: "reaper_ok a1 ?at" using g(4,7) assms(4) by (simp add: reaper_ok_def a1_def)
  have lo: "locks_ok a1 ?at (c_made c) (c_inside c)"
  proof -
    have "\<forall>t l'. (t, l') \<in> c_inside c \<longleftrightarrow> a_held a1 l' = Some t"
      using g(5) by (simp add: locks_ok_def a1_def)
    moreover have "\<forall>l'. \<forall>t \<in> set (a_wait a1 l'). ?at t = Locking l'"
      using g(5) w by (auto simp: locks_ok_def a1_def)
    moreover have "a_held a1 l' \<noteq> None \<or> contended a1 ?at (c_made c) l'" if "a_wait a1 l' \<noteq> []" for l'
    proof (cases "l' = l")
      case False
      then have "a_held a l' \<noteq> None \<or> contended a (c_at c) (c_made c) l'" using g(5) that by (auto simp: locks_ok_def a1_def)
      moreover have "contended a (c_at c) (c_made c) l' \<Longrightarrow> contended a1 ?at (c_made c) l'"
        using False assms(3) by (elim contended_more) (auto simp: a1_def)
      ultimately show ?thesis by (auto simp: a1_def)
    qed (use h in \<open>simp add: a1_def\<close>)
    ultimately show ?thesis unfolding locks_ok_def by blast
  qed
  have s1: "a_current a1 = cur c" "a_state a1 (cur c) = TASK_BLOCKED" using g(6) by (simp_all add: a1_def)
  have run1: "\<forall>t \<in> c_made c. a_state a1 t = TASK_RUNNING \<longrightarrow> t = a_current a1"
    using only_runner [OF g0] g(6) by (simp add: a1_def)
  obtain a' where "models (schedule_back k) a'" "placed a' (c_made c)" "running_ok a' True ?at (c_made c)" "reaper_ok a' ?at"
    "locks_ok a' ?at (c_made c) (c_inside c)" "extends a1 a'"
    using back_good [OF m p good_waits_apart [OF lo] _ _ run1 ro lo, of ?at] s1 r(1) by auto
  then show ?thesis by (auto simp: good_def extends_def a1_def)
qed

lemma unlock_good:
  assumes g0: "good a c" and "\<not> c_sched c" "c_at c (cur c) = Free" "(cur c, l) \<in> c_inside c"
  shows "\<exists>a'. good a' (c\<lparr>c_kernel := mutex_unlock l (c_kernel c), c_inside := c_inside c - {(cur c, l)}\<rparr>) \<and> extends a a'"
proof -
  note g = goodD [OF g0]
  have held: "a_held a l = Some (cur c)" using g(5) assms(4) by (simp add: locks_ok_def)
  have wt: "t \<in> c_made c \<and> t \<noteq> reaper c \<and> c_at c t = Locking l' \<and> a_state a t = TASK_BLOCKED \<and>
      t \<notin> set (a_ready a) \<and> t \<notin> set (a_dead a)" if "t \<in> set (a_wait a l')" for t l'
  proof -
    have t: "t \<in> c_made c" "t \<noteq> a_reaper a" "c_at c t = Locking l'"
      using that g(2,4,5) by (auto simp: placed_def reaper_ok_def locks_ok_def)
    with placed_fits [OF g(2) t(1)] that g(7) show ?thesis by (auto simp: fits_def)
  qed
  have m: "models (mutex_unlock l (c_kernel c)) (a_unlock l a)"
  proof (rule models_unlock [OF g(1,8)])
    show "t \<notin> set (a_ready a)" if "a_wait a l = t # ts" for t ts using wt [of t l] that by simp
  qed
  define a1 where "a1 = a\<lparr>a_held := (a_held a)(l := None)\<rparr>"
  have inside: "\<forall>t l'. (t, l') \<in> c_inside c - {(cur c, l)} \<longleftrightarrow> (a_held a1 l' = Some t)"
    using g(5) held by (auto simp: locks_ok_def a1_def)
  show ?thesis
  proof (cases "a_wait a l")
    case Nil
    then have "a_unlock l a = a1" by (simp add: a_unlock_def a1_def)
    moreover have "placed a1 (c_made c)" by (rule placed_same [OF g(2)]) (simp_all add: a1_def)
    moreover have "running_ok a1 (c_sched c) (c_at c) (c_made c)" "reaper_ok a1 (c_at c)"
      using g(3,4) by (simp_all add: running_ok_def reaper_ok_def a1_def)
    moreover have "contended a1 = contended a" by (simp add: contended_def a1_def fun_eq_iff)
    then have "locks_ok a1 (c_at c) (c_made c) (c_inside c - {(cur c, l)})"
      using g(5) inside Nil unfolding locks_ok_def by (auto simp: a1_def)
    moreover have "extends a a1" by (simp add: extends_def a1_def)
    ultimately show ?thesis using m by (intro exI [of _ a1]) (simp add: good_def)
  next
    case (Cons t ts)
    let ?a2 = "a1\<lparr>a_wait := (a_wait a)(l := ts)\<rparr>"
    define a' where "a' = a_make_ready t ?a2"
    have ul: "a_unlock l a = a'" using Cons by (simp add: a_unlock_def a1_def a'_def)
    have t: "t \<in> c_made c" "t \<noteq> reaper c" "c_at c t = Locking l" "a_state a t = TASK_BLOCKED" "t \<notin> set (a_ready a)" "t \<notin> set (a_dead a)"
      using wt [of t l] Cons by auto
    have d: "t \<notin> set ts" using models_distinct(3) [OF g(1), of l] Cons by simp
    have tw: "t \<notin> set (a_wait ?a2 l')" for l'
      using wt [of t l'] t(3) d by (cases "l' = l") auto
    have a': "a_state a' = (a_state a)(t := TASK_READY)" "a_ready a' = a_ready a @ [t]" "a_dead a' = a_dead a"
      "a_wait a' = (a_wait a)(l := ts)" "a_held a' = a_held a1" "a_current a' = a_current a" "a_reaper a' = a_reaper a"
      by (simp_all add: a'_def a_make_ready_def a1_def)
    have fa: "fits a' u" if "u \<in> c_made c" for u
    proof (cases "u = t")
      case True
      then show ?thesis using t tw by (simp add: fits_def a')
    next
      case False
      have "u \<in> set (a_wait a' l') \<longleftrightarrow> u \<in> set (a_wait a l')" for l'
        using Cons False by (cases "l' = l") (simp_all add: a')
      then have "(\<exists>l'. u \<in> set (a_wait a' l')) \<longleftrightarrow> (\<exists>l'. u \<in> set (a_wait a l'))" by simp
      with placed_fits [OF g(2) that] False show ?thesis by (auto simp: fits_def a')
    qed
    have wa: "set (a_wait a' l') \<subseteq> c_made c" for l'
      using placed_lists(5) [OF g(2), of l'] Cons by (cases "l' = l") (simp_all add: a')
    have "placed a' (c_made c)"
      by (rule placedI [OF g(2) _ _ _ wa fa]) (use placed_lists [OF g(2)] t(1) in \<open>simp_all add: a'\<close>)
    moreover have "running_ok a' (c_sched c) (c_at c) (c_made c)"
      using g(3,7) t(2) assms(2) t(4) by (auto simp: running_ok_def a')
    moreover have "reaper_ok a' (c_at c)"
    proof -
      have "a_reaper a \<notin> set ts" using g(4) Cons by (auto simp: reaper_ok_def dest: spec [of _ l])
      then show ?thesis using g(4,7) t(2) by (auto simp: reaper_ok_def a')
    qed
    moreover have "locks_ok a' (c_at c) (c_made c) (c_inside c - {(cur c, l)})"
    proof -
      have "contended a' (c_at c) (c_made c) l" using t(1,3) by (auto simp: contended_def a')
      moreover have "contended a (c_at c) (c_made c) l' \<Longrightarrow> contended a' (c_at c) (c_made c) l'" for l'
        by (elim contended_more) (auto simp: a')
      ultimately have "a_held a' l' \<noteq> None \<or> contended a' (c_at c) (c_made c) l'" if "a_wait a' l' \<noteq> []" for l'
        using g(5) that by (cases "l' = l") (auto simp: locks_ok_def a' a1_def)
      moreover have "\<forall>l'. \<forall>u \<in> set (a_wait a' l'). c_at c u = Locking l'"
        using g(5) Cons by (auto simp: locks_ok_def a')
      ultimately show ?thesis using inside unfolding locks_ok_def a'(5) by blast
    qed
    moreover have "extends a a'" by (simp add: extends_def a')
    ultimately show ?thesis using m unfolding ul by (intro exI [of _ a']) (simp add: good_def)
  qed
qed

lemma dead_head_eq:
  "models k a \<Longrightarrow> dead_head (k_dead_q k) = (case a_dead a of [] \<Rightarrow> 0 | t # _ \<Rightarrow> t)"
  by (cases "a_dead a") (auto simp: models_def holds_list_def dead_view_def linked_def)

lemma reap_good:
  assumes g0: "good a c" and "\<not> c_sched c" "c_at c (cur c) = Free" "cur c = reaper c"
    and rr: "reaper_round (c_kernel c) = Inr (idle, k)"
  shows "\<exists>a'. good a' (c\<lparr>c_kernel := k, c_at := (c_at c)(cur c := if idle then Parked else Free),
    c_made := c_made c - {dead_head (k_dead_q (c_kernel c))}\<rparr>) \<and> extends a a'"
proof -
  note g = goodD [OF g0]
  note r = runner [OF g0 assms(2)]
  have cur: "a_current a = a_reaper a" "a_reaper a = reaper c" using g(6,7) assms(4) by simp_all
  note m = models_reap [OF g(1) rr]
  show ?thesis
  proof (cases "a_dead a")
    case Nil
    define a' where "a' = a\<lparr>a_state := (a_state a)(reaper c := TASK_BLOCKED)\<rparr>"
    have "snd (a_reap a) = a'" "idle" using m(1) Nil cur by (simp_all add: a_reap_def a'_def)
    moreover have d: "dead_head (k_dead_q (c_kernel c)) = 0" "0 \<notin> c_made c"
      using dead_head_eq [OF g(1)] Nil g(2) by (simp_all add: placed_def)
    moreover have "placed a' (c_made c)"
    proof (rule placed_cong [OF g(2)])
      have "a_state a (a_reaper a) = TASK_RUNNING" using r(2) assms(3,4) cur by simp
      then show "fits a' u" if "fits a u" for u using fits_blocked [OF that] cur by (simp add: a'_def)
    qed (simp_all add: a'_def)
    moreover have "running_ok a' False ((c_at c)(cur c := Parked)) (c_made c)"
    proof (rule running_okI)
      show "\<not> False \<and> t = a_current a'" if "t \<in> c_made c" "a_state a' t = TASK_RUNNING" for t
        using running_only [OF g(3), of t] that by (simp add: a'_def split: if_splits)
    qed (use r(1) assms(3,4) g(6,7) in \<open>simp_all add: a'_def\<close>)
    moreover have "reaper_ok a' ((c_at c)(cur c := Parked))"
      using g(4) Nil cur assms(4) by (auto simp: reaper_ok_def a'_def)
    moreover have "locks_ok a' ((c_at c)(cur c := Parked)) (c_made c) (c_inside c)"
      using assms(3,4) by (intro locks_ok_mono [OF g(5)]) (auto simp: a'_def elim!: contended_more split: if_splits)
    moreover have "extends a a'" by (simp add: extends_def a'_def)
    ultimately show ?thesis using m(2) assms(2) by (intro exI [of _ a']) (simp add: good_def)
  next
    case (Cons x xs)
    define a' where "a' = a\<lparr>a_dead := xs\<rparr>"
    have "snd (a_reap a) = a'" "\<not> idle" using m(1) Cons by (simp_all add: a_reap_def a'_def)
    moreover have d: "dead_head (k_dead_q (c_kernel c)) = x" using dead_head_eq [OF g(1)] Cons by simp
    have x: "x \<in> c_made c" "a_state a x = TASK_DEAD" "x \<noteq> a_reaper a" "x \<notin> set (a_ready a)" "\<forall>l. x \<notin> set (a_wait a l)"
    proof -
      show m: "x \<in> c_made c" using g(2) Cons by (simp add: placed_def)
      show s: "a_state a x = TASK_DEAD" using placed_fits [OF g(2) m] Cons by (simp add: fits_def)
      show "x \<noteq> a_reaper a" using s g(4) by (auto simp: reaper_ok_def)
      with placed_fits [OF g(2) m] s show "x \<notin> set (a_ready a)" "\<forall>l. x \<notin> set (a_wait a l)" by (auto simp: fits_def)
    qed
    have xs: "x \<notin> set xs" using models_distinct(2) [OF g(1)] Cons by simp
    have "fits a' u" if "u \<in> c_made c - {x}" for u
      using placed_fits [OF g(2), of u] that Cons by (auto simp: fits_def a'_def)
    then have "placed a' (c_made c - {x})" using g(2) x xs Cons by (auto simp: placed_def a'_def)
    moreover have "running_ok a' False (c_at c) (c_made c - {x})"
      using g(3) assms(2) x(3) cur by (auto simp: running_ok_def a'_def)
    moreover have "reaper_ok a' (c_at c)" using g(4) Cons by (auto simp: reaper_ok_def a'_def)
    moreover have "locks_ok a' (c_at c) (c_made c - {x}) (c_inside c)"
      using x(2) by (intro locks_ok_mono [OF g(5)]) (auto simp: a'_def elim!: contended_more split: if_splits)
    moreover have "(c_at c)(cur c := Free) = c_at c" using assms(3) by (simp add: fun_eq_iff)
    moreover have "extends a a'" by (simp add: extends_def a'_def)
    ultimately show ?thesis using m(2) d assms(2) by (intro exI [of _ a']) (simp add: good_def)
  qed
qed

lemma spawn_good:
  assumes g0: "good a c" and "\<not> c_sched c" "c_at c (cur c) = Free" "cur c \<noteq> reaper c"
    and nt: "new_task n code task_id (c_kernel c) = Inr (p, k)" "p \<noteq> 0" "p \<notin> c_made c"
  shows "\<exists>a'. good a' (c\<lparr>c_kernel := publish_task 0 p k, c_at := (c_at c)(p := Free, cur c := Linking p),
      c_made := insert p (c_made c)\<rparr>) \<and> extends a a'"
proof -
  note g = goodD [OF g0]
  note pl = placed_lists [OF g(2)]
  note r = runner [OF g0 assms(2)]
  have out: "p \<notin> set (a_ready a)" "p \<notin> set (a_dead a)" "\<forall>l. p \<notin> set (a_wait a l)" "p \<noteq> reaper c" "p \<noteq> cur c"
    using pl nt(3) r(1) assms(3) g(7) by auto
  let ?a0 = "a\<lparr>a_state := (a_state a)(p := 0)\<rparr>" and ?at = "(c_at c)(p := Free, cur c := Linking p)"
  define a' where "a' = a_make_ready p ?a0"
  have "models k ?a0" by (rule models_new_task [OF g(1) nt(1) out(1-3)])
  then have m: "models (publish_task 0 p k) a'"
    using models_make_ready [of k ?a0 p] nt(2) out(1) by (simp add: publish_task_def a'_def)
  have a': "a_state a' = (a_state a)(p := TASK_READY)" "a_ready a' = a_ready a @ [p]" "a_dead a' = a_dead a"
    "a_wait a' = a_wait a" "a_held a' = a_held a" "a_current a' = a_current a" "a_reaper a' = a_reaper a"
    by (simp_all add: a'_def a_make_ready_def)
  have "fits a' u" if "u \<in> insert p (c_made c)" for u
  proof (cases "u = p")
    case True
    then show ?thesis using out by (auto simp: fits_def a')
  next
    case False
    then show ?thesis using placed_fits [OF g(2), of u] that by (auto simp: fits_def a')
  qed
  then have "placed a' (insert p (c_made c))"
    using pl(1-4) pl(5) [THEN subsetD] nt(2) unfolding placed_def by (auto simp: a')
  moreover have "running_ok a' False ?at (insert p (c_made c))"
  proof (rule running_okI)
    show "\<not> False \<and> t = a_current a'" if "t \<in> insert p (c_made c)" "a_state a' t = TASK_RUNNING" for t
      using running_only [OF g(3), of t] that by (auto simp: a' split: if_splits)
  qed (use r(1,2) g(6) assms(3) out in \<open>simp_all add: a'\<close>)
  moreover have "reaper_ok a' ?at" using g(4,7) out assms(4) by (auto simp: reaper_ok_def a')
  moreover have "locks_ok a' ?at (insert p (c_made c)) (c_inside c)"
  proof (rule locks_ok_mono [OF g(5)])
    show "contended a' ?at (insert p (c_made c)) l" if "contended a (c_at c) (c_made c) l" for l
      using that nt(3) assms(3) by (elim contended_more) (auto simp: a')
    show "?at t = c_at c t" if "t \<in> set (a_wait a l)" "c_at c t = Locking l" for l t
      using that out(3) assms(3) by auto
  qed (simp_all add: a')
  moreover have "extends a a'" by (simp add: extends_def a')
  ultimately show ?thesis using m assms(2) by (intro exI [of _ a']) (simp add: good_def)
qed

lemma link_good:
  assumes g0: "good a c" and "\<not> c_sched c" "c_at c (cur c) = Linking p"
    and lk: "link_task p (c_kernel c) = Inr k"
  shows "\<exists>a'. good a' (c\<lparr>c_kernel := k, c_at := (c_at c)(cur c := Free)\<rparr>) \<and> extends a a'"
proof -
  note g = goodD [OF g0]
  have "models k a" using models_link [OF lk] g(1) by simp
  moreover have "running_ok a False ((c_at c)(cur c := Free)) (c_made c)"
    using g(3,6) assms(2,3) by (auto simp: running_ok_def)
  moreover have "reaper_ok a ((c_at c)(cur c := Free))" using g(4) by (auto simp: reaper_ok_def)
  moreover have "locks_ok a ((c_at c)(cur c := Free)) (c_made c) (c_inside c)"
  proof (rule locks_ok_mono [OF g(5)])
    show "contended a ((c_at c)(cur c := Free)) (c_made c) l" if "contended a (c_at c) (c_made c) l" for l
      using that assms(3) by (elim contended_more) auto
  qed (use assms(3) in auto)
  ultimately show ?thesis using g(2) assms(2) by (intro exI [of _ a]) (simp add: good_def extends_def)
qed

lemma preempt_good:
  assumes g0: "good a c" and "\<not> c_sched c" and at: "at = c_at c \<or> c_at c (cur c) = Parked \<and> at = (c_at c)(cur c := Free)"
  shows "\<exists>a'. good a' (c\<lparr>c_kernel := schedule_back (c_kernel c), c_sched := True, c_at := at\<rparr>) \<and> extends a a'"
proof -
  note g = goodD [OF g0]
  have "at (a_reaper a) \<in> {Free, Parked}" using g(4) at by (auto simp: reaper_ok_def split: if_splits)
  then have ro: "reaper_ok a at" using g(4) by (simp add: reaper_ok_def)
  have lo: "locks_ok a at (c_made c) (c_inside c)"
  proof (rule locks_ok_mono [OF g(5)])
    show "contended a at (c_made c) l" if "contended a (c_at c) (c_made c) l" for l
      using that at by (elim contended_more) auto
  qed (use at in auto)
  have "a_current a \<in> c_made c" "a_state a (a_current a) = TASK_RUNNING \<or> a_state a (a_current a) = TASK_BLOCKED"
    using g(3) assms(2) by (auto simp: running_ok_def)
  from back_good [OF g(1,2,8) this only_runner [OF g0] ro lo, of at] show ?thesis by (auto simp: good_def)
qed

theorem step_good:
  assumes "step c e d" "good a c"
  shows "\<exists>a'. good a' d \<and> (if e = Pick then a_ready a = cur d # a_ready a' else extends a a')"
  using assms
proof (cases rule: step.cases)
  case (preempt)
  then show ?thesis using preempt_good [OF assms(2) preempt(3), of "c_at c"] by simp
next
  case (unpark)
  then show ?thesis using preempt_good [OF assms(2) unpark(3), of "(c_at c)(cur c := Free)"] by simp
next
  case (exit)
  note g = goodD [OF assms(2)]
  note r = runner [OF assms(2) exit(3)]
  obtain a' where "models (schedule_back (thread_exit (c_kernel c))) a'" "placed a' (c_made c)"
    "running_ok a' True (c_at c) (c_made c)" "reaper_ok a' (c_at c)" "locks_ok a' (c_at c) (c_made c) (c_inside c)"
    "extends a a'"
    using exit_good [OF g(1,2,8) _ _ _ _ only_runner [OF assms(2)] g(4,5)] r(1,2) exit(4,5) g(6,7) by auto
  then show ?thesis unfolding exit(1,2) by (auto simp: good_def)
next
  case (reap idle k)
  then show ?thesis using reap_good [OF assms(2) reap(3-6)] unfolding reap(1,2) by simp
qed (auto dest: pick_good locked_good blocked_good unlock_good spawn_good link_good)

text \<open>
  The kernel has set up its structures: tasks in the ready queue, a reaper that is blocked, all
  mutexes free, and nothing has run yet.
\<close>

definition start :: "conf \<Rightarrow> u32 list \<Rightarrow> bool" where
  "start c ts \<longleftrightarrow> c_sched c \<and> c_at c = (\<lambda>_. Free) \<and> c_inside c = {} \<and> c_made c = insert (reaper c) (set ts) \<and>
     0 \<notin> c_made c \<and> reaper c \<notin> set ts \<and>
     holds_list ready_view (k_queue (c_kernel c), k_tasks (c_kernel c)) ts \<and>
     holds_list dead_view (k_dead_q (c_kernel c), k_tasks (c_kernel c)) [] \<and>
     (\<forall>l. holds_list waiting_view (k_locks (c_kernel c) l, k_tasks (c_kernel c)) [] \<and> m_locked (k_locks (c_kernel c) l) = 0) \<and>
     (\<forall>t \<in> set ts. state_of (c_kernel c) t = TASK_READY) \<and> state_of (c_kernel c) (reaper c) = TASK_BLOCKED"

lemma start_good:
  assumes "start c ts"
  shows "\<exists>a. good a c"
proof -
  let ?k = "c_kernel c"
  define a where "a = \<lparr>a_ready = ts, a_dead = [], a_wait = (\<lambda>_. []), a_state = state_of ?k, a_current = k_current ?k,
    a_reaper = k_reaper ?k, a_held = (\<lambda>_. None)\<rparr>"
  have "models ?k a" using assms by (simp add: start_def models_def a_def)
  moreover have "placed a (c_made c)" using assms by (auto simp: start_def placed_def fits_def a_def)
  moreover have "running_ok a (c_sched c) (c_at c) (c_made c)" using assms by (auto simp: start_def running_ok_def a_def)
  moreover have "reaper_ok a (c_at c)" using assms by (simp add: start_def reaper_ok_def a_def)
  moreover have "locks_ok a (c_at c) (c_made c) (c_inside c)" using assms by (simp add: start_def locks_ok_def a_def)
  ultimately show ?thesis by (auto simp: good_def)
qed

lemma steps_good:
  assumes "steps c es d" "good a c"
  shows "\<exists>a'. good a' d"
  using assms
proof (induction rule: steps.induct)
  case (more c es d e d')
  then show ?case using step_good by blast
qed blast

lemma reachable_good: "start c ts \<Longrightarrow> steps c es d \<Longrightarrow> \<exists>a. good a d"
  using start_good steps_good by blast

end
