(* ===== verification/Scheduler.thy ===== *)
theory Scheduler
  imports Sched_Steps
begin

text \<open>
  What the invariant gives of the scheduler and the mutexes, stated on the kernel's own structures:
  the lists and the states agree, one task runs, a mutex has one holder, a waiter is woken, a dead
  task keeps the reaper awake, and the ready queue is served in its order.
\<close>

section \<open>Executing events\<close>

text \<open>One step as a function, for executions in which no task is created.\<close>

fun exec_step :: "conf \<Rightarrow> event \<Rightarrow> conf option" where
  "exec_step c Pick =
     (if c_sched c \<and> fst (schedule_next (c_kernel c))
      then Some (c\<lparr>c_kernel := snd (schedule_next (c_kernel c)), c_sched := False\<rparr>) else None)"
| "exec_step c Preempt =
     (if c_sched c then None
      else case c_at c (cur c) of
        Locking l \<Rightarrow> None
      | Parked \<Rightarrow> Some (c\<lparr>c_kernel := schedule_back (c_kernel c), c_sched := True, c_at := (c_at c)(cur c := Free)\<rparr>)
      | _ \<Rightarrow> Some (c\<lparr>c_kernel := schedule_back (c_kernel c), c_sched := True\<rparr>))"
| "exec_step c Exit =
     (if \<not> c_sched c \<and> c_at c (cur c) = Free \<and> cur c \<noteq> reaper c \<and> cur c \<notin> fst ` c_inside c
      then Some (c\<lparr>c_kernel := schedule_back (thread_exit (c_kernel c)), c_sched := True\<rparr>) else None)"
| "exec_step c (Lock l) =
     (if \<not> c_sched c \<and> c_at c (cur c) \<in> {Free, Locking l} \<and> cur c \<noteq> reaper c
      then case mutex_lock_round l (c_kernel c) of (got, k) \<Rightarrow>
        Some (if got then c\<lparr>c_kernel := k, c_at := (c_at c)(cur c := Free), c_inside := insert (cur c, l) (c_inside c)\<rparr>
              else c\<lparr>c_kernel := schedule_back k, c_sched := True, c_at := (c_at c)(cur c := Locking l)\<rparr>)
      else None)"
| "exec_step c (Unlock l) =
     (if \<not> c_sched c \<and> c_at c (cur c) = Free \<and> (cur c, l) \<in> c_inside c
      then Some (c\<lparr>c_kernel := mutex_unlock l (c_kernel c), c_inside := c_inside c - {(cur c, l)}\<rparr>) else None)"
| "exec_step c _ = None"

definition exec :: "conf \<Rightarrow> event list \<Rightarrow> conf option" where
  "exec c es = fold (\<lambda>e r. Option.bind r (\<lambda>c. exec_step c e)) es (Some c)"

lemma exec_step_step: "exec_step c e = Some d \<Longrightarrow> step c e d"
proof (induction c e rule: exec_step.induct)
  case (4 c l)
  then show ?case by (auto split: if_splits prod.splits intro: step.locked step.blocked)
qed (auto split: if_splits place.splits intro!: step.pick step.preempt step.unpark step.exit step.unlock simp: prod_eq_iff image_iff)

lemma exec_steps:
  assumes "exec c es = Some d"
  shows "steps c es d"
  using assms
proof (induction es arbitrary: d rule: rev_induct)
  case (snoc e es)
  then obtain b where "exec c es = Some b" "exec_step b e = Some d" by (auto simp: exec_def bind_eq_Some_conv)
  with snoc.IH exec_step_step show ?case by (blast intro: steps.more)
qed (auto simp: exec_def intro: steps.none)

section \<open>Reading the invariant\<close>

text \<open>A structure holds one list only.\<close>

lemma holds_list_unique: "holds_list v s xs \<Longrightarrow> holds_list v s ys \<Longrightarrow> xs = ys"
  unfolding holds_list_def linked_def by (auto dest: chain_unique split: prod.splits)

lemma good_lists:
  assumes "good a d"
  shows "holds_list ready_view (k_queue (c_kernel d), k_tasks (c_kernel d)) (a_ready a)"
    "holds_list dead_view (k_dead_q (c_kernel d), k_tasks (c_kernel d)) (a_dead a)"
    "holds_list waiting_view (k_locks (c_kernel d) l, k_tasks (c_kernel d)) (a_wait a l)"
    "a_state a = state_of (c_kernel d)"
    "a_held a l = (if m_locked (k_locks (c_kernel d) l) = 0 then None else Some (m_holder (k_locks (c_kernel d) l)))"
  using goodD(1) [OF assms] by (simp_all add: models_def)

lemma good_fits: "good a d \<Longrightarrow> t \<in> c_made d \<Longrightarrow> fits a t"
  using goodD(2) placed_fits by blast

lemma good_ready_iff: "good a d \<Longrightarrow> t \<in> c_made d \<Longrightarrow> state_of (c_kernel d) t = TASK_READY \<longleftrightarrow> t \<in> set (a_ready a)"
  using good_fits [of a d t] good_lists(4) [of a d] by (simp add: fits_def)

lemma good_dead_iff: "good a d \<Longrightarrow> t \<in> c_made d \<Longrightarrow> state_of (c_kernel d) t = TASK_DEAD \<longleftrightarrow> t \<in> set (a_dead a)"
  using good_fits [of a d t] good_lists(4) [of a d] by (simp add: fits_def)

lemma good_running: "good a d \<Longrightarrow> t \<in> c_made d \<Longrightarrow> state_of (c_kernel d) t = TASK_RUNNING \<Longrightarrow> \<not> c_sched d \<and> t = cur d"
  using running_only [OF goodD(3)] goodD(6) good_lists(4) by metis

lemma good_states:
  "good a d \<Longrightarrow> t \<in> c_made d \<Longrightarrow> state_of (c_kernel d) t \<in> {TASK_BLOCKED, TASK_READY, TASK_RUNNING, TASK_DEAD}"
  using good_fits [of a d t] good_lists(4) [of a d] by (auto simp: fits_def)

section \<open>A small kernel\<close>

text \<open>Two ready tasks and a blocked reaper.\<close>

definition two_tasks :: conf where
  "two_tasks = \<lparr>c_kernel = \<lparr>
       k_tasks = (\<lambda>_. blank_task)(0x1000 := blank_task\<lparr>t_state := TASK_READY, t_ready_next := 0x2000\<rparr>,
         0x2000 := blank_task\<lparr>t_state := TASK_READY\<rparr>),
       k_queue = \<lparr>queue_head = 0x1000, queue_tail = 0x2000\<rparr>, k_dead_q = \<lparr>dead_head = 0, dead_tail = 0\<rparr>,
       k_current = 0, k_reaper = 0x3000, k_last = 0, k_num = 3,
       k_locks = (\<lambda>_. \<lparr>m_locked = 0, m_holder = 0, m_queue_head = 0, m_queue_tail = 0\<rparr>),
       k_heap = \<lparr>h_head = 0, h_mem = (\<lambda>_. \<lparr>b_size = 0, b_free = 0, b_magic = 0, b_next = 0, b_prev = 0\<rparr>), h_bitmap = [],
         h_console = [], h_if = False\<rparr>,
       k_vmm = \<lparr>v_pd = 0, v_mem = (\<lambda>_. 0), v_bitmap = [], v_cr0 = 0, v_cr3 = 0\<rparr>\<rparr>,
     c_sched = True, c_at = (\<lambda>_. Free), c_made = {0x1000, 0x2000, 0x3000}, c_inside = {}\<rparr>"

lemma two_tasks_start: "start two_tasks [0x1000, 0x2000]"
  by (auto simp: start_def two_tasks_def holds_list_def ready_view_def dead_view_def waiting_view_def linked_def
      state_of_def blank_task_def task_states)

lemma run_two_tasks: "exec two_tasks es = Some d \<Longrightarrow> steps two_tasks es d"
  by (rule exec_steps)

section \<open>Tasks and their lists\<close>

text \<open>
  Property C22. In every state that the kernel reaches, the ready queue and the dead queue are well-formed
  lists of distinct existing tasks; a task is READY exactly when it is in the ready queue and DEAD exactly
  when it is in the dead queue; every task has one of the four states; and a RUNNING task is
  \<open>current_task\<close>, of which there is none while \<open>schedule\<close> looks for the next one.
\<close>

theorem scheduler_lists_agree:
  assumes "start c ts" "steps c es d"
  shows "\<exists>ready dead. holds_list ready_view (k_queue (c_kernel d), k_tasks (c_kernel d)) ready \<and>
    holds_list dead_view (k_dead_q (c_kernel d), k_tasks (c_kernel d)) dead \<and>
    distinct ready \<and> distinct dead \<and> set ready \<union> set dead \<subseteq> c_made d \<and>
    (\<forall>t \<in> c_made d.
       (state_of (c_kernel d) t = TASK_READY \<longleftrightarrow> t \<in> set ready) \<and>
       (state_of (c_kernel d) t = TASK_DEAD \<longleftrightarrow> t \<in> set dead) \<and>
       state_of (c_kernel d) t \<in> {TASK_BLOCKED, TASK_READY, TASK_RUNNING, TASK_DEAD} \<and>
       (state_of (c_kernel d) t = TASK_RUNNING \<longrightarrow> \<not> c_sched d \<and> t = cur d))"
proof -
  obtain a where g: "good a d" using reachable_good [OF assms] by blast
  note m = goodD(1) [OF g] and p = placed_lists [OF goodD(2) [OF g]]
  have "state_of (c_kernel d) t \<in> {TASK_BLOCKED, TASK_READY, TASK_RUNNING, TASK_DEAD}" if "t \<in> c_made d" for t
    by (rule good_states [OF g that])
  then show ?thesis
    using good_lists(1,2) [OF g] models_distinct(1,2) [OF m] p(3,4) good_ready_iff [OF g] good_dead_iff [OF g] good_running [OF g]
    by (intro exI [of _ "a_ready a"] exI [of _ "a_dead a"]) blast
qed

theorem scheduler_lists_agree_witness:
  "\<exists>d ready. steps two_tasks [Pick, Preempt, Pick, Exit] d \<and>
    holds_list ready_view (k_queue (c_kernel d), k_tasks (c_kernel d)) ready \<and> distinct ready"
proof -
  have "exec two_tasks [Pick, Preempt, Pick, Exit] \<noteq> None" by code_simp
  then obtain d where "steps two_tasks [Pick, Preempt, Pick, Exit] d" using run_two_tasks by blast
  with scheduler_lists_agree [OF two_tasks_start this] show ?thesis by blast
qed

text \<open>
  Property C23. A task that has ended is not forgotten: while a dead task waits to be reaped, the reaper is
  ready to run or running, never blocked; so when \<open>schedule\<close> finds the ready queue empty, no task is
  dead and all tasks that exist are blocked.
\<close>

theorem dead_tasks_keep_reaper_awake:
  assumes "start c ts" "steps c es d"
  shows "((\<exists>t \<in> c_made d. state_of (c_kernel d) t = TASK_DEAD) \<longrightarrow>
      state_of (c_kernel d) (reaper d) \<in> {TASK_READY, TASK_RUNNING}) \<and>
    (c_sched d \<longrightarrow> (\<not> fst (schedule_next (c_kernel d)) \<longleftrightarrow> (\<forall>t \<in> c_made d. state_of (c_kernel d) t = TASK_BLOCKED)))"
proof -
  obtain a where g: "good a d" using reachable_good [OF assms] by blast
  note gd = goodD [OF g] and s = good_lists(4) [OF g]
  have r: "reaper d \<in> c_made d" using placed_lists(2) [OF gd(2)] gd(7) by simp
  have awake: "state_of (c_kernel d) (reaper d) \<in> {TASK_READY, TASK_RUNNING}" if "a_dead a \<noteq> []"
    using gd(4,7) good_states [OF g r] that s by (auto simp: reaper_ok_def)
  have "\<not> fst (schedule_next (c_kernel d)) \<longleftrightarrow> a_ready a = []"
    using models_next(1) [OF gd(1)] by (auto simp: a_next_def split: list.splits)
  moreover have "a_ready a = [] \<longleftrightarrow> (\<forall>t \<in> c_made d. state_of (c_kernel d) t = TASK_BLOCKED)" if "c_sched d"
  proof
    assume e: "a_ready a = []"
    have "a_dead a = []" using awake good_ready_iff [OF g r] good_running [OF g r] e that by force
    then show "\<forall>t \<in> c_made d. state_of (c_kernel d) t = TASK_BLOCKED"
      using good_states [OF g] good_ready_iff [OF g] good_dead_iff [OF g] good_running [OF g] e that by force
  next
    assume "\<forall>t \<in> c_made d. state_of (c_kernel d) t = TASK_BLOCKED"
    then have "\<forall>t \<in> c_made d. t \<notin> set (a_ready a)" using good_ready_iff [OF g] by fastforce
    then show "a_ready a = []" using placed_lists(3) [OF gd(2)] by (cases "a_ready a") auto
  qed
  ultimately show ?thesis using awake good_dead_iff [OF g] by (metis empty_iff list.set(1))
qed

theorem dead_tasks_keep_reaper_awake_witness:
  "\<exists>d. steps two_tasks [Pick, Exit] d \<and> state_of (c_kernel d) 0x1000 = TASK_DEAD \<and>
    state_of (c_kernel d) 0x3000 \<in> {TASK_READY, TASK_RUNNING}"
proof -
  have "case exec two_tasks [Pick, Exit] of Some d \<Rightarrow> state_of (c_kernel d) 0x1000 = TASK_DEAD \<and> reaper d = 0x3000 \<and>
    0x1000 \<in> c_made d | None \<Rightarrow> False" by code_simp
  then obtain d where "steps two_tasks [Pick, Exit] d" "state_of (c_kernel d) 0x1000 = TASK_DEAD" "reaper d = 0x3000" "0x1000 \<in> c_made d"
    by (auto split: option.splits intro: run_two_tasks)
  with dead_tasks_keep_reaper_awake [OF two_tasks_start this(1)] show ?thesis by metis
qed

section \<open>Mutexes\<close>

text \<open>
  Property C24. Mutual exclusion: two tasks are never both past \<open>mutex_lock\<close> of the same mutex, whatever
  the timer does; the mutex of the one inside is locked and names it as the holder.
\<close>

theorem mutex_excludes:
  assumes "start c ts" "steps c es d" "(t, l) \<in> c_inside d"
  shows "m_locked (k_locks (c_kernel d) l) \<noteq> 0 \<and> m_holder (k_locks (c_kernel d) l) = t \<and>
    (\<forall>u. (u, l) \<in> c_inside d \<longrightarrow> u = t)"
proof -
  obtain a where g: "good a d" using reachable_good [OF assms(1,2)] by blast
  then have "(u, l) \<in> c_inside d \<longleftrightarrow> a_held a l = Some u" for u
    using goodD(5) by (simp add: locks_ok_def)
  with good_lists(5) [OF g, of l] assms(3) show ?thesis by (auto split: if_splits)
qed

theorem mutex_excludes_witness:
  "\<exists>d. steps two_tasks [Pick, Lock 7, Preempt, Pick] d \<and> (0x1000, 7) \<in> c_inside d \<and> (0x2000, 7) \<notin> c_inside d"
proof -
  let ?es = "[Pick, Lock 7, Preempt, Pick]"
  have "case exec two_tasks ?es of Some d \<Rightarrow> (0x1000, 7) \<in> c_inside d | None \<Rightarrow> False" by code_simp
  then obtain d where "steps two_tasks ?es d" "(0x1000, 7) \<in> c_inside d" by (auto split: option.splits intro: run_two_tasks)
  moreover from mutex_excludes [OF two_tasks_start this] have "(0x2000, 7) \<in> c_inside d \<Longrightarrow> (0x2000::u32) = 0x1000" by blast
  then have "(0x2000, 7) \<notin> c_inside d" by auto
  ultimately show ?thesis by blast
qed

text \<open>
  Property C25. No wake-up is lost: the tasks in the waiting list of a mutex are blocked in its
  \<open>mutex_lock\<close>, and while there are any, the mutex is held by a task that will unlock it, or a
  task in its \<open>mutex_lock\<close> is ready or running and will try again.
\<close>

theorem mutex_wakes_waiters:
  assumes "start c ts" "steps c es d" "holds_list waiting_view (k_locks (c_kernel d) l, k_tasks (c_kernel d)) ws"
  shows "(\<forall>t \<in> set ws. c_at d t = Locking l \<and> state_of (c_kernel d) t = TASK_BLOCKED) \<and>
    (ws \<noteq> [] \<longrightarrow> (\<exists>u. (u, l) \<in> c_inside d) \<or>
       (\<exists>u \<in> c_made d. c_at d u = Locking l \<and> state_of (c_kernel d) u \<in> {TASK_READY, TASK_RUNNING}))"
proof -
  obtain a where g: "good a d" using reachable_good [OF assms(1,2)] by blast
  note gd = goodD [OF g] and s = good_lists(4) [OF g]
  have ws: "ws = a_wait a l" by (rule holds_list_unique [OF assms(3) good_lists(3) [OF g]])
  have "c_at d t = Locking l \<and> state_of (c_kernel d) t = TASK_BLOCKED" if "t \<in> set ws" for t
  proof -
    have t: "t \<in> c_made d" "t \<noteq> a_reaper a" "c_at d t = Locking l"
      using that placed_lists(5) [OF gd(2), of l] gd(4,5) ws by (auto simp: reaper_ok_def locks_ok_def)
    with good_fits [OF g t(1)] that ws s show ?thesis by (auto simp: fits_def)
  qed
  moreover have "(\<exists>u. (u, l) \<in> c_inside d) \<or> contended a (c_at d) (c_made d) l" if "ws \<noteq> []"
    using gd(5) that ws unfolding locks_ok_def by auto
  ultimately show ?thesis using s by (auto simp: contended_def)
qed

theorem mutex_wakes_waiters_witness:
  "\<exists>d. steps two_tasks [Pick, Lock 7, Preempt, Pick, Lock 7] d \<and>
    c_at d 0x2000 = Locking 7 \<and> state_of (c_kernel d) 0x2000 = TASK_BLOCKED"
proof -
  let ?es = "[Pick, Lock 7, Preempt, Pick, Lock 7]"
  have "case exec two_tasks ?es of Some d \<Rightarrow> m_queue_head (k_locks (c_kernel d) 7) = 0x2000 \<and>
    m_queue_tail (k_locks (c_kernel d) 7) = 0x2000 \<and> t_mutex_wait_next (k_tasks (c_kernel d) 0x2000) = 0 | None \<Rightarrow> False"
    by code_simp
  then obtain d where "steps two_tasks ?es d" "holds_list waiting_view (k_locks (c_kernel d) 7, k_tasks (c_kernel d)) [0x2000]"
    by (auto split: option.splits simp: holds_list_def waiting_view_def linked_def intro: run_two_tasks)
  with mutex_wakes_waiters [OF two_tasks_start this] show ?thesis by auto
qed

section \<open>Every ready task runs\<close>

text \<open>After \<open>n\<close> picks the ready queue has lost its first \<open>n\<close> elements and gained others behind.\<close>

lemma queue_after:
  assumes "steps d fs d'" "good a d" "length (filter (\<lambda>e. e = Pick) fs) \<le> length (a_ready a)"
  shows "\<exists>a' ys. good a' d' \<and> a_ready a' = drop (length (filter (\<lambda>e. e = Pick) fs)) (a_ready a) @ ys"
  using assms
proof (induction rule: steps.induct)
  case (more d es m e d')
  from more.prems more.IH obtain b ys where b: "good b m"
    "a_ready b = drop (length (filter (\<lambda>e. e = Pick) es)) (a_ready a) @ ys" by (auto split: if_splits)
  from step_good [OF more.hyps(2) b(1)] obtain b' where b': "good b' d'"
    "if e = Pick then a_ready b = cur d' # a_ready b' else extends b b'" by blast
  show ?case
  proof (cases "e = Pick")
    case True
    let ?n = "length (filter (\<lambda>e. e = Pick) es)"
    have "?n < length (a_ready a)" using more.prems(2) True by simp
    then have "a_ready b' = drop (Suc ?n) (a_ready a) @ ys"
      using b(2) b'(2) True by (simp add: Cons_nth_drop_Suc [symmetric])
    with b'(1) True show ?thesis by auto
  next
    case False
    with b b' show ?thesis by (auto simp: extends_def)
  qed
next
  case (none c)
  then show ?case by (intro exI [of _ a] exI [of _ "[]"]) simp
qed

lemma split_at_pick:
  assumes "steps d fs d'" "length (filter (\<lambda>e. e = Pick) fs) = Suc i"
  shows "\<exists>fs1 fs2 b m. fs = fs1 @ Pick # fs2 \<and> length (filter (\<lambda>e. e = Pick) fs1) = i \<and> steps d fs1 b \<and> step b Pick m"
  using assms
proof (induction rule: steps.induct)
  case (more d es m e d')
  show ?case
  proof (cases "e = Pick \<and> length (filter (\<lambda>e. e = Pick) es) = i")
    case True
    with more.hyps show ?thesis by blast
  next
    case False
    then have "length (filter (\<lambda>e. e = Pick) es) = Suc i \<or> (e = Pick \<and> False)"
      using more.prems by (auto split: if_splits)
    with more.IH show ?thesis by fastforce
  qed
qed simp

text \<open>
  Property C26. The ready queue is served in its order: the task at position \<open>i\<close> of the ready queue is the
  one that runs after \<open>i + 1\<close> rounds of \<open>schedule\<close>, whatever the running tasks do in between
  (creating tasks, ending, locking, being preempted), so no ready task waits forever.
\<close>

theorem ready_task_gets_its_turn:
  assumes "start c ts" "steps c es d" "holds_list ready_view (k_queue (c_kernel d), k_tasks (c_kernel d)) xs"
    and "i < length xs" "steps d fs d'" "length (filter (\<lambda>e. e = Pick) fs) = Suc i"
  shows "\<exists>fs1 fs2 m. fs = fs1 @ Pick # fs2 \<and> length (filter (\<lambda>e. e = Pick) fs1) = i \<and> steps d (fs1 @ [Pick]) m \<and>
    cur m = xs ! i \<and> \<not> c_sched m \<and> state_of (c_kernel m) (xs ! i) = TASK_RUNNING"
proof -
  obtain a where g: "good a d" using reachable_good [OF assms(1,2)] by blast
  have xs: "xs = a_ready a" by (rule holds_list_unique [OF assms(3) good_lists(1) [OF g]])
  obtain fs1 fs2 b m where f: "fs = fs1 @ Pick # fs2" "length (filter (\<lambda>e. e = Pick) fs1) = i" "steps d fs1 b" "step b Pick m"
    using split_at_pick [OF assms(5,6)] by blast
  from queue_after [OF f(3) g] f(2) assms(4) xs obtain a1 ys where a1: "good a1 b" "a_ready a1 = drop i xs @ ys" by auto
  from step_good [OF f(4) a1(1)] obtain a2 where a2: "good a2 m" "a_ready a1 = cur m # a_ready a2" by auto
  have c: "cur m = xs ! i" using a1(2) a2(2) assms(4) by (simp add: Cons_nth_drop_Suc [symmetric])
  from f(4) have "\<not> c_sched m \<and> state_of (c_kernel m) (cur m) = TASK_RUNNING"
    by (cases rule: step.cases) (auto simp: schedule_next_def Let_def state_of_def set_state_def at_ptr_def split: prod.splits if_splits)
  with c f steps.more [OF f(3,4)] show ?thesis by auto
qed

theorem ready_task_gets_its_turn_witness:
  "\<exists>m. steps two_tasks ([Pick, Lock 7, Preempt] @ [Pick]) m \<and> cur m = 0x2000"
proof -
  let ?fs = "[Pick, Lock 7, Preempt, Pick, Lock 7]"
  have q: "holds_list ready_view (k_queue (c_kernel two_tasks), k_tasks (c_kernel two_tasks)) [0x1000, 0x2000]"
    using two_tasks_start by (simp add: start_def)
  have "exec two_tasks ?fs \<noteq> None" by code_simp
  then obtain d where "steps two_tasks ?fs d" using run_two_tasks by blast
  from ready_task_gets_its_turn [OF two_tasks_start steps.none q _ this, of 1]
  obtain fs1 fs2 m where "?fs = fs1 @ Pick # fs2" "length (filter (\<lambda>e. e = Pick) fs1) = 1" "steps two_tasks (fs1 @ [Pick]) m"
    "cur m = 0x2000" by auto
  moreover from this(1,2) have "fs1 = [Pick, Lock 7, Preempt]" by (auto simp: Cons_eq_append_conv)
  ultimately show ?thesis by auto
qed

section \<open>Refinement of the machine on lists\<close>

text \<open>Only the reaper can have the processor without being RUNNING.\<close>

lemma away:
  assumes "good a d" "\<not> c_sched d" "cur d \<noteq> reaper d"
  shows "cur d \<noteq> 0" "cur d \<notin> set (a_ready a)" "cur d \<notin> set (a_dead a)" "\<forall>l. cur d \<notin> set (a_wait a l)"
proof -
  note g = goodD [OF assms(1)]
  have c: "cur d \<in> c_made d" "a_state a (cur d) = TASK_RUNNING"
    using g(3,6,7) assms(2,3) by (auto simp: running_ok_def)
  with placed_fits [OF g(2) c(1)] g(2,7) assms(3) show "cur d \<noteq> 0" "cur d \<notin> set (a_ready a)" "cur d \<notin> set (a_dead a)"
    "\<forall>l. cur d \<notin> set (a_wait a l)" by (auto simp: fits_def placed_def)
qed

lemma good_back:
  assumes "good a d" "\<not> c_sched d"
  shows "models (schedule_back (c_kernel d)) (a_back a)"
    "cur d \<noteq> reaper d \<Longrightarrow> models (schedule_back (thread_exit (c_kernel d))) (a_back (a_exit a))"
proof -
  note gd = goodD [OF assms(1)]
  have c: "a_current a \<in> c_made d" "a_state a (a_current a) \<noteq> TASK_DEAD"
    using gd(3) assms(2) by (auto simp: running_ok_def)
  then have r: "a_state a (a_current a) = TASK_RUNNING \<Longrightarrow> a_current a \<notin> set (a_ready a)"
    using placed_fits [OF gd(2) c(1)] by (simp add: fits_def)
  have rb: "a_state a (a_reaper a) = TASK_BLOCKED \<Longrightarrow> a_reaper a \<notin> set (a_ready a)"
    using placed_fits [OF gd(2), of "a_reaper a"] placed_lists(2) [OF gd(2)] by (auto simp: fits_def)
  have nz: "a_current a \<noteq> 0" "a_reaper a \<noteq> 0" using placed_lists(1,2) [OF gd(2)] c(1) by auto
  show "models (schedule_back (c_kernel d)) (a_back a)"
    by (rule models_back [OF gd(1) nz]) (use rb r c(2) in auto)
  show "models (schedule_back (thread_exit (c_kernel d))) (a_back (a_exit a))"
    if "cur d \<noteq> reaper d"
    by (rule models_back [OF models_exit [OF gd(1)]])
      (use rb nz away(2,3) [OF assms that] gd(6,7) that in \<open>auto simp: a_exit_def split: if_splits\<close>)
qed

text \<open>
  Property C27. The scheduler and the mutexes on linked structures behave as a machine on lists: in every
  reachable state the structures represent ready, dead and waiting lists, and each operation has the
  effect and the answer that the list operation has (taking the first, putting last, waking the first
  waiter). The choice of \<open>schedule\<close>, unlocking and reaping are stated in every reachable state, giving the
  processor back whenever a task has it, ending a task and the rounds of \<open>mutex_lock\<close> for every task but the
  reaper, the rounds after a wake-up included.
\<close>

theorem scheduler_refines_lists:
  assumes "start c ts" "steps c es d"
  shows "\<exists>a. models (c_kernel d) a \<and>
    fst (schedule_next (c_kernel d)) = fst (a_next a) \<and> models (snd (schedule_next (c_kernel d))) (snd (a_next a)) \<and>
    (\<forall>l. models (mutex_unlock l (c_kernel d)) (a_unlock l a)) \<and>
    (\<forall>b k. reaper_round (c_kernel d) = Inr (b, k) \<longrightarrow> b = fst (a_reap a) \<and> models k (snd (a_reap a))) \<and>
    (\<not> c_sched d \<longrightarrow> models (schedule_back (c_kernel d)) (a_back a)) \<and>
    (\<not> c_sched d \<and> cur d \<noteq> reaper d \<longrightarrow>
       models (schedule_back (thread_exit (c_kernel d))) (a_back (a_exit a)) \<and>
       (\<forall>l. fst (mutex_lock_round l (c_kernel d)) = fst (a_lock l a) \<and>
         models (snd (mutex_lock_round l (c_kernel d))) (snd (a_lock l a))))"
proof -
  obtain a where g: "good a d" using reachable_good [OF assms] by blast
  note gd = goodD [OF g]
  have unlock: "models (mutex_unlock l (c_kernel d)) (a_unlock l a)" for l
  proof (rule models_unlock [OF gd(1,8)])
    show "t \<notin> set (a_ready a)" if w: "a_wait a l = t # ws" for t ws
    proof -
      have "t \<in> c_made d" "t \<noteq> a_reaper a"
        using w placed_lists(5) [OF gd(2), of l] gd(4) by (auto simp: reaper_ok_def dest: spec [of _ l])
      moreover have "t \<in> set (a_wait a l)" using w by simp
      ultimately show ?thesis using good_fits [OF g, of t] by (auto simp: fits_def)
    qed
  qed
  have lock: "fst (mutex_lock_round l (c_kernel d)) = fst (a_lock l a) \<and>
      models (snd (mutex_lock_round l (c_kernel d))) (snd (a_lock l a))"
    if "\<not> c_sched d" "cur d \<noteq> reaper d" for l
  proof -
    have "a_current a \<noteq> 0" "\<forall>l. a_current a \<notin> set (a_wait a l)"
      using away(1,4) [OF g that] gd(6) by simp_all
    from models_lock [OF gd(1) this gd(8)] show ?thesis by simp
  qed
  show ?thesis
    using gd(1) models_next [OF gd(1)] models_reap [OF gd(1)] unlock lock good_back [OF g]
    by (intro exI [of _ a]) blast
qed

theorem scheduler_refines_lists_witness:
  "\<exists>d a. steps two_tasks [Pick] d \<and> models (schedule_back (c_kernel d)) (a_back a)"
proof -
  have "case exec two_tasks [Pick] of Some d \<Rightarrow> \<not> c_sched d \<and> c_at d (cur d) = Free | None \<Rightarrow> False" by code_simp
  then obtain d where "steps two_tasks [Pick] d" "\<not> c_sched d \<and> c_at d (cur d) = Free"
    by (auto split: option.splits intro: run_two_tasks)
  with scheduler_refines_lists [OF two_tasks_start this(1)] show ?thesis by blast
qed

end
