(* ===== verification/Switch.thy ===== *)
theory Switch
  imports Sched
begin

text \<open>
  The context switch of \<^verbatim>\<open>pelikanOS/src/swtch.asm\<close>, instruction by instruction, and what it does
  with the stack that \<open>create_task\<close> builds. Memory is read and written in whole words at aligned
  addresses, as the stacks and the \<open>ESP\<close> fields are.
\<close>

section \<open>The processor\<close>

record cpu =
  EAX :: u32
  EBX :: u32
  ESI :: u32
  EDI :: u32
  EBP :: u32
  ESP :: u32
  EIP :: u32
  EFLAGS :: u32
  mem :: "u32 \<Rightarrow> u32"

definition push :: "u32 \<Rightarrow> cpu \<Rightarrow> cpu" where
  "push w c = c\<lparr>ESP := ESP c - 4, mem := (mem c)(ESP c - 4 := w)\<rparr>"

definition pop :: "(u32 \<Rightarrow> cpu \<Rightarrow> cpu) \<Rightarrow> cpu \<Rightarrow> cpu" where
  "pop reg c = reg (mem c (ESP c)) (c\<lparr>ESP := ESP c + 4\<rparr>)"

definition swtch :: "cpu \<Rightarrow> cpu" where
  "swtch = fold (\<lambda>instr. instr)
     [\<lambda>c. push (EFLAGS c) c,
      \<lambda>c. push (EBX c) c,
      \<lambda>c. push (ESI c) c,
      \<lambda>c. push (EDI c) c,
      \<lambda>c. push (EBP c) c,
      \<lambda>c. c\<lparr>EAX := mem c (ESP c + 24)\<rparr>,
      \<lambda>c. c\<lparr>mem := (mem c)(EAX c := ESP c)\<rparr>,
      \<lambda>c. c\<lparr>EAX := mem c (ESP c + 28)\<rparr>,
      \<lambda>c. c\<lparr>ESP := EAX c\<rparr>,
      pop (\<lambda>w. EBP_update (\<lambda>_. w)),
      pop (\<lambda>w. EDI_update (\<lambda>_. w)),
      pop (\<lambda>w. ESI_update (\<lambda>_. w)),
      pop (\<lambda>w. EBX_update (\<lambda>_. w)),
      pop (\<lambda>w. EFLAGS_update (\<lambda>_. w)),
      pop (\<lambda>w. EIP_update (\<lambda>_. w))]"

section \<open>What a call does\<close>

text \<open>
  At the entry of \<open>swtch(&old, new)\<close> the return address is at \<open>ESP\<close>, the arguments above it. The
  words written are the five below \<open>ESP\<close> and the one at \<open>old\<close>.
\<close>

definition written :: "cpu \<Rightarrow> u32 set" where
  "written c = {ESP c - 4, ESP c - 8, ESP c - 12, ESP c - 16, ESP c - 20, mem c (ESP c + 4)}"

text \<open>The slot of \<open>old\<close> is not part of the frame of the call.\<close>

definition slot_apart :: "cpu \<Rightarrow> bool" where
  "slot_apart c \<longleftrightarrow> mem c (ESP c + 4) \<notin>
     {ESP c - 20, ESP c - 16, ESP c - 12, ESP c - 8, ESP c - 4, ESP c, ESP c + 4, ESP c + 8}"

lemma offsets:
  fixes a :: u32
  shows "a - 4 - 4 = a - 8" "a - 8 - 4 = a - 12" "a - 12 - 4 = a - 16" "a - 16 - 4 = a - 20"
    "a - 20 + 24 = a + 4" "a - 20 + 28 = a + 8" "a + 4 + 4 = a + 8" "a + 8 + 4 = a + 12" "a + 12 + 4 = a + 16"
    "a + 16 + 4 = a + 20" "a + 20 + 4 = a + 24"
  by simp_all

lemma offsets_apart:
  fixes a :: u32
  shows "a + x = a - y \<longleftrightarrow> x + y = 0" "a - y = a + x \<longleftrightarrow> x + y = 0" "a - y = a - x \<longleftrightarrow> y = x"
    "a = a - y \<longleftrightarrow> y = 0" "a - y = a \<longleftrightarrow> y = 0"
proof -
  show *: "a + x = a - y \<longleftrightarrow> x + y = 0" using add_left_cancel [of a "x + y" 0] by (simp add: eq_diff_eq add.assoc)
  then show "a - y = a + x \<longleftrightarrow> x + y = 0" by metis
qed auto

text \<open>The memory a call leaves, and the registers.\<close>

definition saved :: "cpu \<Rightarrow> u32 \<Rightarrow> u32" where
  "saved c = (mem c)(ESP c - 4 := EFLAGS c, ESP c - 8 := EBX c, ESP c - 12 := ESI c, ESP c - 16 := EDI c, ESP c - 20 := EBP c,
     mem c (ESP c + 4) := ESP c - 20)"

lemma swtch_eq:
  assumes "mem c (ESP c + 4) \<noteq> ESP c + 8"
  shows "swtch c = (let new = mem c (ESP c + 8); m = saved c
    in c\<lparr>EAX := new, EBX := m (new + 12), ESI := m (new + 8), EDI := m (new + 4), EBP := m new, ESP := new + 24,
         EIP := m (new + 20), EFLAGS := m (new + 16), mem := m\<rparr>)"
  using assms by (simp add: swtch_def push_def pop_def Let_def saved_def offsets offsets_apart cong: if_cong)

lemma saved_other: "x \<notin> written c \<Longrightarrow> saved c x = mem c x"
  by (simp add: saved_def written_def)

section \<open>Saving and restoring\<close>

text \<open>
  Property C28. The context switch loses nothing: when a task has called \<open>swtch\<close> and later another
  context switches to the stack pointer saved for it, with the task's stack as it was left, then
  EBX, ESI, EDI, EBP and the flags are those of the task's call, execution goes on at its return
  address and the stack pointer is that of the return.
\<close>

theorem switch_roundtrip:
  fixes c d
  defines "sp \<equiv> saved c (mem c (ESP c + 4))"
  assumes "slot_apart c" "mem d (ESP d + 4) \<noteq> ESP d + 8" "mem d (ESP d + 8) = sp"
    and "\<And>x. x \<in> {sp, sp + 4, sp + 8, sp + 12, sp + 16, sp + 20} \<Longrightarrow> mem d x = mem (swtch c) x \<and> x \<notin> written d"
  shows "EBX (swtch d) = EBX c \<and> ESI (swtch d) = ESI c \<and> EDI (swtch d) = EDI c \<and> EBP (swtch d) = EBP c \<and>
    EFLAGS (swtch d) = EFLAGS c \<and> EIP (swtch d) = mem c (ESP c) \<and> ESP (swtch d) = ESP c + 4"
proof -
  have c: "mem (swtch c) = saved c" using assms(2) by (simp add: swtch_eq slot_apart_def Let_def)
  have sp: "sp = ESP c - 20" by (simp add: sp_def saved_def)
  have d: "saved d x = saved c x" if "x \<in> {sp, sp + 4, sp + 8, sp + 12, sp + 16, sp + 20}" for x
    using assms(5) [OF that] c saved_other by simp
  have s: "saved c sp = EBP c" "saved c (sp + 4) = EDI c" "saved c (sp + 8) = ESI c" "saved c (sp + 12) = EBX c"
    "saved c (sp + 16) = EFLAGS c" "saved c (sp + 20) = mem c (ESP c)"
    using assms(2) by (auto simp: sp saved_def slot_apart_def offsets offsets_apart)
  show ?thesis using d s by (simp add: swtch_eq [OF assms(3)] Let_def assms(4)) (simp add: sp)
qed

theorem switch_roundtrip_witness:
  "\<exists>(c :: cpu) d. EBX c = 7 \<and> EBX d = 9 \<and> EBX (swtch d) = 7"
proof -
  let ?c = "\<lparr>EAX = 0, EBX = 7, ESI = 1, EDI = 2, EBP = 3, ESP = 0x9000, EIP = 0, EFLAGS = 0x202,
    mem = (\<lambda>_. 0)(0x9004 := 0x100, 0x9008 := 0x7000)\<rparr>"
  let ?d = "\<lparr>EAX = 0, EBX = 9, ESI = 0, EDI = 0, EBP = 0, ESP = 0xA000, EIP = 0, EFLAGS = 2,
    mem = (saved ?c)(0xA004 := 0x104, 0xA008 := 0x8FEC)\<rparr>"
  have m: "mem (swtch ?c) = saved ?c" by (simp add: swtch_eq Let_def)
  let ?sp = "saved ?c (mem ?c (ESP ?c + 4))"
  have sp: "?sp = 0x8FEC" by (simp add: saved_def)
  have "mem ?d x = mem (swtch ?c) x \<and> x \<notin> written ?d" if "x \<in> {?sp, ?sp + 4, ?sp + 8, ?sp + 12, ?sp + 16, ?sp + 20}" for x
    using that unfolding m sp by (auto simp: written_def saved_def)
  from switch_roundtrip [OF _ _ _ this] have "EBX (swtch ?d) = EBX ?c" by (simp add: slot_apart_def saved_def)
  then show ?thesis by - (rule exI [of _ ?c], rule exI [of _ ?d], simp)
qed

section \<open>The first switch to a task\<close>

lemma push_words:
  "fold push_word [w1, w2, w3, w4, w5, w6] (a, m) =
    (a - 24, m(a - 4 := w1, a - 8 := w2, a - 12 := w3, a - 16 := w4, a - 20 := w5, a - 24 := w6))"
  by (simp add: push_word_def)

lemma new_task_result:
  assumes "new_task n code task_id k = Inr (p, k')"
  shows "\<exists>top m. k_tasks k' p = \<lparr>t_ESP = top - 24, t_EIP = code, t_page_directory = v_pd (k_vmm k'), t_state = 0,
      t_stack_base = top - 4096, t_id = task_id, t_next = 0, t_prev = 0, t_ready_next = 0, t_mutex_wait_next = 0, t_dead_next = 0\<rparr> \<and>
    v_mem (k_vmm k') = m(top - 4 := code, top - 8 := 0x202, top - 12 := 0, top - 16 := 0, top - 20 := 0, top - 24 := 0)"
  using assms unfolding new_task_def Let_def push_words
  by (fastforce simp: vmm_get_kernel_directory_def split: prod.splits)

text \<open>
  Property C29. A task that \<open>create_task\<close> has made starts properly: the first switch to it enters its
  code with interrupts enabled, EBX, ESI, EDI and EBP zero and the stack pointer at the top of its
  stack page, which is empty.
\<close>

theorem first_switch_enters_task:
  assumes "new_task n code task_id k = Inr (p, k')" "mem c = v_mem (k_vmm k')"
    and "mem c (ESP c + 8) = t_ESP (k_tasks k' p)" "mem c (ESP c + 4) \<noteq> ESP c + 8"
    and "\<And>i. i < 6 \<Longrightarrow> t_ESP (k_tasks k' p) + 4 * of_nat i \<notin> written c"
  shows "EIP (swtch c) = code \<and> EFLAGS (swtch c) = 0x202 \<and> EBX (swtch c) = 0 \<and> ESI (swtch c) = 0 \<and> EDI (swtch c) = 0 \<and>
    EBP (swtch c) = 0 \<and> ESP (swtch c) = t_stack_base (k_tasks k' p) + 4096"
proof -
  obtain top m where t: "t_ESP (k_tasks k' p) = top - 24" "t_stack_base (k_tasks k' p) = top - 4096"
    and v: "mem c = m(top - 4 := code, top - 8 := 0x202, top - 12 := 0, top - 16 := 0, top - 20 := 0, top - 24 := 0)"
    using new_task_result [OF assms(1)] assms(2) by auto
  have "saved c (top - 24) = mem c (top - 24)" "saved c (top - 20) = mem c (top - 20)" "saved c (top - 16) = mem c (top - 16)"
    "saved c (top - 12) = mem c (top - 12)" "saved c (top - 8) = mem c (top - 8)" "saved c (top - 4) = mem c (top - 4)"
    using assms(5) [of 0] assms(5) [of 1] assms(5) [of 2] assms(5) [of 3] assms(5) [of 4] assms(5) [of 5]
    by (simp_all add: t saved_other)
  then show ?thesis
    unfolding swtch_eq [OF assms(4)] Let_def assms(3) t by (simp add: v offsets_apart)
qed

definition spawning_kernel :: "u8 list \<Rightarrow> kernel" where
  "spawning_kernel bm = \<lparr>
     k_tasks = (\<lambda>_. blank_task), k_queue = \<lparr>queue_head = 0, queue_tail = 0\<rparr>, k_dead_q = \<lparr>dead_head = 0, dead_tail = 0\<rparr>,
     k_current = 0, k_reaper = 0, k_last = 0, k_num = 0,
     k_locks = (\<lambda>_. \<lparr>m_locked = 0, m_holder = 0, m_queue_head = 0, m_queue_tail = 0\<rparr>),
     k_heap = \<lparr>h_head = 0x8000, h_mem = (\<lambda>_. \<lparr>b_size = 44, b_free = 1, b_magic = HEAP_MAGIC_FREE, b_next = 0, b_prev = 0\<rparr>),
       h_bitmap = bm, h_console = [], h_if = False\<rparr>,
     k_vmm = \<lparr>v_pd = 0, v_mem = (\<lambda>_. 0)(0x6004 := 0x100, 0x6008 := 45032), v_bitmap = [], v_cr0 = 0, v_cr3 = 0\<rparr>\<rparr>"

lemma spawning_task:
  "\<exists>bm k'. new_task 1 code task_id (spawning_kernel bm) = Inr (0x8014, k') \<and> t_ESP (k_tasks k' 0x8014) = 45032 \<and>
    v_mem (k_vmm k') 0x6004 = 0x100 \<and> v_mem (k_vmm k') 0x6008 = 45032 \<and> h_console (k_heap k') = [] \<and> k_num k' = 0"
proof -
  obtain bm where bm: "bitmap_ok bm" "free_frames bm = {9, 10}"
    using bitmap_with [of "[9, 10]"] by (auto simp: MAX_FRAMES_def)
  have run: "run_at bm 2 s \<longleftrightarrow> s = 9" for s
    by (auto simp: run_at_def bm(2) eval_nat_numeral atLeastLessThanSuc)
  have least: "(LEAST s. run_at bm (nat 2) s) = 9" by (intro Least_equality) (simp_all add: run)
  have "0 < (2::int) \<and> (\<exists>s. run_at bm (nat 2) s)" by (simp add: run)
  with pmm_alloc_contiguous_spec [OF bm(1), of 2, unfolded least]
  obtain bm' where f: "pmm_alloc_contiguous 2 bm = Inr (36864, bm')" by (auto simp: in_int_def)
  have "kmalloc 1 44 (k_heap (spawning_kernel bm)) =
    Inr (0x8014, at_block 0x8000 (\<lambda>b. b\<lparr>b_free := 0, b_magic := HEAP_MAGIC_ALLOC\<rparr>) (k_heap (spawning_kernel bm)))"
    by (simp add: kmalloc_def BLOCK_SIZE_def spawning_kernel_def)
  moreover have "h_bitmap (k_heap (spawning_kernel bm)) = bm" by (simp add: spawning_kernel_def)
  ultimately show ?thesis
    unfolding new_task_def Let_def push_words on_vmm_def
    by (intro exI [of _ bm])
      (simp add: at_block_def f spawning_kernel_def vmm_unmap_page_def entry_at_def dir_index_def table_index_def)
qed

lemma spawning_create: "\<exists>bm p k'. create_task 1 code task_id 0 (spawning_kernel bm) = Inr (p, k') \<and> h_console (k_heap k') = []"
proof -
  from spawning_task [of code task_id] obtain bm k where
    "new_task 1 code task_id (spawning_kernel bm) = Inr (0x8014, k)" "h_console (k_heap k) = []" "k_num k = 0" by blast
  then show ?thesis
    by (intro exI [of _ bm])
      (auto simp: create_task_def link_task_def publish_task_def on_ring_def on_ready_def set_state_def Let_def split: prod.splits)
qed

theorem first_switch_enters_task_witness:
  "\<exists>bm p k' c. new_task 1 0x100000 5 (spawning_kernel bm) = Inr (p, k') \<and> EIP (swtch c) = 0x100000 \<and> EFLAGS (swtch c) = 0x202"
proof -
  from spawning_task [of "0x100000" 5] obtain bm k' where k': "new_task 1 0x100000 5 (spawning_kernel bm) = Inr (0x8014, k')"
    "t_ESP (k_tasks k' 0x8014) = 45032" "v_mem (k_vmm k') 0x6004 = 0x100" "v_mem (k_vmm k') 0x6008 = 45032" by blast
  let ?c = "\<lparr>EAX = 0, EBX = 7, ESI = 1, EDI = 2, EBP = 3, ESP = 0x6000, EIP = 0, EFLAGS = 2, mem = v_mem (k_vmm k')\<rparr>"
  have "t_ESP (k_tasks k' 0x8014) + 4 * of_nat i \<notin> written ?c" if "i < 6" for i
  proof -
    have "i = 0 \<or> i = 1 \<or> i = 2 \<or> i = 3 \<or> i = 4 \<or> i = 5" using that by linarith
    then show ?thesis by (auto simp: k' written_def)
  qed
  from first_switch_enters_task [OF k'(1) _ _ _ this] have "EIP (swtch ?c) = 0x100000" "EFLAGS (swtch ?c) = 0x202"
    by (simp_all add: k')
  with k'(1) show ?thesis by blast
qed

end
