(* ===== verification/My_Malloc.thy ===== *)
theory My_Malloc
  imports Allocator Chains
begin

text \<open>
  The user-space allocator \<^verbatim>\<open>my_malloc/src/my_malloc.c\<close> on a 64-bit machine. It gets its memory from
  \<open>sbrk\<close> of the operating system, which is a parameter, and keeps the contract of \<open>Allocator\<close>.
\<close>

section \<open>State\<close>

text \<open>
  \<open>my_mem\<close> gives the header at an address, \<open>my_os\<close> is the state of the operating system as far as
  \<open>sbrk\<close> depends on it.
\<close>

record my_block_t =
  my_size :: u64
  my_free_flag :: int
  my_next :: u64

record 'o my_heap =
  my_head :: u64
  my_mem :: "u64 \<Rightarrow> my_block_t"
  my_os :: 'o

definition MY_BLOCK_SIZE :: u64 where "MY_BLOCK_SIZE = 24"

section \<open>Operations\<close>

text \<open>\<open>while (current->next) current = current->next\<close>\<close>

fun my_last :: "nat \<Rightarrow> (u64 \<Rightarrow> my_block_t) \<Rightarrow> u64 \<Rightarrow> u64 result" where
  "my_last 0 m current = Inl Out_Of_Fuel"
| "my_last (Suc n) m current = (if my_next (m current) \<noteq> 0 then my_last n m (my_next (m current)) else Inr current)"

definition my_malloc :: "nat \<Rightarrow> (u64 \<Rightarrow> 'o \<Rightarrow> u64 \<times> 'o) \<Rightarrow> u64 \<Rightarrow> 'o my_heap \<Rightarrow> (u64 \<times> 'o my_heap) result" where
  "my_malloc fuel sbrk sz s =
     (if sz = 0 then Inr (0, s)
      else case sbrk (MY_BLOCK_SIZE + sz) (my_os s) of (raw, os) \<Rightarrow>
        let s = s\<lparr>my_os := os\<rparr>
        in if raw = - 1 then Inr (0, s)
           else let block = raw;
                    s = s\<lparr>my_mem := (my_mem s)(block := \<lparr>my_size = sz, my_free_flag = 0, my_next = 0\<rparr>)\<rparr>
                in if my_head s = 0 then Inr (block + MY_BLOCK_SIZE, s\<lparr>my_head := block\<rparr>)
                   else andthen (my_last fuel (my_mem s) (my_head s)) (\<lambda>current.
                     Inr (block + MY_BLOCK_SIZE,
                       s\<lparr>my_mem := (my_mem s)(current := (my_mem s current)\<lparr>my_next := block\<rparr>)\<rparr>)))"

definition my_free :: "u64 \<Rightarrow> 'o my_heap \<Rightarrow> 'o my_heap result" where
  "my_free ptr s =
     (if ptr = 0 then Inr s
      else let block = ptr - MY_BLOCK_SIZE
           in Inr (s\<lparr>my_mem := (my_mem s)(block := (my_mem s block)\<lparr>my_free_flag := 1\<rparr>)\<rparr>))"

section \<open>What \<open>sbrk\<close> promises\<close>

text \<open>
  The documented behaviour: while the break stays within the limit of the process, \<open>sbrk n\<close> answers the
  old break and moves it up by \<open>n\<close>. \<open>brk\<close> reads the break off the state of the system.
\<close>

definition sbrk_grants :: "(u64 \<Rightarrow> 'o \<Rightarrow> u64 \<times> 'o) \<Rightarrow> ('o \<Rightarrow> nat) \<Rightarrow> nat \<Rightarrow> bool" where
  "sbrk_grants sbrk brk limit \<longleftrightarrow> limit < 2 ^ 63 \<and>
     (\<forall>n os. brk os + unat n \<le> limit \<longrightarrow> (case sbrk n os of (raw, os') \<Rightarrow> raw = of_nat (brk os) \<and> brk os' = brk os + unat n))"

section \<open>The list of blocks\<close>

abbreviation block_chain :: "'o my_heap \<Rightarrow> u64 list \<Rightarrow> bool" where
  "block_chain s bs \<equiv> chain (\<lambda>p. my_next (my_mem s p)) (my_head s) bs"

text \<open>Where the block at \<open>b\<close> ends.\<close>

definition block_end :: "'o my_heap \<Rightarrow> u64 \<Rightarrow> nat" where
  "block_end s b = unat b + 24 + unat (my_size (my_mem s b))"

definition my_inv :: "('o \<Rightarrow> nat) \<Rightarrow> nat \<Rightarrow> 'o my_heap \<Rightarrow> u64 list \<Rightarrow> bool" where
  "my_inv brk limit s bs \<longleftrightarrow> block_chain s bs \<and> sorted_wrt (\<lambda>a b. block_end s a \<le> unat b) bs \<and>
     (\<forall>b \<in> set bs. block_end s b \<le> brk (my_os s)) \<and> 0 < brk (my_os s) \<and> brk (my_os s) \<le> limit \<and>
     24 * length bs \<le> brk (my_os s)"

lemma my_last_chain: "chain (\<lambda>p. my_next (m p)) p (bs @ [z]) \<Longrightarrow> length bs < n \<Longrightarrow> my_last n m p = Inr z"
proof (induction n arbitrary: p bs)
  case (Suc n)
  show ?case
  proof (cases bs)
    case Nil
    with Suc.prems show ?thesis by simp
  next
    case (Cons b cs)
    with Suc.prems have "chain (\<lambda>p. my_next (m p)) (my_next (m p)) (cs @ [z])" by simp
    moreover from this have "my_next (m p) \<noteq> 0" by (cases cs) auto
    ultimately show ?thesis using Suc.IH [of "my_next (m p)" cs] Suc.prems(2) Cons by simp
  qed
qed simp

lemma my_inv_length:
  assumes "my_inv brk limit s bs" "limit < 2 ^ 63"
  shows "length bs < 2 ^ 63"
  using assms by (auto simp: my_inv_def)

lemma my_inv_below:
  assumes "my_inv brk limit s bs" "b \<in> set bs"
  shows "unat b + 24 \<le> brk (my_os s)"
  using assms by (fastforce simp: my_inv_def block_end_def)

lemma chain_head: "chain nx p xs \<Longrightarrow> p = 0 \<longleftrightarrow> xs = []"
  by (cases xs) auto

lemma rising_distinct: "sorted_wrt (\<lambda>a b. unat a < unat b) bs \<Longrightarrow> distinct bs"
  by (induction bs) auto

text \<open>A block that was appended: the old ones keep size and flag.\<close>

lemma my_inv_append:
  assumes "my_inv brk limit s bs" "unat new = brk (my_os s)" "new \<noteq> 0" "block_chain s' (bs @ [new])"
    and "\<And>b. b \<in> set bs \<Longrightarrow> my_size (my_mem s' b) = my_size (my_mem s b)" "my_size (my_mem s' new) = n"
    and "brk (my_os s') = brk (my_os s) + 24 + unat n" "brk (my_os s') \<le> limit"
  shows "my_inv brk limit s' (bs @ [new])"
proof -
  have e: "block_end s' b = block_end s b" if "b \<in> set bs" for b using assms(5) [OF that] by (simp add: block_end_def)
  have "sorted_wrt (\<lambda>a b. block_end s' a \<le> unat b) bs"
    using assms(1) e by (auto simp: my_inv_def intro: sorted_wrt_mono_rel [rotated])
  moreover have "block_end s' b \<le> unat new" if "b \<in> set bs" for b
    using assms(1,2) e [OF that] that by (simp add: my_inv_def)
  moreover have "block_end s' new = brk (my_os s')" using assms(2,6,7) by (simp add: block_end_def)
  ultimately show ?thesis
    using assms by (fastforce simp: my_inv_def sorted_wrt_append)
qed

lemma my_malloc_spec:
  assumes sb: "sbrk_grants sbrk brk limit" and inv: "my_inv brk limit s bs" and n: "0 < n"
    and room: "brk (my_os s) + 24 + unat n \<le> limit" and fuel: "length bs \<le> fuel"
  defines "new \<equiv> of_nat (brk (my_os s))"
  shows "\<exists>s'. my_malloc fuel sbrk n s = Inr (new + MY_BLOCK_SIZE, s') \<and> my_inv brk limit s' (bs @ [new]) \<and>
    (\<forall>b \<in> set bs. my_size (my_mem s' b) = my_size (my_mem s b) \<and> my_free_flag (my_mem s' b) = my_free_flag (my_mem s b)) \<and>
    my_size (my_mem s' new) = n \<and> my_free_flag (my_mem s' new) = 0 \<and> brk (my_os s') = brk (my_os s) + 24 + unat n"
proof -
  have lim: "limit < 2 ^ 63" using sb by (simp add: sbrk_grants_def)
  have un: "unat new = brk (my_os s)" using room lim by (simp add: new_def unat_of_nat take_bit_nat_eq_self)
  have nz: "new \<noteq> 0" using un inv by (auto simp: my_inv_def)
  have m1: "new \<noteq> - 1"
  proof
    assume "new = - 1"
    then have "unat new = 2 ^ 64 - 1" by (simp add: unsigned_minus_1_eq_mask mask_eq_exp_minus_1)
    then show False using un room lim by simp
  qed
  have out: "new \<notin> set bs" using my_inv_below [OF inv] un by fastforce
  have us: "unat (MY_BLOCK_SIZE + n) = 24 + unat n"
    using room lim by (simp add: MY_BLOCK_SIZE_def unat_plus_u64)
  obtain os where os: "sbrk (MY_BLOCK_SIZE + n) (my_os s) = (new, os)" "brk os = brk (my_os s) + (24 + unat n)"
    using sb room us unfolding sbrk_grants_def new_def
    by (metis (mono_tags, lifting) add.assoc case_prod_conv prod.exhaust_sel)
  let ?blk = "\<lparr>my_size = n, my_free_flag = 0, my_next = 0\<rparr>"
  let ?m = "(my_mem s)(new := ?blk)"
  have ch: "chain (\<lambda>p. my_next (?m p)) (my_head s) bs"
    using inv out by (auto simp: my_inv_def intro: chain_cong)
  show ?thesis
  proof (cases bs rule: rev_cases)
    case Nil
    let ?s = "s\<lparr>my_os := os, my_mem := ?m, my_head := new\<rparr>"
    have h: "my_head s = 0" using ch Nil by simp
    have "my_malloc fuel sbrk n s = Inr (new + MY_BLOCK_SIZE, ?s)"
      using n m1 os(1) h by (auto simp: my_malloc_def Let_def)
    moreover have "my_inv brk limit ?s (bs @ [new])"
      by (rule my_inv_append [OF inv un nz]) (use Nil nz os(2) room in simp_all)
    ultimately show ?thesis using Nil os(2) by simp
  next
    case (snoc cs z)
    let ?m' = "?m(z := (?m z)\<lparr>my_next := new\<rparr>)"
    let ?s = "s\<lparr>my_os := os, my_mem := ?m'\<rparr>"
    have h: "my_head s \<noteq> 0" using chain_head [OF ch] snoc by simp
    have zn: "z \<noteq> new" using out snoc by auto
    have last: "my_last fuel ?m (my_head s) = Inr z" using my_last_chain [of ?m "my_head s" cs z] ch fuel snoc by simp
    have "my_malloc fuel sbrk n s = Inr (new + MY_BLOCK_SIZE, ?s)"
      using n m1 os(1) h last by (auto simp: my_malloc_def Let_def)
    moreover have d: "distinct (cs @ [z])"
    proof -
      have "sorted_wrt (\<lambda>a b. unat a < unat b) (cs @ [z])"
        using inv snoc unfolding my_inv_def block_end_def by (auto intro: sorted_wrt_mono_rel [rotated])
      then show ?thesis by (rule rising_distinct)
    qed
    have "my_inv brk limit ?s (bs @ [new])"
    proof (rule my_inv_append [OF inv un nz])
      have "chain ((\<lambda>p. my_next (?m p))(new := 0, z := new)) (my_head s) (cs @ [z, new])"
        using chain_snoc [OF _ d nz] ch out snoc by simp
      moreover have "(\<lambda>p. my_next (?m p))(new := 0, z := new) = (\<lambda>p. my_next (?m' p))" using zn by (auto simp: fun_eq_iff)
      ultimately show "block_chain ?s (bs @ [new])" using snoc by simp
    qed (use os(2) room zn out in auto)
    ultimately show ?thesis using os(2) zn out by (intro exI [of _ ?s]) auto
  qed
qed

section \<open>The contract of an allocator\<close>

definition my_valid :: "('o \<Rightarrow> nat) \<Rightarrow> nat \<Rightarrow> 'o my_heap \<Rightarrow> bool" where
  "my_valid brk limit s \<longleftrightarrow> (\<exists>bs. my_inv brk limit s bs)"

definition my_live :: "'o my_heap \<Rightarrow> u64 \<Rightarrow> nat option" where
  "my_live s p = (if \<exists>bs. block_chain s bs \<and> p - MY_BLOCK_SIZE \<in> set bs \<and> my_free_flag (my_mem s (p - MY_BLOCK_SIZE)) = 0
    then Some (unat (my_size (my_mem s (p - MY_BLOCK_SIZE)))) else None)"

lemma my_live_iff:
  assumes "block_chain s bs"
  shows "my_live s p = Some k \<longleftrightarrow> p - MY_BLOCK_SIZE \<in> set bs \<and> my_free_flag (my_mem s (p - MY_BLOCK_SIZE)) = 0 \<and>
    k = unat (my_size (my_mem s (p - MY_BLOCK_SIZE)))"
proof -
  have "(\<exists>bs. block_chain s bs \<and> p - MY_BLOCK_SIZE \<in> set bs \<and> my_free_flag (my_mem s (p - MY_BLOCK_SIZE)) = 0) \<longleftrightarrow>
    p - MY_BLOCK_SIZE \<in> set bs \<and> my_free_flag (my_mem s (p - MY_BLOCK_SIZE)) = 0"
    using assms chain_unique by metis
  then show ?thesis by (auto simp: my_live_def)
qed

lemma map_ext: "(\<And>x y. m x = Some y \<longleftrightarrow> m' x = Some y) \<Longrightarrow> m = m'"
  by (rule ext) (metis not_Some_eq)

lemma my_free_spec:
  assumes inv: "my_inv brk limit s bs" and p: "p - MY_BLOCK_SIZE \<in> set bs" and lim: "limit < 2 ^ 63"
  shows "\<exists>s'. my_free p s = Inr s' \<and> my_inv brk limit s' bs \<and> my_os s' = my_os s \<and>
    my_live s' = (my_live s)(p := None)"
proof -
  let ?b = "p - MY_BLOCK_SIZE"
  let ?s = "s\<lparr>my_mem := (my_mem s)(?b := (my_mem s ?b)\<lparr>my_free_flag := 1\<rparr>)\<rparr>"
  have "p \<noteq> 0"
  proof
    assume "p = 0"
    then have "?b = 18446744073709551592" by (simp add: MY_BLOCK_SIZE_def)
    then have "unat ?b = 18446744073709551592" by simp
    then show False using my_inv_below [OF inv p] inv lim by (simp add: my_inv_def)
  qed
  then have "my_free p s = Inr ?s" by (simp add: my_free_def Let_def)
  moreover have nx: "(\<lambda>q. my_next (my_mem ?s q)) = (\<lambda>q. my_next (my_mem s q))" by (auto simp: fun_eq_iff)
  moreover have "block_end ?s b = block_end s b" for b by (simp add: block_end_def)
  then have inv': "my_inv brk limit ?s bs" using inv nx by (simp add: my_inv_def)
  moreover have "my_live ?s = (my_live s)(p := None)"
  proof (rule map_ext)
    fix q k
    have c: "block_chain s bs" "block_chain ?s bs" using inv inv' by (simp_all add: my_inv_def)
    have "q - MY_BLOCK_SIZE = ?b \<longleftrightarrow> q = p" by simp
    then show "my_live ?s q = Some k \<longleftrightarrow> ((my_live s)(p := None)) q = Some k"
      using my_live_iff [OF c(1), of q k] my_live_iff [OF c(2), of q k] by auto
  qed
  ultimately show ?thesis by auto
qed

lemma my_live_apart:
  assumes inv: "my_inv brk limit s bs" and lim: "limit < 2 ^ 63" and l: "my_live s p = Some m" "my_live s q = Some n" and ne: "p \<noteq> q"
  shows "{unat p..<unat p + m} \<inter> {unat q..<unat q + n} = {}"
proof -
  have c: "block_chain s bs" using inv by (simp add: my_inv_def)
  have at: "r - MY_BLOCK_SIZE \<in> set bs \<and> unat r = unat (r - MY_BLOCK_SIZE) + 24 \<and> unat r + k = block_end s (r - MY_BLOCK_SIZE)"
    if "my_live s r = Some k" for r k
  proof -
    have b: "r - MY_BLOCK_SIZE \<in> set bs" "k = unat (my_size (my_mem s (r - MY_BLOCK_SIZE)))" using that my_live_iff [OF c] by auto
    have "unat (r - MY_BLOCK_SIZE + MY_BLOCK_SIZE) = unat (r - MY_BLOCK_SIZE) + 24"
      using my_inv_below [OF inv b(1)] inv lim by (subst unat_plus_u64) (simp_all add: my_inv_def MY_BLOCK_SIZE_def)
    with b show ?thesis by (simp add: block_end_def)
  qed
  have "p - MY_BLOCK_SIZE \<noteq> q - MY_BLOCK_SIZE" using ne by simp
  with at [OF l(1)] at [OF l(2)] have "block_end s (p - MY_BLOCK_SIZE) \<le> unat (q - MY_BLOCK_SIZE) \<or>
      block_end s (q - MY_BLOCK_SIZE) \<le> unat (p - MY_BLOCK_SIZE)"
  proof -
    have sw: "sorted_wrt (\<lambda>a b. block_end s a \<le> unat b) bs" using inv by (simp add: my_inv_def)
    obtain i j where ij: "i < length bs" "bs ! i = p - MY_BLOCK_SIZE" "j < length bs" "bs ! j = q - MY_BLOCK_SIZE"
      using at [OF l(1)] at [OF l(2)] by (auto simp: in_set_conv_nth)
    with \<open>p - MY_BLOCK_SIZE \<noteq> q - MY_BLOCK_SIZE\<close> have "i < j \<or> j < i" by (cases i j rule: linorder_cases) auto
    with sorted_wrt_nth_less [OF sw, of i j] sorted_wrt_nth_less [OF sw, of j i] ij show ?thesis by auto
  qed
  with at [OF l(1)] at [OF l(2)] show ?thesis by auto
qed

text \<open>Up to \<open>cap\<close> bytes a request, there is room for as many requests as fit below the limit.\<close>

definition my_room :: "('o \<Rightarrow> nat) \<Rightarrow> nat \<Rightarrow> nat \<Rightarrow> 'o my_heap \<Rightarrow> nat" where
  "my_room brk limit cap s = (limit - brk (my_os s)) div (24 + cap)"

definition my_fuel :: nat where "my_fuel = 2 ^ 63"

lemma my_malloc_allocator:
  assumes sb: "sbrk_grants sbrk brk limit"
  shows "allocator (\<lambda>n. my_malloc my_fuel sbrk (of_nat n)) my_free (my_valid brk limit) my_live unat
    (\<lambda>n. 0 < n \<and> n \<le> cap) (my_room brk limit cap)"
proof
  have lim: "limit < 2 ^ 63" using sb by (simp add: sbrk_grants_def)
  fix s n
  assume v: "my_valid brk limit s" and n: "0 < n \<and> n \<le> cap" and r: "0 < my_room brk limit cap s"
  from v obtain bs where inv: "my_inv brk limit s bs" by (auto simp: my_valid_def)
  have fits: "brk (my_os s) + (24 + cap) \<le> limit"
    using r inv by (auto simp: my_room_def my_inv_def div_greater_zero_iff)
  have u: "unat (of_nat n :: u64) = n" using n fits lim by (simp add: unat_of_nat take_bit_nat_eq_self)
  let ?new = "of_nat (brk (my_os s)) :: u64"
  have "0 < (of_nat n :: u64)" "brk (my_os s) + 24 + unat (of_nat n :: u64) \<le> limit" "length bs \<le> my_fuel"
    using n u fits my_inv_length [OF inv lim] by (auto simp: word_less_nat_alt my_fuel_def)
  from my_malloc_spec [OF sb inv this] obtain s' where
    s': "my_malloc my_fuel sbrk (of_nat n) s = Inr (?new + MY_BLOCK_SIZE, s')" "my_inv brk limit s' (bs @ [?new])"
    "\<forall>b \<in> set bs. my_size (my_mem s' b) = my_size (my_mem s b) \<and> my_free_flag (my_mem s' b) = my_free_flag (my_mem s b)"
    "my_size (my_mem s' ?new) = of_nat n" "my_free_flag (my_mem s' ?new) = 0" "brk (my_os s') = brk (my_os s) + 24 + n"
    unfolding u by blast
  have "unat ?new = brk (my_os s)" using fits lim by (simp add: unat_of_nat take_bit_nat_eq_self)
  then have out: "?new \<notin> set bs" using my_inv_below [OF inv] by fastforce
  have c: "block_chain s bs" "block_chain s' (bs @ [?new])" using inv s'(2) by (simp_all add: my_inv_def)
  let ?p = "?new + MY_BLOCK_SIZE"
  have "my_live s ?p = None" using my_live_iff [OF c(1), of ?p] out by (cases "my_live s ?p") auto
  moreover have "my_live s' = (my_live s)(?p \<mapsto> n)"
  proof (rule map_ext)
    fix q k
    have "q - MY_BLOCK_SIZE = ?new \<longleftrightarrow> q = ?p" by (metis add_diff_cancel_right' diff_add_cancel)
    then show "my_live s' q = Some k \<longleftrightarrow> ((my_live s)(?p \<mapsto> n)) q = Some k"
      using my_live_iff [OF c(1), of q k] my_live_iff [OF c(2), of q k] s'(3-5) u out by auto
  qed
  moreover have "my_room brk limit cap s \<le> Suc (my_room brk limit cap s')"
  proof -
    have "limit - brk (my_os s) \<le> limit - brk (my_os s') + (24 + cap)"
      unfolding s'(6) using n by linarith
    then have "(limit - brk (my_os s)) div (24 + cap) \<le> (limit - brk (my_os s') + (24 + cap)) div (24 + cap)"
      by (rule div_le_mono)
    also have "\<dots> = Suc ((limit - brk (my_os s')) div (24 + cap))" by (subst div_add_self2) simp_all
    finally show ?thesis by (simp add: my_room_def)
  qed
  ultimately show "\<exists>p s' m. my_malloc my_fuel sbrk (of_nat n) s = Inr (p, s') \<and> my_valid brk limit s' \<and> my_live s p = None \<and>
      my_live s' = (my_live s)(p \<mapsto> m) \<and> n \<le> m \<and> my_room brk limit cap s \<le> Suc (my_room brk limit cap s')"
    using s'(1,2) by (intro exI [of _ ?p] exI [of _ s'] exI [of _ n]) (auto simp: my_valid_def)
next
  have lim: "limit < 2 ^ 63" using sb by (simp add: sbrk_grants_def)
  fix s p m
  assume v: "my_valid brk limit s" and l: "my_live s p = Some m"
  from v obtain bs where inv: "my_inv brk limit s bs" by (auto simp: my_valid_def)
  then have "p - MY_BLOCK_SIZE \<in> set bs" using l my_live_iff [of s bs] by (auto simp: my_inv_def)
  from my_free_spec [OF inv this lim] show "\<exists>s'. my_free p s = Inr s' \<and> my_valid brk limit s' \<and>
      my_live s' = (my_live s)(p := None) \<and> my_room brk limit cap s \<le> my_room brk limit cap s'"
    by (fastforce simp: my_valid_def my_room_def)
next
  have lim: "limit < 2 ^ 63" using sb by (simp add: sbrk_grants_def)
  fix s p m q n
  assume v: "my_valid brk limit s" and l: "my_live s p = Some m" "my_live s q = Some n" "p \<noteq> q"
  from v obtain bs where "my_inv brk limit s bs" by (auto simp: my_valid_def)
  from my_live_apart [OF this lim l] show "{unat p..<unat p + m} \<inter> {unat q..<unat q + n} = {}" .
qed

section \<open>Properties\<close>

definition fresh_my_heap :: "'o \<Rightarrow> 'o my_heap" where
  "fresh_my_heap os = \<lparr>my_head = 0, my_mem = (\<lambda>_. \<lparr>my_size = 0, my_free_flag = 0, my_next = 0\<rparr>), my_os = os\<rparr>"

lemma fresh_my_inv: "0 < brk os \<Longrightarrow> brk os \<le> limit \<Longrightarrow> my_inv brk limit (fresh_my_heap os) []"
  by (simp add: my_inv_def fresh_my_heap_def)

text \<open>
  Property C40. The blocks a client holds never overlap, however \<open>my_malloc\<close> and \<open>my_free\<close> calls are
  interleaved, as long as the break has room for the requests below the limit of the process.
\<close>

theorem my_malloc_blocks_apart:
  assumes "sbrk_grants sbrk brk limit" "0 < brk os" "brk os + length (asks ns) * (24 + cap) \<le> limit"
    and "\<forall>n \<in> set (asks ns). 0 < n \<and> n \<le> cap"
  shows "\<exists>held s. each (use_heap (\<lambda>n. my_malloc my_fuel sbrk (of_nat n)) my_free) ns ([], fresh_my_heap os) = Inr (held, s) \<and>
    no_overlap unat held"
proof -
  note al = my_malloc_allocator [OF assms(1), of cap]
  have v: "my_valid brk limit (fresh_my_heap os)"
    using fresh_my_inv [of brk os limit] assms(2,3) by (auto simp: my_valid_def)
  have "allocator.holds_live (my_valid brk limit) my_live ([], fresh_my_heap os)"
    unfolding allocator.holds_live_def [OF al] using v by simp
  moreover have "length (asks ns) \<le> my_room brk limit cap (fresh_my_heap os)"
    using assms(3) by (simp add: my_room_def fresh_my_heap_def less_eq_div_iff_mult_less_eq)
  moreover have "set (asks ns) \<subseteq> {n. 0 < n \<and> n \<le> cap}" using assms(4) by blast
  ultimately show ?thesis using allocator.use_heap_safe [OF al] by blast
qed

text \<open>A system whose state is the break.\<close>

definition small_sbrk :: "u64 \<Rightarrow> nat \<Rightarrow> u64 \<times> nat" where
  "small_sbrk n b = (if b + unat n \<le> 65536 then (of_nat b, b + unat n) else (- 1, b))"

lemma small_sbrk_grants: "sbrk_grants small_sbrk (\<lambda>b. b) 65536"
  by (simp add: sbrk_grants_def small_sbrk_def)

theorem my_malloc_blocks_apart_witness:
  "\<exists>held s. each (use_heap (\<lambda>n. my_malloc my_fuel small_sbrk (of_nat n)) my_free) [Get 4, Get 64, Put 1, Get 4] ([], fresh_my_heap 4096) =
    Inr (held, s) \<and> no_overlap unat held"
  by (rule my_malloc_blocks_apart [OF small_sbrk_grants, where cap = 64]) simp_all

text \<open>
  A request of zero bytes or one that the system refuses is answered with NULL and leaves
  the list alone; any other request gets a new block at the old break behind all blocks, freed ones
  included: freed memory is never used again.
\<close>

theorem my_malloc_extends_break:
  assumes "sbrk_grants sbrk brk limit" "my_inv brk limit s bs" "length bs \<le> fuel"
  shows "(fst (sbrk (MY_BLOCK_SIZE + n) (my_os s)) = - 1 \<longrightarrow>
      (\<exists>s'. my_malloc fuel sbrk n s = Inr (0, s') \<and> my_head s' = my_head s \<and> my_mem s' = my_mem s)) \<and>
    my_malloc fuel sbrk 0 s = Inr (0, s) \<and>
    (0 < n \<and> brk (my_os s) + 24 + unat n \<le> limit \<longrightarrow>
      (\<exists>p s'. my_malloc fuel sbrk n s = Inr (p, s') \<and> unat p = brk (my_os s) + 24 \<and> my_inv brk limit s' (bs @ [p - MY_BLOCK_SIZE]) \<and>
        brk (my_os s') = unat p + unat n \<and> (\<forall>b \<in> set bs. block_end s b \<le> unat (p - MY_BLOCK_SIZE))))"
proof -
  have "\<exists>p s'. my_malloc fuel sbrk n s = Inr (p, s') \<and> unat p = brk (my_os s) + 24 \<and> my_inv brk limit s' (bs @ [p - MY_BLOCK_SIZE]) \<and>
        brk (my_os s') = unat p + unat n \<and> (\<forall>b \<in> set bs. block_end s b \<le> unat (p - MY_BLOCK_SIZE))"
    if n: "0 < n" and room: "brk (my_os s) + 24 + unat n \<le> limit"
  proof -
    let ?new = "of_nat (brk (my_os s)) :: u64"
    have lim: "limit < 2 ^ 63" using assms(1) by (simp add: sbrk_grants_def)
    have u: "unat ?new = brk (my_os s)" using room lim by (simp add: unat_of_nat take_bit_nat_eq_self)
    then have "unat (?new + MY_BLOCK_SIZE) = brk (my_os s) + 24"
      using room lim by (subst unat_plus_u64) (simp_all add: MY_BLOCK_SIZE_def)
    moreover have "\<forall>b \<in> set bs. block_end s b \<le> unat ?new" using assms(2) u by (simp add: my_inv_def)
    ultimately show ?thesis
      using my_malloc_spec [OF assms(1,2) n room assms(3)] by (intro exI [of _ "?new + MY_BLOCK_SIZE"]) auto
  qed
  moreover have "\<exists>s'. my_malloc fuel sbrk n s = Inr (0, s') \<and> my_head s' = my_head s \<and> my_mem s' = my_mem s"
    if "fst (sbrk (MY_BLOCK_SIZE + n) (my_os s)) = - 1"
    using that by (cases "n = 0") (auto simp: my_malloc_def Let_def split: prod.splits)
  ultimately show ?thesis by (simp add: my_malloc_def)
qed

theorem my_malloc_extends_break_witness:
  "\<exists>p s'. my_malloc 0 small_sbrk 100 (fresh_my_heap 4096) = Inr (p, s') \<and> unat p = 4120"
proof -
  have "my_os (fresh_my_heap 4096) = (4096 :: nat)" by (simp add: fresh_my_heap_def)
  with my_malloc_extends_break [OF small_sbrk_grants fresh_my_inv, of 4096 0 100] show ?thesis by auto
qed

text \<open>
  The addition of the header size is not checked: a request within 24 bytes of the
  greatest \<open>size_t\<close> makes \<open>sbrk\<close> give fewer bytes than the header has, and the answer is a non-null
  pointer behind the break, into memory the process does not have.
\<close>

theorem my_malloc_wraps:
  assumes "sbrk_grants sbrk brk limit" "my_inv brk limit s bs" "length bs \<le> fuel"
    and "2 ^ 64 - 24 \<le> unat n" "brk (my_os s) + 24 \<le> limit"
  shows "\<exists>p s'. my_malloc fuel sbrk n s = Inr (p, s') \<and> p \<noteq> 0 \<and> brk (my_os s') < unat p"
proof -
  have lim: "limit < 2 ^ 63" using assms(1) by (simp add: sbrk_grants_def)
  have un: "unat n < 2 ^ 64" using unsigned_less [of n] by simp
  have w: "unat (MY_BLOCK_SIZE + n) = unat n - (2 ^ 64 - 24)"
  proof -
    have "unat (MY_BLOCK_SIZE + n) = (24 + unat n) mod 2 ^ 64" by (simp add: unat_word_ariths MY_BLOCK_SIZE_def)
    also have "24 + unat n = (unat n - (2 ^ 64 - 24)) + 2 ^ 64" using assms(4) by simp
    also have "\<dots> mod 2 ^ 64 = unat n - (2 ^ 64 - 24)" using un by simp
    finally show ?thesis .
  qed
  have k: "unat n - (2 ^ 64 - 24) < 24" using un by simp
  let ?new = "of_nat (brk (my_os s)) :: u64"
  have u: "unat ?new = brk (my_os s)" using assms(5) lim by (simp add: unat_of_nat take_bit_nat_eq_self)
  have m1: "?new \<noteq> - 1"
  proof
    assume "?new = - 1"
    then have "unat ?new = 2 ^ 64 - 1" by (simp add: unsigned_minus_1_eq_mask mask_eq_exp_minus_1)
    then show False using u assms(5) lim by simp
  qed
  have "brk (my_os s) + unat (MY_BLOCK_SIZE + n) \<le> limit" using w k assms(5) by simp
  then obtain os where os: "sbrk (MY_BLOCK_SIZE + n) (my_os s) = (?new, os)" "brk os = brk (my_os s) + unat (MY_BLOCK_SIZE + n)"
    using assms(1) unfolding sbrk_grants_def by (metis (mono_tags, lifting) case_prod_conv prod.exhaust_sel)
  have p: "unat (?new + MY_BLOCK_SIZE) = brk (my_os s) + 24"
    using assms(5) lim u by (subst unat_plus_u64) (simp_all add: MY_BLOCK_SIZE_def)
  then have nz: "?new + MY_BLOCK_SIZE \<noteq> 0" by auto
  let ?m = "(my_mem s)(?new := \<lparr>my_size = n, my_free_flag = 0, my_next = 0\<rparr>)"
  have "\<exists>z. my_head s \<noteq> 0 \<longrightarrow> my_last fuel ?m (my_head s) = Inr z"
  proof (cases bs rule: rev_cases)
    case (snoc cs z)
    have "?new \<notin> set bs" using my_inv_below [OF assms(2)] u by fastforce
    then have "chain (\<lambda>p. my_next (?m p)) (my_head s) (cs @ [z])"
      using assms(2) snoc by (auto simp: my_inv_def intro: chain_cong)
    with my_last_chain [of ?m "my_head s" cs z fuel] show ?thesis using assms(3) snoc by auto
  qed (use assms(2) in \<open>simp add: my_inv_def\<close>)
  then have "\<exists>s'. my_malloc fuel sbrk n s = Inr (?new + MY_BLOCK_SIZE, s') \<and> my_os s' = os"
    using os(1) m1 assms(4) by (auto simp: my_malloc_def Let_def)
  with os(2) w k p nz show ?thesis by (metis nat_add_left_cancel_less)
qed

theorem my_malloc_wraps_witness:
  "\<exists>p s'. my_malloc 0 small_sbrk (- 24) (fresh_my_heap 4096) = Inr (p, s') \<and> p \<noteq> 0 \<and> my_os s' < unat p"
  using my_malloc_wraps [OF small_sbrk_grants fresh_my_inv, of 4096 0 "- 24"]
  by (simp add: fresh_my_heap_def)

end
