(* ===== verification/Vga.thy ===== *)
theory Vga
  imports Kstring
begin

text \<open>
  The text screen of \<^verbatim>\<open>pelikanOS/src/vga.c\<close>: the cursor, the 25 by 80 cells at 0xB8000, scrolling,
  printing and erasing; and what a reader of the screen sees, text typed on an endless sheet.
\<close>

section \<open>State\<close>

record vga_state =
  vga_row :: int
  vga_col :: int
  vga_addr :: "u16 list"

section \<open>Operations\<close>

text \<open>The inner and the outer loop of \<open>makeSpace\<close>.\<close>

function space_row :: "vga_state \<Rightarrow> vga_state result" where
  "space_row v =
     (if vga_col v < 80 then
        andthen (if vga_row v = 24 then arr_set (vga_addr v) (vga_row v * 80 + vga_col v) 0x20
          else andthen (arr_get (vga_addr v) ((vga_row v + 1) * 80 + vga_col v))
                 (arr_set (vga_addr v) (vga_row v * 80 + vga_col v)))
          (\<lambda>addr. space_row (v\<lparr>vga_addr := addr, vga_col := vga_col v + 1\<rparr>))
      else Inr v)"
  by pat_completeness auto
termination by (relation "measure (\<lambda>v. nat (80 - vga_col v))") auto

declare space_row.simps [simp del]

lemma space_row_keeps_row: "space_row v = Inr w \<Longrightarrow> vga_row w = vga_row v"
proof (induction v arbitrary: w rule: space_row.induct)
  case (1 v)
  from "1.prems" show ?case
    by (subst (asm) space_row.simps) (auto split: if_splits dest!: "1.IH")
qed

function space_rows :: "vga_state \<Rightarrow> vga_state result" where
  "space_rows v =
     (if vga_row v < 25 then andthen (space_row v) (\<lambda>v. space_rows (v\<lparr>vga_row := vga_row v + 1, vga_col := 0\<rparr>))
      else Inr v)"
  by pat_completeness auto
termination by (relation "measure (\<lambda>v. nat (25 - vga_row v))") (auto dest: space_row_keeps_row)

declare space_rows.simps [simp del]

definition makeSpace :: "vga_state \<Rightarrow> vga_state result" where
  "makeSpace v = andthen (space_rows (v\<lparr>vga_row := 0, vga_col := 0\<rparr>)) (\<lambda>v. Inr (v\<lparr>vga_row := 24, vga_col := 0\<rparr>))"

text \<open>\<open>(0x0F << 8) | s\<close> in a cell; \<open>char\<close> is signed.\<close>

definition vga_cell :: "u8 \<Rightarrow> u16" where
  "vga_cell s = 0x0F00 OR scast s"

definition mapToVGA :: "u8 \<Rightarrow> vga_state \<Rightarrow> vga_state result" where
  "mapToVGA s v =
     (if s = 10 \<and> vga_row v \<noteq> 24 then
        andthen (c_int (vga_row v + 1)) (\<lambda>row. Inr (v\<lparr>vga_col := 0, vga_row := row\<rparr>))
      else if s = 10 \<and> vga_row v = 24 then makeSpace v
      else if vga_row v < 25 then
        andthen (if vga_col v < 80
            then andthen (arr_set (vga_addr v) (vga_row v * 80 + vga_col v) (vga_cell s)) (\<lambda>addr. Inr (v\<lparr>vga_addr := addr\<rparr>))
            else Inr v) (\<lambda>v.
        andthen (c_int (vga_col v + 1)) (\<lambda>col. let v = v\<lparr>vga_col := col\<rparr> in
          if vga_col v \<ge> 80 then
            let v = v\<lparr>vga_col := 0, vga_row := vga_row v + 1\<rparr>
            in if vga_row v \<ge> 25 then makeSpace v else Inr v
          else Inr v))
      else Inr v)"

text \<open>The argument is the buffer behind the pointer; a text without its NUL is read past its end.\<close>

fun print :: "u8 list \<Rightarrow> vga_state \<Rightarrow> vga_state result" where
  "print [] v = Inl (Undef Out_Of_Bounds)"
| "print (c # s) v = (if c \<noteq> 0 then andthen (mapToVGA c v) (print s) else Inr v)"

definition blank_here :: "vga_state \<Rightarrow> vga_state result" where
  "blank_here v = andthen (arr_set (vga_addr v) (vga_row v * 80 + vga_col v) 0x20) (\<lambda>addr. Inr (v\<lparr>vga_addr := addr\<rparr>))"

definition removeChar :: "vga_state \<Rightarrow> vga_state result" where
  "removeChar v =
     (if vga_row v > 0 then
        if vga_col v = 0 then blank_here (v\<lparr>vga_row := vga_row v - 1, vga_col := 79\<rparr>)
        else if vga_col v > 0 then blank_here (v\<lparr>vga_col := vga_col v - 1\<rparr>)
        else Inr v
      else if vga_col v > 0 then blank_here (v\<lparr>vga_col := vga_col v - 1\<rparr>)
      else Inr v)"

fun print_at_loop :: "u8 \<Rightarrow> u8 \<Rightarrow> u8 list \<Rightarrow> vga_state \<Rightarrow> vga_state result" where
  "print_at_loop row col [] v = Inl (Undef Out_Of_Bounds)"
| "print_at_loop row col (c # s) v =
     (if c \<noteq> 0 \<and> col < 80 then
        andthen (arr_set (vga_addr v) (uint row * 80 + uint col) (vga_cell c)) (\<lambda>addr.
          print_at_loop row (col + 1) s (v\<lparr>vga_addr := addr\<rparr>))
      else Inr v)"

definition print_at :: "u8 \<Rightarrow> u8 \<Rightarrow> u8 list \<Rightarrow> vga_state \<Rightarrow> vga_state result" where
  "print_at row col str v = (if row \<ge> 25 then Inr v else print_at_loop row col str v)"

section \<open>Scrolling\<close>

text \<open>The first \<open>n\<close> cells of \<open>new\<close>, the others of \<open>old\<close>.\<close>

definition partly :: "nat \<Rightarrow> 'a list \<Rightarrow> 'a list \<Rightarrow> 'a list" where
  "partly n new old = take n new @ drop n old"

lemma partly_length [simp]: "length new = length old \<Longrightarrow> length (partly n new old) = length old"
  by (simp add: partly_def)

lemma partly_nth: "length new = length old \<Longrightarrow> n \<le> i \<Longrightarrow> i < length old \<Longrightarrow> partly n new old ! i = old ! i"
  by (simp add: partly_def nth_append)

lemma partly_step:
  assumes "length new = length old" "n < length old"
  shows "(partly n new old)[n := new ! n] = partly (Suc n) new old"
  using assms by (simp add: partly_def list_update_append take_Suc_conv_app_nth Cons_nth_drop_Suc [symmetric])

definition scrolled :: "u16 list \<Rightarrow> u16 list" where
  "scrolled a = drop 80 a @ replicate 80 0x20"

lemma scrolled_length: "length a = 2000 \<Longrightarrow> length (scrolled a) = 2000"
  by (simp add: scrolled_def)

lemma scrolled_nth: "length a = 2000 \<Longrightarrow> i < 2000 \<Longrightarrow> scrolled a ! i = (if i < 1920 then a ! (80 + i) else 0x20)"
  by (simp add: scrolled_def nth_append)

lemma space_row_spec:
  assumes "length a = 2000" "r < 25" "k \<le> 80"
  shows "space_row \<lparr>vga_row = int r, vga_col = int k, vga_addr = partly (80 * r + k) (scrolled a) a\<rparr> =
    Inr \<lparr>vga_row = int r, vga_col = 80, vga_addr = partly (80 * r + 80) (scrolled a) a\<rparr>"
  using assms(3)
proof (induction "80 - k" arbitrary: k)
  case 0
  then show ?case by (subst space_row.simps) simp
next
  case (Suc n)
  let ?i = "80 * r + k" and ?a = "\<lambda>i. partly i (scrolled a) a"
  have k: "k < 80" using Suc by simp
  then have i: "?i < 2000" using assms(2) by simp
  have l: "length (?a i) = 2000" for i using assms(1) scrolled_length [OF assms(1)] by simp
  have e: "int r * 80 + int k = int ?i" "(int r + 1) * 80 + int k = int (?i + 80)" by simp_all
  have s: "(?a ?i)[?i := scrolled a ! ?i] = ?a (Suc ?i)"
    by (rule partly_step) (use assms(1) i scrolled_length [OF assms(1)] in simp_all)
  have step: "(if int r = 24 then arr_set (?a ?i) (int r * 80 + int k) 0x20
      else andthen (arr_get (?a ?i) ((int r + 1) * 80 + int k)) (arr_set (?a ?i) (int r * 80 + int k))) = Inr (?a (Suc ?i))"
  proof (cases "r = 24")
    case True
    then have "int r = 24" "scrolled a ! ?i = 0x20" using scrolled_nth [OF assms(1) i] by simp_all
    with s show ?thesis unfolding e if_P [OF \<open>int r = 24\<close>] by (simp only: arr_set_nat l i)
  next
    case False
    then have "?i + 80 < 2000" using assms(2) k by simp
    moreover have "?a ?i ! (?i + 80) = scrolled a ! ?i"
      using \<open>?i + 80 < 2000\<close> partly_nth [of "scrolled a" a ?i "?i + 80"] scrolled_nth [OF assms(1) i] assms(1)
        scrolled_length [OF assms(1)] by (simp add: add.commute)
    moreover have "int r \<noteq> 24" using False by simp
    ultimately show ?thesis using s unfolding e by (simp only: if_not_P arr_get_nat arr_set_nat andthen_simps l i simp_thms if_False)
  qed
  have rest: "space_row \<lparr>vga_row = int r, vga_col = int k + 1, vga_addr = ?a (Suc ?i)\<rparr> =
      Inr \<lparr>vga_row = int r, vga_col = 80, vga_addr = ?a (80 * r + 80)\<rparr>"
    using Suc.hyps(1) [of "Suc k"] Suc.hyps(2) k by (simp add: add.commute)
  have "space_row \<lparr>vga_row = int r, vga_col = int k, vga_addr = ?a ?i\<rparr> =
      andthen (if int r = 24 then arr_set (?a ?i) (int r * 80 + int k) 0x20
        else andthen (arr_get (?a ?i) ((int r + 1) * 80 + int k)) (arr_set (?a ?i) (int r * 80 + int k)))
      (\<lambda>addr. space_row \<lparr>vga_row = int r, vga_col = int k + 1, vga_addr = addr\<rparr>)"
    using k by (subst space_row.simps) simp
  then show ?case unfolding step using rest by simp
qed

lemma space_rows_spec:
  assumes "length a = 2000" "r \<le> 25"
  shows "space_rows \<lparr>vga_row = int r, vga_col = 0, vga_addr = partly (80 * r) (scrolled a) a\<rparr> =
    Inr \<lparr>vga_row = 25, vga_col = 0, vga_addr = scrolled a\<rparr>"
  using assms(2)
proof (induction "25 - r" arbitrary: r)
  case 0
  then have "r = 25" by simp
  with assms(1) show ?case by (subst space_rows.simps) (simp add: partly_def scrolled_length)
next
  case (Suc n)
  then have r: "r < 25" by simp
  have "space_rows \<lparr>vga_row = int (Suc r), vga_col = 0, vga_addr = partly (80 * Suc r) (scrolled a) a\<rparr> =
      Inr \<lparr>vga_row = 25, vga_col = 0, vga_addr = scrolled a\<rparr>"
    using Suc.hyps(1) [of "Suc r"] Suc.hyps(2) r by simp
  then show ?case
    using r space_row_spec [OF assms(1) r, of 0] by (subst space_rows.simps) (simp add: add.commute)
qed

lemma makeSpace_spec:
  "length (vga_addr v) = 2000 \<Longrightarrow> makeSpace v = Inr (v\<lparr>vga_row := 24, vga_col := 0, vga_addr := scrolled (vga_addr v)\<rparr>)"
  using space_rows_spec [of "vga_addr v" 0] by (simp add: makeSpace_def partly_def) (cases v; simp)

section \<open>Typing on an endless sheet\<close>

text \<open>
  A sheet of lines of 80 cells without end, the position of the carriage, and the effect of a byte.
\<close>

type_synonym sheet = "(nat \<Rightarrow> u16) \<times> nat"

definition type_byte :: "u8 \<Rightarrow> sheet \<Rightarrow> sheet" where
  "type_byte c s = (case s of (tape, pos) \<Rightarrow>
     if c = 10 then (tape, (pos div 80 + 1) * 80) else (tape(pos := vga_cell c), pos + 1))"

text \<open>The screen displays 25 lines of the sheet from line \<open>ln\<close> on; what is below is blank.\<close>

definition displays :: "vga_state \<Rightarrow> nat \<Rightarrow> sheet \<Rightarrow> bool" where
  "displays v ln s \<longleftrightarrow> (case s of (tape, pos) \<Rightarrow>
     length (vga_addr v) = 2000 \<and> 80 * ln \<le> pos \<and> pos < 80 * ln + 2000 \<and>
     vga_row v = int ((pos - 80 * ln) div 80) \<and> vga_col v = int ((pos - 80 * ln) mod 80) \<and>
     (\<forall>i < 2000. vga_addr v ! i = tape (80 * ln + i)) \<and> (\<forall>j \<ge> 80 * ln + 2000. tape j = 0x20))"

lemma displaysD:
  assumes "displays v ln (tape, pos)"
  obtains q where "length (vga_addr v) = 2000" "pos = 80 * ln + q" "q < 2000" "vga_row v = int (q div 80)"
    "vga_col v = int (q mod 80)" "\<And>i. i < 2000 \<Longrightarrow> vga_addr v ! i = tape (80 * ln + i)"
    "\<And>j. j \<ge> 80 * ln + 2000 \<Longrightarrow> tape j = 0x20"
proof -
  have "80 * ln \<le> pos" using assms by (simp add: displays_def)
  then have "pos = 80 * ln + (pos - 80 * ln)" by simp
  with that [of "pos - 80 * ln"] assms show thesis by (simp add: displays_def)
qed

lemma displaysI:
  assumes "length (vga_addr v) = 2000" "q < 2000" "vga_row v = int (q div 80)" "vga_col v = int (q mod 80)"
    "\<And>i. i < 2000 \<Longrightarrow> vga_addr v ! i = tape (80 * ln + i)" "\<And>j. j \<ge> 80 * ln + 2000 \<Longrightarrow> tape j = 0x20"
  shows "displays v ln (tape, 80 * ln + q)"
  using assms by (simp add: displays_def)

text \<open>Scrolling moves the window down one line.\<close>

lemma displays_scrolled:
  assumes "length a = 2000" "\<And>i. i < 2000 \<Longrightarrow> a ! i = tape (80 * ln + i)" "\<And>j. j \<ge> 80 * ln + 2000 \<Longrightarrow> tape j = 0x20"
  shows "displays \<lparr>vga_row = 24, vga_col = 0, vga_addr = scrolled a\<rparr> (Suc ln) (tape, 80 * ln + 2000)"
proof -
  have "scrolled a ! i = tape (80 * Suc ln + i)" if "i < 2000" for i
    using that assms(2) [of "80 + i"] assms(3) [of "80 * Suc ln + i"] scrolled_nth [OF assms(1) that]
    by (simp add: algebra_simps)
  then have "displays \<lparr>vga_row = 24, vga_col = 0, vga_addr = scrolled a\<rparr> (Suc ln) (tape, 80 * Suc ln + 1920)"
    by (intro displaysI) (use assms(1,3) in \<open>simp_all add: scrolled_length\<close>)
  then show ?thesis by (simp add: algebra_simps)
qed

lemma cursor_index: "q < 2000 \<Longrightarrow> int (q div 80) * 80 + int (q mod 80) = int q"
  by (metis div_mult_mod_eq of_nat_add of_nat_mult of_nat_numeral)

lemma type_on_screen:
  assumes "displays v ln (tape, pos)" "c \<noteq> 0"
  shows "\<exists>v' ln'. mapToVGA c v = Inr v' \<and> displays v' ln' (type_byte c (tape, pos)) \<and> (ln' = ln \<or> vga_row v' = 24)"
proof -
  from assms(1) obtain q where v: "length (vga_addr v) = 2000" "pos = 80 * ln + q" "q < 2000" "vga_row v = int (q div 80)"
    "vga_col v = int (q mod 80)" "\<And>i. i < 2000 \<Longrightarrow> vga_addr v ! i = tape (80 * ln + i)"
    "\<And>j. j \<ge> 80 * ln + 2000 \<Longrightarrow> tape j = 0x20" by (rule displaysD) blast
  have row: "q div 80 < 25" using v(3) by simp
  let ?tape = "tape(pos := vga_cell c)" and ?a = "(vga_addr v)[q := vga_cell c]"
  have tape: "?a ! i = ?tape (80 * ln + i)" if "i < 2000" for i
    using v(1,2,6) that by (simp add: nth_list_update)
  have below: "?tape j = 0x20" if "j \<ge> 80 * ln + 2000" for j using v(2,3,7) that by simp
  have set: "arr_set (vga_addr v) (vga_row v * 80 + vga_col v) (vga_cell c) = Inr ?a"
    using v(1,3,4,5) cursor_index [OF v(3)] by simp
  consider (newline) "c = 10" "q div 80 < 24" | (newline_last) "c = 10" "q div 80 = 24" | (inside) "c \<noteq> 10" "q mod 80 < 79"
    | (wrap) "c \<noteq> 10" "q mod 80 = 79" "q div 80 < 24" | (wrap_last) "c \<noteq> 10" "q mod 80 = 79" "q div 80 = 24"
    using row by linarith
  then show ?thesis
  proof cases
    case newline
    have t: "type_byte c (tape, pos) = (tape, 80 * ln + (q div 80 + 1) * 80)"
      using newline v(2) by (simp add: type_byte_def algebra_simps)
    have "mapToVGA c v = Inr (v\<lparr>vga_col := 0, vga_row := int (q div 80 + 1)\<rparr>)"
      using newline v(4) by (simp add: mapToVGA_def in_int_def)
    moreover have "displays (v\<lparr>vga_col := 0, vga_row := int (q div 80 + 1)\<rparr>) ln (tape, 80 * ln + (q div 80 + 1) * 80)"
      by (rule displaysI) (use newline v in auto)
    ultimately show ?thesis unfolding t by blast
  next
    case newline_last
    have "type_byte c (tape, pos) = (tape, 80 * ln + 2000)" using newline_last v(2) by (simp add: type_byte_def)
    moreover have "mapToVGA c v = Inr (v\<lparr>vga_row := 24, vga_col := 0, vga_addr := scrolled (vga_addr v)\<rparr>)"
      using newline_last v(1,4) by (simp add: mapToVGA_def makeSpace_spec)
    ultimately show ?thesis using displays_scrolled [OF v(1,6,7)] by (cases v) fastforce
  next
    case inside
    have "q \<noteq> 1999" using inside(2) by auto
    have "type_byte c (tape, pos) = (?tape, 80 * ln + (q + 1))" using inside v(2) by (simp add: type_byte_def)
    moreover have "mapToVGA c v = Inr (v\<lparr>vga_addr := ?a, vga_col := int (q mod 80) + 1\<rparr>)"
      using inside row v(4,5) set by (simp add: mapToVGA_def in_int_def Let_def)
    moreover have "(q + 1) div 80 = q div 80" "(q + 1) mod 80 = q mod 80 + 1" using inside(2) by (simp_all add: div_Suc mod_Suc)
    then have "displays (v\<lparr>vga_addr := ?a, vga_col := int (q mod 80) + 1\<rparr>) ln (?tape, 80 * ln + (q + 1))"
      by (intro displaysI) (use inside v tape below \<open>q \<noteq> 1999\<close> in auto)
    ultimately show ?thesis by fastforce
  next
    case wrap
    have "type_byte c (tape, pos) = (?tape, 80 * ln + (q + 1))" using wrap v(2) by (simp add: type_byte_def)
    moreover have "mapToVGA c v = Inr (v\<lparr>vga_addr := ?a, vga_col := 0, vga_row := int (q div 80) + 1\<rparr>)"
      using wrap v(4,5) set by (simp add: mapToVGA_def in_int_def Let_def)
    moreover have "(q + 1) div 80 = q div 80 + 1" "(q + 1) mod 80 = 0" using wrap(2) by (simp_all add: div_Suc mod_Suc)
    then have "displays (v\<lparr>vga_addr := ?a, vga_col := 0, vga_row := int (q div 80) + 1\<rparr>) ln (?tape, 80 * ln + (q + 1))"
      by (intro displaysI) (use wrap v tape below in auto)
    ultimately show ?thesis by fastforce
  next
    case wrap_last
    have "q = 1999" using wrap_last div_mult_mod_eq [of q 80] by simp
    then have "type_byte c (tape, pos) = (?tape, 80 * ln + 2000)" using wrap_last v(2) by (simp add: type_byte_def)
    moreover have "mapToVGA c v = Inr (v\<lparr>vga_row := 24, vga_col := 0, vga_addr := scrolled ?a\<rparr>)"
      using wrap_last v(1,4,5) set by (simp add: mapToVGA_def in_int_def Let_def makeSpace_spec)
    ultimately show ?thesis using displays_scrolled [of ?a ?tape ln, OF _ tape below] v(1) by (cases v) fastforce
  qed
qed

lemma print_types:
  assumes "displays v ln s" "0 \<notin> set ws"
  shows "\<exists>v' ln'. print (ws @ 0 # rest) v = Inr v' \<and> displays v' ln' (fold type_byte ws s)"
  using assms
proof (induction ws arbitrary: v ln s)
  case (Cons c ws)
  obtain tape pos where s: "s = (tape, pos)" by (cases s)
  from Cons.prems type_on_screen [of v ln tape pos c] obtain v1 ln1 where
    "mapToVGA c v = Inr v1" "displays v1 ln1 (type_byte c s)" unfolding s by auto
  with Cons.IH [of v1 ln1] Cons.prems(2) show ?case by auto
qed auto

text \<open>Erasing goes back one cell, up to the corner of the screen.\<close>

lemma removeChar_back:
  assumes "displays v ln (tape, pos)"
  shows "\<exists>v'. removeChar v = Inr v' \<and>
    displays v' ln (if pos = 80 * ln then (tape, pos) else (tape(pos - 1 := 0x20), pos - 1))"
proof -
  from assms obtain q where v: "length (vga_addr v) = 2000" "pos = 80 * ln + q" "q < 2000" "vga_row v = int (q div 80)"
    "vga_col v = int (q mod 80)" "\<And>i. i < 2000 \<Longrightarrow> vga_addr v ! i = tape (80 * ln + i)"
    "\<And>j. j \<ge> 80 * ln + 2000 \<Longrightarrow> tape j = 0x20" by (rule displaysD) blast
  show ?thesis
  proof (cases "q = 0")
    case True
    then show ?thesis using assms v by (auto simp: removeChar_def)
  next
    case False
    define p where "p = q - 1"
    have q: "q = Suc p" "p < 2000" using False v(3) by (simp_all add: p_def)
    let ?v = "v\<lparr>vga_row := int (p div 80), vga_col := int (p mod 80)\<rparr>"
    let ?a = "(vga_addr v)[p := 0x20]"
    have "removeChar v = blank_here ?v"
    proof (cases "q mod 80 = 0")
      case True
      then have "q div 80 = Suc (p div 80)" "p mod 80 = 79" using q(1) by (simp_all add: div_Suc mod_Suc split: if_splits)
      with True v(4,5) show ?thesis by (simp add: removeChar_def)
    next
      case c: False
      then have "q div 80 = p div 80" "q mod 80 = Suc (p mod 80)" using q(1) by (simp_all add: div_Suc mod_Suc split: if_splits)
      with v(4,5) show ?thesis by (cases v) (auto simp: removeChar_def)
    qed
    also have "\<dots> = Inr (?v\<lparr>vga_addr := ?a\<rparr>)"
      using v(1) q(2) cursor_index [OF q(2)] by (simp add: blank_here_def)
    finally have "removeChar v = Inr (?v\<lparr>vga_addr := ?a\<rparr>)" .
    moreover have "displays (?v\<lparr>vga_addr := ?a\<rparr>) ln (tape(pos - 1 := 0x20), 80 * ln + p)"
      by (rule displaysI) (use v q in \<open>auto simp: nth_list_update\<close>)
    ultimately show ?thesis using False v(2) q by auto
  qed
qed

section \<open>Properties\<close>

text \<open>
  Property C38. Printing any text never leaves the video memory and shows what typing the text on an
  endless sheet gives: lines wrap after 80 cells, a newline goes to the start of the next line, and
  the screen is the window of 25 lines that holds the cursor, with blank lines appearing below.
\<close>

theorem print_shows_text:
  assumes "displays v ln s" "0 \<notin> set ws"
  shows "\<exists>v' ln'. print (ws @ 0 # rest) v = Inr v' \<and> displays v' ln' (fold type_byte ws s)"
  by (rule print_types [OF assms])

definition blank_screen :: vga_state where
  "blank_screen = \<lparr>vga_row = 0, vga_col = 0, vga_addr = replicate 2000 0x20\<rparr>"

lemma blank_screen_displays: "displays blank_screen 0 ((\<lambda>_. 0x20), 0)"
  by (simp add: displays_def blank_screen_def)

theorem print_shows_text_witness:
  "\<exists>v ln. print (text_bytes ''ok'' @ 10 # text_bytes ''!'' @ [0]) blank_screen = Inr v \<and>
    displays v ln ((\<lambda>_. 0x20)(0 := 0x0F6F, 1 := 0x0F6B, 80 := 0x0F21), 81)"
proof -
  let ?ws = "text_bytes ''ok'' @ [10] @ text_bytes ''!''"
  have "0 \<notin> set ?ws" by (simp add: text_bytes_def)
  moreover have "fold type_byte ?ws ((\<lambda>_. 0x20), 0) = ((\<lambda>_. 0x20)(0 := 0x0F6F, 1 := 0x0F6B, 80 := 0x0F21), 81)"
    by (simp add: type_byte_def text_bytes_def vga_cell_def)
  ultimately show ?thesis using print_shows_text [OF blank_screen_displays, of ?ws "[]"] by simp
qed

text \<open>
  Erasing undoes typing, also across the wrap of a line and a scroll: after a byte other
  than newline has been printed, \<open>removeChar\<close> brings the cursor back to where it was, and the cell is
  blank.
\<close>

theorem erase_undoes_typing:
  assumes "displays v ln (tape, pos)" "c \<noteq> 0" "c \<noteq> 10"
  shows "\<exists>v1 v2 ln'. mapToVGA c v = Inr v1 \<and> removeChar v1 = Inr v2 \<and> displays v2 ln' (tape(pos := 0x20), pos)"
proof -
  obtain v1 ln1 where v1: "mapToVGA c v = Inr v1" "displays v1 ln1 (tape(pos := vga_cell c), pos + 1)"
    "ln1 = ln \<or> vga_row v1 = 24"
    using type_on_screen [OF assms(1,2)] assms(3) by (auto simp: type_byte_def)
  have "pos + 1 \<noteq> 80 * ln1"
  proof
    assume e: "pos + 1 = 80 * ln1"
    then have "vga_row v1 = 0" using v1(2) by (simp add: displays_def)
    then show False using v1(3) e assms(1) by (auto simp: displays_def)
  qed
  with removeChar_back [OF v1(2)] v1(1) show ?thesis by auto
qed

theorem erase_undoes_typing_witness:
  "\<exists>v1 v2 ln'. mapToVGA 0x41 blank_screen = Inr v1 \<and> removeChar v1 = Inr v2 \<and> displays v2 ln' ((\<lambda>_. 0x20)(0 := 0x20), 0)"
  by (rule erase_undoes_typing [OF blank_screen_displays]) simp_all

end
