(* ===== verification/Tables.thy ===== *)
theory Tables
  imports Prelude
begin

text \<open>
  What the kernel tells the processor and the interrupt controllers at start: the descriptor tables of
  \<^verbatim>\<open>gdt.c\<close> and \<^verbatim>\<open>idt.c\<close>, and the port writes of \<^verbatim>\<open>pic.c\<close> and \<open>pit_init\<close> of \<^verbatim>\<open>kernel.c\<close>.
\<close>

section \<open>Segment descriptors\<close>

record gdt_entry =
  gd_limit :: u16
  gd_base_low :: u16
  gd_base_middle :: u8
  gd_access :: u8
  gd_granularity :: u8
  gd_base_high :: u8

definition gdt_encode :: "u32 \<Rightarrow> u32 \<Rightarrow> u8 \<Rightarrow> u8 \<Rightarrow> gdt_entry" where
  "gdt_encode base limit access flags = \<lparr>
     gd_limit = ucast (limit AND 0xFFFF),
     gd_base_low = ucast (base AND 0xFFFF),
     gd_base_middle = ucast (drop_bit 16 base AND 0x00FF),
     gd_access = access,
     gd_granularity = push_bit 4 (flags AND 0x0F) OR ucast (drop_bit 16 limit AND 0x0F),
     gd_base_high = ucast (drop_bit 24 base AND 0x00FF)\<rparr>"

definition gdt_set_entry :: "int \<Rightarrow> u32 \<Rightarrow> u32 \<Rightarrow> u8 \<Rightarrow> u8 \<Rightarrow> gdt_entry list \<Rightarrow> gdt_entry list result" where
  "gdt_set_entry index base limit access flags gdt = arr_set gdt index (gdt_encode base limit access flags)"

text \<open>The table and the limit of \<open>gdt_ptr\<close>; its base is the address of the table.\<close>

definition gdt_init :: "gdt_entry list \<Rightarrow> (gdt_entry list \<times> u16) result" where
  "gdt_init gdt =
     andthen (gdt_set_entry 0 0 0 0 0 gdt) (\<lambda>gdt.
     andthen (gdt_set_entry 1 0 0xFFFFF 0x9A 0x0C gdt) (\<lambda>gdt.
     andthen (gdt_set_entry 2 0 0xFFFFF 0x92 0x0C gdt) (\<lambda>gdt.
       Inr (gdt, 8 * 3 - 1))))"

section \<open>Interrupt gates\<close>

record idt_entry =
  id_handler_low :: u16
  id_segment_selector :: u16
  id_zero :: u8
  id_type :: u8
  id_handler_high :: u16

definition idt_set_entry :: "int \<Rightarrow> u32 \<Rightarrow> u16 \<Rightarrow> u8 \<Rightarrow> u8 \<Rightarrow> idt_entry list \<Rightarrow> idt_entry list result" where
  "idt_set_entry index handler segment_selector zero type idt = arr_set idt index \<lparr>
     id_handler_low = ucast (handler AND 0xFFFF),
     id_segment_selector = segment_selector,
     id_zero = zero,
     id_type = type,
     id_handler_high = ucast (drop_bit 16 handler AND 0xFFFF)\<rparr>"

text \<open>\<open>isr_table\<close> holds the addresses of the stubs of \<^verbatim>\<open>isr_asm.asm\<close>.\<close>

definition idt_init :: "u32 list \<Rightarrow> idt_entry list \<Rightarrow> (idt_entry list \<times> u16) result" where
  "idt_init isr_table idt =
     andthen (each (\<lambda>i idt. andthen (arr_get isr_table (int i)) (\<lambda>h. idt_set_entry (int i) h 0x08 0 0x8E idt)) [0..<48] idt)
       (\<lambda>idt. Inr (idt, 8 * 256 - 1))"

section \<open>Port writes\<close>

text \<open>\<open>outb\<close>: the writes in their order.\<close>

type_synonym ports = "(u16 \<times> u8) list"

definition outb :: "u16 \<Rightarrow> u8 \<Rightarrow> ports \<Rightarrow> ports" where
  "outb port byte_value ports = ports @ [(port, byte_value)]"

definition pic_remap :: "ports \<Rightarrow> ports" where
  "pic_remap = fold (\<lambda>(port, b). outb port b)
     [(0x20, 0x11), (0xA0, 0x11),
      (0x21, 0x20), (0xA1, 0x28),
      (0x21, 0x04), (0xA1, 0x02),
      (0x21, 0x01), (0xA1, 0x01),
      (0x21, 0x00), (0xA1, 0x00)]"

definition pit_init :: "u32 \<Rightarrow> ports \<Rightarrow> ports result" where
  "pit_init freq ports =
     (if freq = 0 then Inl (Exit Division_By_Zero)
      else let divisor = 1193182 div freq
           in Inr (outb 0x40 (ucast (drop_bit 8 divisor AND 0xFF)) (outb 0x40 (ucast (divisor AND 0xFF)) (outb 0x43 0x36 ports))))"

section \<open>How the processor reads them\<close>

text \<open>The fields of a descriptor as the processor puts them together.\<close>

definition segment_base :: "gdt_entry \<Rightarrow> u32" where
  "segment_base e = ucast (gd_base_low e) OR push_bit 16 (ucast (gd_base_middle e)) OR push_bit 24 (ucast (gd_base_high e))"

definition segment_limit :: "gdt_entry \<Rightarrow> u32" where
  "segment_limit e = ucast (gd_limit e) OR push_bit 16 (ucast (gd_granularity e AND 0x0F))"

text \<open>With the granularity bit the limit counts pages.\<close>

definition segment_last :: "gdt_entry \<Rightarrow> u32" where
  "segment_last e = (if bit (gd_granularity e) 7 then push_bit 12 (segment_limit e) OR 0xFFF else segment_limit e)"

definition gate_handler :: "idt_entry \<Rightarrow> u32" where
  "gate_handler e = ucast (id_handler_low e) OR push_bit 16 (ucast (id_handler_high e))"

lemma masks:
  "(0xFFFF :: u32) = mask 16" "(0xFF :: u32) = mask 8" "(0x0F :: u32) = mask 4" "(0x0F :: u8) = mask 4"
  by (simp_all add: mask_eq_exp_minus_1)

lemma segment_base_encode: "segment_base (gdt_encode base limit access flags) = base"
proof (rule bit_word_eqI)
  fix n
  assume "n < LENGTH(32)"
  then have "n < 16 \<or> 16 \<le> n \<and> n < 24 \<or> 24 \<le> n \<and> n < 32" by auto
  then show "bit (segment_base (gdt_encode base limit access flags)) n = bit base n"
    by (elim disjE conjE) (simp_all add: segment_base_def gdt_encode_def masks bit_simps less_diff_conv2 le_diff_conv2)
qed

lemma limit_bits:
  assumes "limit < (2 ^ 20 :: u32)" "bit limit n"
  shows "n < 20"
proof -
  have "unat limit < 2 ^ 20" using assms(1) by (simp add: word_less_nat_alt)
  then have "take_bit 20 limit = limit"
    by (simp add: word_unat_eq_iff unsigned_take_bit_eq take_bit_nat_eq_self)
  then show ?thesis using assms(2) by (metis bit_take_bit_iff)
qed

lemma segment_limit_encode:
  assumes "limit < 2 ^ 20"
  shows "segment_limit (gdt_encode base limit access flags) = limit"
proof (rule bit_word_eqI)
  fix n
  assume "n < LENGTH(32)"
  then have "n < 16 \<or> 16 \<le> n \<and> n < 20 \<or> 20 \<le> n \<and> n < 32 \<and> \<not> bit limit n" using limit_bits [OF assms, of n] by auto
  then show "bit (segment_limit (gdt_encode base limit access flags)) n = bit limit n"
    by (elim disjE conjE) (simp_all add: segment_limit_def gdt_encode_def masks bit_simps less_diff_conv2 le_diff_conv2)
qed

lemma gate_handler_encode:
  "gate_handler \<lparr>id_handler_low = ucast (h AND 0xFFFF), id_segment_selector = s, id_zero = z, id_type = t,
     id_handler_high = ucast (drop_bit 16 h AND 0xFFFF)\<rparr> = h"
proof (rule bit_word_eqI)
  fix n
  assume "n < LENGTH(32)"
  then have "n < 16 \<or> 16 \<le> n \<and> n < 32" by auto
  then show "bit (gate_handler \<lparr>id_handler_low = ucast (h AND 0xFFFF), id_segment_selector = s, id_zero = z, id_type = t,
     id_handler_high = ucast (drop_bit 16 h AND 0xFFFF)\<rparr>) n = bit h n"
    by (elim disjE conjE) (simp_all add: gate_handler_def masks bit_simps less_diff_conv2 le_diff_conv2)
qed

lemma gdt_init_spec:
  assumes "length gdt = 3"
  shows "\<exists>gdt'. gdt_init gdt = Inr (gdt', 23) \<and> length gdt' = 3 \<and>
       (\<forall>i \<in> {1, 2}. segment_base (gdt' ! i) = 0 \<and> segment_last (gdt' ! i) = - 1)"
proof -
  obtain a b c where gdt: "gdt = [a, b, c]" using assms by (auto simp: numeral_eq_Suc length_Suc_conv)
  show ?thesis
    unfolding gdt by (simp add: gdt_init_def gdt_set_entry_def segment_base_encode segment_last_def segment_limit_encode)
      (simp add: gdt_encode_def)
qed

text \<open>The gate of vector \<open>i\<close> leads to \<open>h\<close>: present, ring 0, interrupts off, kernel code segment.\<close>

definition gate_to :: "idt_entry \<Rightarrow> u32 \<Rightarrow> bool" where
  "gate_to e h \<longleftrightarrow> gate_handler e = h \<and> id_segment_selector e = 0x08 \<and> id_type e = 0x8E \<and> id_zero e = 0"

lemma gate_to_stub: "gate_to \<lparr>id_handler_low = ucast (h AND 0xFFFF), id_segment_selector = 0x08, id_zero = 0, id_type = 0x8E,
     id_handler_high = ucast (drop_bit 16 h AND 0xFFFF)\<rparr> h"
  by (simp add: gate_to_def gate_handler_encode)

lemma idt_init_spec:
  assumes "length idt = 256" "48 \<le> length isr_table"
  shows "\<exists>idt'. idt_init isr_table idt = Inr (idt', 2047) \<and> length idt' = 256 \<and>
    (\<forall>i < 256. if i < 48 then gate_to (idt' ! i) (isr_table ! i) else idt' ! i = idt ! i)"
proof -
  let ?f = "\<lambda>i idt. andthen (arr_get isr_table (int i)) (\<lambda>h. idt_set_entry (int i) h 0x08 0 0x8E idt)"
  have "\<exists>idt'. each ?f [0..<n] idt = Inr idt' \<and> length idt' = 256 \<and>
       (\<forall>i < 256. if i < n then gate_to (idt' ! i) (isr_table ! i) else idt' ! i = idt ! i)" if "n \<le> 48" for n
    using that
  proof (induction n)
    case (Suc n)
    then obtain idt' where "each ?f [0..<n] idt = Inr idt'" "length idt' = 256"
       "\<forall>i < 256. if i < n then gate_to (idt' ! i) (isr_table ! i) else idt' ! i = idt ! i" by auto
    with Suc.prems assms(2) show ?case
      by (auto simp: each_append idt_set_entry_def gate_to_stub nth_list_update less_Suc_eq)
  qed (use assms(1) in simp)
  from this [of 48] show ?thesis by (auto simp: idt_init_def)
qed

section \<open>Properties\<close>

text \<open>
  Property C39. Encoding loses nothing: a segment descriptor gives back every base and every limit
  below 1 MB in its units, and after \<open>idt_init\<close> each of the first 48 vectors, and no other, leads to its stub through
  a present ring 0 interrupt gate in the kernel code segment; the kernel's two segments cover the
  whole 4 GB from address 0.
\<close>

theorem tables_encode:
  assumes "length gdt = 3" "length idt = 256" "48 \<le> length isr_table" "limit < 2 ^ 20"
  shows "segment_base (gdt_encode base limit access flags) = base \<and>
    segment_limit (gdt_encode base limit access flags) = limit \<and>
    (\<exists>gdt'. gdt_init gdt = Inr (gdt', 23) \<and> length gdt' = 3 \<and>
       (\<forall>i \<in> {1, 2}. segment_base (gdt' ! i) = 0 \<and> segment_last (gdt' ! i) = - 1)) \<and>
    (\<exists>idt'. idt_init isr_table idt = Inr (idt', 2047) \<and> length idt' = 256 \<and>
       (\<forall>i < 256. if i < 48 then gate_to (idt' ! i) (isr_table ! i) else idt' ! i = idt ! i))"
  using segment_base_encode segment_limit_encode [OF assms(4)] gdt_init_spec [OF assms(1)] idt_init_spec [OF assms(2,3)]
  by blast

theorem tables_encode_witness:
  "\<exists>idt'. idt_init (map of_nat [0..<48]) (replicate 256 \<lparr>id_handler_low = 0, id_segment_selector = 0, id_zero = 0, id_type = 0,
     id_handler_high = 0\<rparr>) = Inr (idt', 2047) \<and> gate_to (idt' ! 33) 33"
proof -
  let ?e = "gdt_encode 0 0 0 0" and ?idt = "replicate 256 \<lparr>id_handler_low = 0, id_segment_selector = 0, id_zero = 0, id_type = 0, id_handler_high = 0\<rparr>"
  have "\<exists>idt'. idt_init (map of_nat [0..<48]) ?idt = Inr (idt', 2047) \<and> length idt' = 256 \<and>
       (\<forall>i < 256. if i < 48 then gate_to (idt' ! i) (map of_nat [0..<48] ! i) else idt' ! i = ?idt ! i)"
    using tables_encode [of "[?e, ?e, ?e]" ?idt "map of_nat [0..<48]" 0 0 0 0] by simp
  then obtain idt' where "idt_init (map of_nat [0..<48]) ?idt = Inr (idt', 2047)"
    "\<forall>i < 256. if i < 48 then gate_to (idt' ! i) (map of_nat [0..<48] ! i) else idt' ! i = ?idt ! i" by blast
  from this(1) this(2) [rule_format, of 33] show ?thesis by simp
qed

end
