(* ===== verification/System.thy ===== *)
theory System
  imports Scheduler Keyboard Vga Tables
begin

text \<open>
  The parts of the kernel that use the others: the interrupt handler of \<^verbatim>\<open>isr.c\<close>, the clock task of
  \<^verbatim>\<open>clock.c\<close>, the task listing of \<^verbatim>\<open>scheduler.c\<close> and the shell of \<^verbatim>\<open>shell.c\<close>. Each operation is
  modelled as it runs when nothing preempts it.
\<close>

section \<open>State\<close>

text \<open>
  \<open>s_arg\<close> is \<open>spawn_arg\<close>, \<open>s_next_id\<close> is \<open>next_spawn_id\<close>; \<open>s_line\<close> and \<open>s_index\<close> are the locals
  \<open>linebuf\<close> and \<open>linebuf_index\<close> of \<open>shell_run\<close>.
\<close>

record system =
  s_kernel :: kernel
  s_rb :: RB
  s_vga :: vga_state
  s_ticks :: u32
  s_ports :: ports
  s_arg :: "u8 list"
  s_next_id :: int
  s_line :: "u8 list"
  s_index :: u32

definition on_vga :: "(vga_state \<Rightarrow> vga_state result) \<Rightarrow> system \<Rightarrow> system result" where
  "on_vga f s = andthen (f (s_vga s)) (\<lambda>v. Inr (s\<lparr>s_vga := v\<rparr>))"

text \<open>\<open>print\<close> of a buffer, of a literal and of a number formatted by \<open>itoa\<close> into \<open>char buf[len]\<close>.\<close>

definition put_buf :: "u8 list \<Rightarrow> system \<Rightarrow> system result" where
  "put_buf buf = on_vga (print buf)"

definition put :: "string \<Rightarrow> system \<Rightarrow> system result" where
  "put str = put_buf (text_bytes str @ [0])"

definition put_number :: "nat \<Rightarrow> u32 \<Rightarrow> system \<Rightarrow> system result" where
  "put_number len num s = andthen (itoa num (replicate len 0)) (\<lambda>buf. put_buf buf s)"

text \<open>What the heap has printed appears on the screen.\<close>

definition flush_messages :: "system \<Rightarrow> system result" where
  "flush_messages s =
     (let k = s_kernel s
      in put_buf (h_console (k_heap k) @ [0]) (s\<lparr>s_kernel := k\<lparr>k_heap := (k_heap k)\<lparr>h_console := []\<rparr>\<rparr>\<rparr>))"

section \<open>\<open>isr_handler\<close>\<close>

record interrupt_frame =
  f_ir_num :: u32
  f_err_code :: u32
  f_eip :: u32

text \<open>How the handler ends: back to the interrupted code, in \<open>yield\<close>, or in its \<open>hlt\<close> loop.\<close>

datatype isr_exit = Returns | Yields | Stops

definition exception_names :: "string list" where
  "exception_names = [''Divide by zero'', ''Debug'', ''NMI'', ''Breakpoint'', ''Overflow'', ''Bound range'', ''Invalid opcode'',
     ''Device not available'', ''Double fault'', ''Coprocessor overrun'', ''Invalid TSS'', ''Segment not present'',
     ''Stack-segment fault'', ''General protection'', ''Page fault'']"

definition put_field :: "string \<Rightarrow> u32 \<Rightarrow> system \<Rightarrow> system result" where
  "put_field name num s =
     andthen (put name s) (\<lambda>s. andthen (put_number 32 num s) (\<lambda>s. put ''\<newline>'' s))"

text \<open>\<open>scancode\<close> is what port 0x60 gives, \<open>cr2\<close> the faulting address.\<close>

definition isr_handler :: "interrupt_frame \<Rightarrow> u8 \<Rightarrow> u32 \<Rightarrow> system \<Rightarrow> (isr_exit \<times> system) result" where
  "isr_handler frame scancode cr2 s =
     (if f_ir_num frame = 32 then
        Inr (Yields, s\<lparr>s_ticks := s_ticks s + 1, s_ports := outb 0x20 0x20 (s_ports s)\<rparr>)
      else if f_ir_num frame = 33 then
        Inr (Returns, s\<lparr>s_rb := keyboard_handler scancode (s_rb s), s_ports := outb 0x20 0x20 (s_ports s)\<rparr>)
      else if f_ir_num frame = 14 then
        andthen (put ''PAGE FAULT\<newline>'' s) (\<lambda>s.
        andthen (put_field ''addr: '' cr2 s) (\<lambda>s.
        andthen (put_field ''eip: '' (f_eip frame) s) (\<lambda>s.
        andthen (put_field ''err: '' (f_err_code frame) s) (\<lambda>s. Inr (Stops, s)))))
      else if f_ir_num frame < 32 then
        andthen (put ''EXCEPTION: '' s) (\<lambda>s.
        andthen (if f_ir_num frame < 15 then put (exception_names ! unat (f_ir_num frame)) s else put ''reserved/unknown'' s) (\<lambda>s.
        andthen (put ''\<newline>'' s) (\<lambda>s.
        andthen (put_field ''vec: '' (f_ir_num frame) s) (\<lambda>s.
        andthen (put_field ''eip: '' (f_eip frame) s) (\<lambda>s.
        andthen (put_field ''err: '' (f_err_code frame) s) (\<lambda>s. Inr (Stops, s)))))))
      else Inr (Returns, s))"

section \<open>\<open>clock_thread\<close>\<close>

text \<open>One round of its loop.\<close>

definition clock_round :: "system \<Rightarrow> system result" where
  "clock_round s =
     andthen (itoa (s_ticks s) (replicate 16 0)) (\<lambda>buf.
     andthen (on_vga (print_at 0 68 (text_bytes ''ticks:        '' @ [0])) s) (\<lambda>s.
       on_vga (print_at 0 74 buf) s))"

section \<open>\<open>scheduler_list_tasks\<close>\<close>

definition state_name :: "u8 \<Rightarrow> string" where
  "state_name st =
     (if st = TASK_BLOCKED then ''BLOCKED''
      else if st = TASK_READY then ''READY''
      else if st = TASK_RUNNING then ''RUNNING''
      else if st = TASK_DEAD then ''DEAD''
      else ''?'')"

fun list_loop :: "nat \<Rightarrow> u32 \<Rightarrow> system \<Rightarrow> system result" where
  "list_loop 0 spawnpoint s = Inl Out_Of_Fuel"
| "list_loop (Suc n) spawnpoint s =
     (let task = k_tasks (s_kernel s) spawnpoint in
      andthen (put ''id: '' s) (\<lambda>s.
      andthen (put_number 32 (t_id task) s) (\<lambda>s.
      andthen (put ''  state: '' s) (\<lambda>s.
      andthen (put (state_name (t_state task)) s) (\<lambda>s.
      andthen (put ''\<newline>'' s) (\<lambda>s.
        if t_next task \<noteq> k_current (s_kernel s) then list_loop n (t_next task) s else Inr s))))))"

definition scheduler_list_tasks :: "nat \<Rightarrow> system \<Rightarrow> system result" where
  "scheduler_list_tasks n s =
     (if k_last (s_kernel s) = 0 then put ''no tasks\<newline>'' s
      else list_loop n (k_current (s_kernel s)) s)"

end
