(* ===== verification/Shell.thy ===== *)
theory Shell
  imports System
begin

text \<open>
  The shell of \<^verbatim>\<open>pelikanOS/src/shell.c\<close>: its commands, the splitting of a line, and the editing of a
  line key by key. \<open>n\<close> is the fuel of the heap and of the task listing; \<open>counter\<close> and \<open>once\<close> are
  the addresses of \<open>worker_counter\<close> and \<open>worker_once\<close>.
\<close>

section \<open>Commands\<close>

datatype command = Cmd_Help | Cmd_Clear | Cmd_Ps | Cmd_Mem | Cmd_Spawn

definition commands :: "(string \<times> command) list" where
  "commands = [(''help'', Cmd_Help), (''clear'', Cmd_Clear), (''ps'', Cmd_Ps), (''mem'', Cmd_Mem), (''spawn'', Cmd_Spawn)]"

definition spawnables :: "u32 \<Rightarrow> u32 \<Rightarrow> (string \<times> u32) list" where
  "spawnables counter once = [(''counter'', counter), (''once'', once)]"

definition cmd_help :: "system \<Rightarrow> system result" where
  "cmd_help s =
     andthen (put ''commands:\<newline>'' s) (\<lambda>s.
     andthen (each (\<lambda>(name, _) s. andthen (put ''  '' s) (\<lambda>s. andthen (put name s) (put ''\<newline>''))) commands s) (\<lambda>s.
     andthen (put ''spawnable: '' s) (\<lambda>s.
     andthen (each (\<lambda>(name, _) s. andthen (put name s) (put '' '')) (spawnables 0 0) s) (put ''\<newline>''))))"

definition cmd_clear :: "system \<Rightarrow> system result" where
  "cmd_clear = each (\<lambda>_. on_vga removeChar) [0..<80 * 25]"

definition cmd_mem :: "system \<Rightarrow> system result" where
  "cmd_mem s =
     andthen (pmm_free_count (h_bitmap (k_heap (s_kernel s)))) (\<lambda>count.
     andthen (itoa count (replicate 32 0)) (\<lambda>buf.
     andthen (put ''free frames: '' s) (\<lambda>s.
     andthen (put_buf buf s) (put ''\<newline>''))))"

text \<open>The loop over \<open>spawnables\<close>, and the end of \<open>cmd_spawn\<close> when no name is equal.\<close>

fun spawn_named :: "nat \<Rightarrow> (string \<times> u32) list \<Rightarrow> system \<Rightarrow> system result" where
  "spawn_named n [] s =
     andthen (put ''no such task: '' s) (\<lambda>s. andthen (put_buf (s_arg s) s) (put ''\<newline>''))"
| "spawn_named n ((name, fn) # rest) s =
     andthen (strcmp (s_arg s) (text_bytes name @ [0])) (\<lambda>d.
       if d = 0 then
         andthen (create_task n fn (of_int (s_next_id s)) 0 (s_kernel s)) (\<lambda>(_, k).
         andthen (flush_messages (s\<lparr>s_kernel := k\<rparr>)) (\<lambda>s.
         andthen (put (''spawned '' @ [CHR 0x27]) s) (\<lambda>s.
         andthen (put_buf (s_arg s) s) (\<lambda>s.
         andthen (put (CHR 0x27 # '' as id '') s) (\<lambda>s.
         andthen (put_number 32 (of_int (s_next_id s)) s) (\<lambda>s.
         andthen (put ''\<newline>'' s) (\<lambda>s.
         andthen (c_int (s_next_id s + 1)) (\<lambda>next_id. Inr (s\<lparr>s_next_id := next_id\<rparr>)))))))))
       else spawn_named n rest s)"

definition cmd_spawn :: "nat \<Rightarrow> u32 \<Rightarrow> u32 \<Rightarrow> system \<Rightarrow> system result" where
  "cmd_spawn n counter once s =
     andthen (arr_get (s_arg s) 0) (\<lambda>c.
       if c = 0 then put ''usage: spawn <name>\<newline>'' s else spawn_named n (spawnables counter once) s)"

definition run_command :: "nat \<Rightarrow> u32 \<Rightarrow> u32 \<Rightarrow> command \<Rightarrow> system \<Rightarrow> system result" where
  "run_command n counter once c =
     (case c of
        Cmd_Help \<Rightarrow> cmd_help
      | Cmd_Clear \<Rightarrow> cmd_clear
      | Cmd_Ps \<Rightarrow> scheduler_list_tasks n
      | Cmd_Mem \<Rightarrow> cmd_mem
      | Cmd_Spawn \<Rightarrow> cmd_spawn n counter once)"

text \<open>The task that \<open>spawn once\<close> starts, up to its \<open>yield\<close>.\<close>

definition worker_once :: "system \<Rightarrow> system result" where
  "worker_once s = andthen (put ''[worker ran once]\<newline>'' s) (\<lambda>s. Inr (s\<lparr>s_kernel := thread_exit (s_kernel s)\<rparr>))"

section \<open>\<open>dispatch\<close>\<close>

text \<open>\<open>while (line[i] != 0 && line[i] != ' ' && i < 128) cmd[i] = line[i], i++\<close>\<close>

function copy_word :: "nat \<Rightarrow> u8 list \<Rightarrow> u8 list \<Rightarrow> (nat \<times> u8 list) result" where
  "copy_word i line cmd =
     andthen (arr_get line (int i)) (\<lambda>c.
       if c \<noteq> 0 \<and> c \<noteq> 32 \<and> i < 128 then andthen (arr_set cmd (int i) c) (copy_word (i + 1) line)
       else Inr (i, cmd))"
  by pat_completeness auto
termination by (relation "measure (\<lambda>(i, _, _). 128 - i)") auto

text \<open>\<open>while (line[i] != 0 && j < 128) spawn_arg[j++] = line[i++]\<close>\<close>

function copy_rest :: "nat \<Rightarrow> nat \<Rightarrow> u8 list \<Rightarrow> u8 list \<Rightarrow> (nat \<times> u8 list) result" where
  "copy_rest i j line arg =
     andthen (arr_get line (int i)) (\<lambda>c.
       if c \<noteq> 0 \<and> j < 128 then andthen (arr_set arg (int j) c) (copy_rest (i + 1) (j + 1) line)
       else Inr (j, arg))"
  by pat_completeness auto
termination by (relation "measure (\<lambda>(_, j, _, _). 128 - j)") auto

declare copy_word.simps [simp del] copy_rest.simps [simp del]

text \<open>The loop over \<open>commands\<close>, and the end of \<open>dispatch\<close> when no name is equal.\<close>

fun run_named :: "nat \<Rightarrow> u32 \<Rightarrow> u32 \<Rightarrow> u8 list \<Rightarrow> (string \<times> command) list \<Rightarrow> system \<Rightarrow> system result" where
  "run_named n counter once cmd [] s =
     andthen (put ''unknown command : '' s) (\<lambda>s. andthen (put_buf cmd s) (put ''\<newline>''))"
| "run_named n counter once cmd ((name, c) # rest) s =
     andthen (strcmp cmd (text_bytes name @ [0])) (\<lambda>d.
       if d = 0 then run_command n counter once c s else run_named n counter once cmd rest s)"

definition dispatch :: "nat \<Rightarrow> u32 \<Rightarrow> u32 \<Rightarrow> u8 list \<Rightarrow> system \<Rightarrow> system result" where
  "dispatch n counter once line s =
     andthen (arr_get line 0) (\<lambda>c.
       if c = 0 then Inr s
       else
         andthen (copy_word 0 line (replicate 129 0)) (\<lambda>(i, cmd).
         andthen (arr_set cmd (int i) 0) (\<lambda>cmd.
         andthen (arr_get line (int i)) (\<lambda>d.
         andthen (if d = 32 then copy_rest (i + 1) 0 line (s_arg s) else Inr (0, s_arg s)) (\<lambda>(j, arg).
         andthen (arr_set arg (int j) 0) (\<lambda>arg.
           run_named n counter once cmd commands (s\<lparr>s_arg := arg\<rparr>)))))))"

section \<open>\<open>shell_run\<close>\<close>

text \<open>What a key does, and one round of the loop.\<close>

definition shell_key :: "nat \<Rightarrow> u32 \<Rightarrow> u32 \<Rightarrow> u8 \<Rightarrow> system \<Rightarrow> system result" where
  "shell_key n counter once c s =
     (if c = 8 then
        if s_index s > 0 then
          let s = s\<lparr>s_index := s_index s - 1\<rparr>
          in andthen (arr_set (s_line s) (uint (s_index s)) 0) (\<lambda>line. on_vga removeChar (s\<lparr>s_line := line\<rparr>))
        else Inr s
      else if c = 10 then
        andthen (put ''\<newline>'' s) (\<lambda>s.
        andthen (dispatch n counter once (s_line s) s) (\<lambda>s.
        andthen (memset (s_line s) 0 129) (\<lambda>line. Inr (s\<lparr>s_line := line, s_index := 0\<rparr>))))
      else if s_index s < 127 then
        andthen (arr_set (s_line s) (uint (s_index s)) c) (\<lambda>line.
          put_buf [c, 0] (s\<lparr>s_line := line, s_index := s_index s + 1\<rparr>))
      else Inr s)"

definition shell_round :: "nat \<Rightarrow> u32 \<Rightarrow> u32 \<Rightarrow> system \<Rightarrow> system result" where
  "shell_round n counter once s =
     (case kbd_getchar (s_rb s) of
        (None, rb) \<Rightarrow> Inr (s\<lparr>s_rb := rb\<rparr>)
      | (Some c, rb) \<Rightarrow> shell_key n counter once c (s\<lparr>s_rb := rb\<rparr>))"

text \<open>The start of \<open>shell_run\<close>.\<close>

definition shell_start :: "system \<Rightarrow> system result" where
  "shell_start s = andthen (memset (replicate 129 0) 0 129) (\<lambda>line. Inr (s\<lparr>s_line := line, s_index := 0\<rparr>))"

end
