(* ===== verification/System_Facts.thy ===== *)
theory System_Facts
  imports System
begin

text \<open>
  What the interrupt handler, the clock and the task listing show on the screen and leave behind.
\<close>

section \<open>Output\<close>

definition on_screen :: "system \<Rightarrow> bool" where
  "on_screen s \<longleftrightarrow> (\<exists>ln sh. displays (s_vga s) ln sh)"

text \<open>From \<open>s\<close> to \<open>s'\<close> only the screen has changed, and it shows the bytes \<open>w\<close> typed.\<close>

definition typed :: "system \<Rightarrow> u8 list \<Rightarrow> system \<Rightarrow> bool" where
  "typed s w s' \<longleftrightarrow> s' = s\<lparr>s_vga := s_vga s'\<rparr> \<and> on_screen s' \<and>
     (\<forall>ln sh. displays (s_vga s) ln sh \<longrightarrow> (\<exists>ln'. displays (s_vga s') ln' (fold type_byte w sh)))"

lemma typed_nil: "on_screen s \<Longrightarrow> typed s [] s"
  by (auto simp: typed_def)

lemma typed_screen: "typed s w s' \<Longrightarrow> on_screen s'"
  by (simp add: typed_def)

lemma typed_trans:
  assumes "typed s v s1" "typed s1 w s2"
  shows "typed s (v @ w) s2"
proof -
  obtain x y where "s1 = s\<lparr>s_vga := x\<rparr>" "s2 = s1\<lparr>s_vga := y\<rparr>" using assms by (metis typed_def)
  moreover have "\<exists>ln'. displays (s_vga s2) ln' (fold type_byte (v @ w) sh)" if "displays (s_vga s) ln sh" for ln sh
    using assms that unfolding typed_def by fastforce
  ultimately show ?thesis using typed_screen [OF assms(2)] by (simp add: typed_def)
qed

lemma typed_other:
  assumes "typed s w s'"
  shows "s_kernel s' = s_kernel s" "s_rb s' = s_rb s" "s_ticks s' = s_ticks s" "s_ports s' = s_ports s" "s_arg s' = s_arg s"
    "s_next_id s' = s_next_id s" "s_line s' = s_line s" "s_index s' = s_index s"
proof -
  obtain v where "s' = s\<lparr>s_vga := v\<rparr>" using assms by (metis typed_def)
  then show "s_kernel s' = s_kernel s" "s_rb s' = s_rb s" "s_ticks s' = s_ticks s" "s_ports s' = s_ports s" "s_arg s' = s_arg s"
    "s_next_id s' = s_next_id s" "s_line s' = s_line s" "s_index s' = s_index s" by simp_all
qed

text \<open>A step that types \<open>w\<close>, whatever the state.\<close>

definition types :: "(system \<Rightarrow> system result) \<Rightarrow> u8 list \<Rightarrow> bool" where
  "types f w \<longleftrightarrow> (\<forall>s. on_screen s \<longrightarrow> (\<exists>s'. f s = Inr s' \<and> typed s w s'))"

lemma types_buf:
  assumes "0 \<notin> set w"
  shows "types (put_buf (w @ 0 # rest)) w"
  unfolding types_def
proof (intro allI impI)
  fix s
  assume "on_screen s"
  then obtain ln sh where d: "displays (s_vga s) ln sh" by (auto simp: on_screen_def)
  then obtain v where v: "print (w @ 0 # rest) (s_vga s) = Inr v" using print_types [OF d assms] by blast
  have all: "\<exists>ln'. displays v ln' (fold type_byte w sh)" if "displays (s_vga s) ln sh" for ln sh
    using print_types [OF that assms, of rest] v by auto
  from all [OF d] have "\<exists>ln sh. displays v ln sh" by blast
  then have "on_screen (s\<lparr>s_vga := v\<rparr>)" by (simp add: on_screen_def)
  with all have "typed s w (s\<lparr>s_vga := v\<rparr>)" by (simp only: typed_def) simp
  then show "\<exists>s'. put_buf (w @ 0 # rest) s = Inr s' \<and> typed s w s'"
    using v by (simp add: put_buf_def on_vga_def)
qed

lemma types_put: "0 \<notin> set (text_bytes str) \<Longrightarrow> types (put str) (text_bytes str)"
  unfolding put_def by (rule types_buf)

lemma types_number: "11 \<le> len \<Longrightarrow> types (put_number len num) (text_bytes (dec (unat num)))"
  using types_buf [OF dec_bytes_nonzero] by (simp add: put_number_def itoa_ok types_def)

lemma types_then: "types f v \<Longrightarrow> types g w \<Longrightarrow> types (\<lambda>s. andthen (f s) g) (v @ w)"
  unfolding types_def by (metis andthen_simps(2) typed_screen typed_trans)

lemma types_skip: "types Inr []"
  by (simp add: types_def typed_nil)

lemma types_run: "types f w \<Longrightarrow> on_screen s \<Longrightarrow> \<exists>s'. f s = Inr s' \<and> typed s w s'"
  by (simp add: types_def)

text \<open>A line \<open>name number\<close>.\<close>

definition field_text :: "string \<Rightarrow> u32 \<Rightarrow> u8 list" where
  "field_text name num = text_bytes name @ text_bytes (dec (unat num)) @ [10]"

lemma newline_byte: "text_bytes ''\<newline>'' = [10]"
  by (simp add: text_bytes_def)

lemma types_field: "0 \<notin> set (text_bytes name) \<Longrightarrow> types (put_field name num) (field_text name num)"
  using types_then [OF types_put types_then [OF types_number [of 32 num] types_put [of "''\<newline>''"]], of name]
  by (simp add: put_field_def [abs_def] field_text_def newline_byte)

section \<open>Interrupts\<close>

definition fault_report :: "interrupt_frame \<Rightarrow> u32 \<Rightarrow> u8 list" where
  "fault_report frame cr2 =
     (if f_ir_num frame = 14 then
        text_bytes ''PAGE FAULT\<newline>'' @ field_text ''addr: '' cr2
      else text_bytes ''EXCEPTION: '' @
        text_bytes (if f_ir_num frame < 15 then exception_names ! unat (f_ir_num frame) else ''reserved/unknown'') @ [10] @
        field_text ''vec: '' (f_ir_num frame)) @
     field_text ''eip: '' (f_eip frame) @ field_text ''err: '' (f_err_code frame)"

lemma exception_name_bytes:
  assumes "ir < (15 :: u32)"
  shows "0 \<notin> set (text_bytes (exception_names ! unat ir))"
proof -
  have "list_all (\<lambda>str. 0 \<notin> set (text_bytes str)) exception_names"
    by (simp add: exception_names_def text_bytes_def)
  moreover have "unat ir < length exception_names"
    using assms by (simp add: exception_names_def word_less_nat_alt)
  ultimately show ?thesis by (simp add: list_all_length)
qed

lemma types_fault:
  assumes "f_ir_num frame < 32"
  shows "\<exists>f. isr_handler frame scancode cr2 = (\<lambda>s. andthen (f s) (\<lambda>s. Inr (Stops, s))) \<and> types f (fault_report frame cr2)"
proof (cases "f_ir_num frame = 14")
  case True
  let ?f = "\<lambda>s. andthen (put ''PAGE FAULT\<newline>'' s) (\<lambda>s. andthen (put_field ''addr: '' cr2 s)
    (\<lambda>s. andthen (put_field ''eip: '' (f_eip frame) s) (put_field ''err: '' (f_err_code frame))))"
  have "types ?f (text_bytes ''PAGE FAULT\<newline>'' @ field_text ''addr: '' cr2 @ field_text ''eip: '' (f_eip frame) @
      field_text ''err: '' (f_err_code frame))"
    by (intro types_then types_put types_field) (simp_all add: text_bytes_def)
  then show ?thesis using True
    by (intro exI [of _ ?f]) (simp add: isr_handler_def [abs_def] fault_report_def andthen_assoc fun_eq_iff)
next
  case False
  let ?name = "if f_ir_num frame < 15 then exception_names ! unat (f_ir_num frame) else ''reserved/unknown''"
  let ?f = "\<lambda>s. andthen (put ''EXCEPTION: '' s) (\<lambda>s. andthen (put ?name s) (\<lambda>s. andthen (put ''\<newline>'' s)
    (\<lambda>s. andthen (put_field ''vec: '' (f_ir_num frame) s)
    (\<lambda>s. andthen (put_field ''eip: '' (f_eip frame) s) (put_field ''err: '' (f_err_code frame))))))"
  have "0 \<notin> set (text_bytes ?name)" using exception_name_bytes by (auto simp: text_bytes_def)
  then have "types ?f (text_bytes ''EXCEPTION: '' @ text_bytes ?name @ text_bytes ''\<newline>'' @ field_text ''vec: '' (f_ir_num frame) @
      field_text ''eip: '' (f_eip frame) @ field_text ''err: '' (f_err_code frame))"
    by (intro types_then types_put types_field) (simp_all add: text_bytes_def)
  then have "types ?f (fault_report frame cr2)" using False by (simp add: fault_report_def newline_byte)
  moreover have "f_ir_num frame \<noteq> 32" "f_ir_num frame \<noteq> 33" using assms by auto
  then have "isr_handler frame scancode cr2 = (\<lambda>s. andthen (?f s) (\<lambda>s. Inr (Stops, s)))"
    using False assms by (auto simp: isr_handler_def [abs_def] andthen_assoc fun_eq_iff)
  ultimately show ?thesis by (intro exI [of _ ?f]) simp
qed

text \<open>
  Property C36. The interrupt handler does for every vector what its kind asks for: the timer is counted,
  acknowledged once and gives the processor away; a key is queued and acknowledged; an exception is
  reported on the screen, with its name, vector and registers, and stops the machine; every other
  interrupt returns with nothing changed, in particular without an acknowledgement.
\<close>

theorem interrupts_handled:
  assumes "on_screen s"
  shows "if f_ir_num frame = 32 then
      isr_handler frame scancode cr2 s = Inr (Yields, s\<lparr>s_ticks := s_ticks s + 1, s_ports := s_ports s @ [(0x20, 0x20)]\<rparr>)
    else if f_ir_num frame = 33 then
      isr_handler frame scancode cr2 s = Inr (Returns, s\<lparr>s_rb := keyboard_handler scancode (s_rb s), s_ports := s_ports s @ [(0x20, 0x20)]\<rparr>)
    else if f_ir_num frame < 32 then
      \<exists>s'. isr_handler frame scancode cr2 s = Inr (Stops, s') \<and> typed s (fault_report frame cr2) s'
    else isr_handler frame scancode cr2 s = Inr (Returns, s)"
proof -
  consider "f_ir_num frame = 32" | "f_ir_num frame = 33" | "f_ir_num frame < 32" | "32 < f_ir_num frame" "f_ir_num frame \<noteq> 33"
    by fastforce
  then show ?thesis
  proof cases
    case 3
    from types_fault [OF this] obtain f where "isr_handler frame scancode cr2 = (\<lambda>s. andthen (f s) (\<lambda>s. Inr (Stops, s)))"
      "types f (fault_report frame cr2)" by blast
    with types_run [OF this(2) assms] 3 show ?thesis by auto
  next
    case 4
    moreover from this have "f_ir_num frame \<noteq> 14" "\<not> f_ir_num frame < 32" "f_ir_num frame \<noteq> 32" by auto
    ultimately show ?thesis by (simp add: isr_handler_def)
  qed (simp_all add: isr_handler_def outb_def)
qed

definition quiet_system :: system where
  "quiet_system = \<lparr>s_kernel = c_kernel two_tasks, s_rb = \<lparr>rb_data = replicate 256 0, rb_head = 0, rb_tail = 0, rb_len = 0\<rparr>,
     s_vga = blank_screen, s_ticks = 0, s_ports = [], s_arg = replicate 129 0, s_next_id = 100, s_line = replicate 129 0, s_index = 0\<rparr>"

lemma quiet_on_screen: "on_screen quiet_system"
  using blank_screen_displays by (auto simp: on_screen_def quiet_system_def)

theorem interrupts_handled_witness:
  "\<exists>s'. isr_handler \<lparr>f_ir_num = 0, f_err_code = 0, f_eip = 7\<rparr> 0 0 quiet_system = Inr (Stops, s') \<and>
    typed quiet_system (fault_report \<lparr>f_ir_num = 0, f_err_code = 0, f_eip = 7\<rparr> 0) s'"
  using interrupts_handled [OF quiet_on_screen, of "\<lparr>f_ir_num = 0, f_err_code = 0, f_eip = 7\<rparr>" 0 0] by simp

section \<open>The task listing\<close>

definition task_line :: "task_t \<Rightarrow> u8 list" where
  "task_line t = text_bytes ''id: '' @ text_bytes (dec (unat (t_id t))) @ text_bytes ''  state: '' @
     text_bytes (state_name (t_state t)) @ [10]"

lemma state_name_bytes: "0 \<notin> set (text_bytes (state_name st))"
  by (simp add: state_name_def text_bytes_def)

definition list_task :: "task_t \<Rightarrow> system \<Rightarrow> system result" where
  "list_task t s = andthen (put ''id: '' s) (\<lambda>s. andthen (put_number 32 (t_id t) s) (\<lambda>s. andthen (put ''  state: '' s)
     (\<lambda>s. andthen (put (state_name (t_state t)) s) (put ''\<newline>''))))"

lemma types_list_task: "types (list_task t) (task_line t)"
proof -
  have "types (list_task t) (text_bytes ''id: '' @ text_bytes (dec (unat (t_id t))) @ text_bytes ''  state: '' @
      text_bytes (state_name (t_state t)) @ text_bytes ''\<newline>'')"
    unfolding list_task_def [abs_def]
    by (intro types_then types_put types_number state_name_bytes) (simp_all add: text_bytes_def)
  then show ?thesis by (simp add: task_line_def newline_byte)
qed

lemma list_loop_eq:
  "list_loop (Suc n) p s = andthen (list_task (k_tasks (s_kernel s) p) s) (\<lambda>s'.
     if t_next (k_tasks (s_kernel s) p) \<noteq> k_current (s_kernel s') then list_loop n (t_next (k_tasks (s_kernel s) p)) s' else Inr s')"
  by (simp add: list_task_def Let_def andthen_assoc)

text \<open>Along the ring, up to the element before the current task.\<close>

lemma list_loop_types:
  assumes "on_screen s" "c = k_current (s_kernel s)"
    and "dlinks (\<lambda>p. t_next (k_tasks (s_kernel s) p)) pv (p # ts @ [c])" "c \<notin> set ts" "length ts < n"
  shows "\<exists>s'. list_loop n p s = Inr s' \<and> typed s (concat (map (\<lambda>t. task_line (k_tasks (s_kernel s) t)) (p # ts))) s'"
  using assms
proof (induction ts arbitrary: p n s)
  case Nil
  from types_run [OF types_list_task Nil.prems(1), of "k_tasks (s_kernel s) p"] obtain s1 where
    s1: "list_task (k_tasks (s_kernel s) p) s = Inr s1" "typed s (task_line (k_tasks (s_kernel s) p)) s1" by blast
  obtain m where "n = Suc m" using Nil.prems(5) by (cases n) auto
  with s1 Nil.prems typed_other(1) [OF s1(2)] show ?case by (simp add: list_loop_eq del: list_loop.simps)
next
  case (Cons q ts)
  from types_run [OF types_list_task Cons.prems(1), of "k_tasks (s_kernel s) p"] obtain s1 where
    s1: "list_task (k_tasks (s_kernel s) p) s = Inr s1" "typed s (task_line (k_tasks (s_kernel s) p)) s1" by blast
  note k = typed_other(1) [OF s1(2)]
  obtain m where n: "n = Suc m" "length ts < m" using Cons.prems(5) by (cases n) auto
  have q: "t_next (k_tasks (s_kernel s) p) = q" using Cons.prems(3) by simp
  obtain s2 where s2: "list_loop m q s1 = Inr s2" "typed s1 (concat (map (\<lambda>t. task_line (k_tasks (s_kernel s) t)) (q # ts))) s2"
    using Cons.IH [of s1 q m] Cons.prems(2-4) typed_screen [OF s1(2)] n(2) k by auto
  have "list_loop n p s = Inr s2"
    using s1(1) s2(1) k n(1) q Cons.prems(2,4) by (auto simp: list_loop_eq simp del: list_loop.simps)
  with typed_trans [OF s1(2) s2(2)] show ?case by auto
qed

text \<open>
  Property C37. \<open>ps\<close> ends and is complete: when the current task is in the ring of all tasks,
  \<open>scheduler_list_tasks\<close> prints one line for each of them, from the current one on in the order of the
  ring, with its id and the name of its state, and changes nothing but the screen.
\<close>

theorem ps_lists_every_task:
  assumes "on_screen s" "ring (k_tasks (s_kernel s)) (k_last (s_kernel s)) (pre @ k_current (s_kernel s) # post)"
    and "length pre + length post < n"
  shows "\<exists>s'. scheduler_list_tasks n s = Inr s' \<and>
    typed s (concat (map (\<lambda>t. task_line (k_tasks (s_kernel s) t)) (k_current (s_kernel s) # post @ pre))) s'"
proof -
  let ?c = "k_current (s_kernel s)" and ?nx = "\<lambda>p. t_next (k_tasks (s_kernel s) p)" and ?pv = "\<lambda>p. t_prev (k_tasks (s_kernel s) p)"
  have r: "0 \<notin> set (pre @ ?c # post)" "distinct (pre @ ?c # post)" "k_last (s_kernel s) = last (pre @ ?c # post)"
    "cyc ?nx ?pv (pre @ ?c # post)"
    using assms(2) by (auto simp: ring_cyc)
  then have "k_last (s_kernel s) \<noteq> 0" using last_in_set [of "pre @ ?c # post"] by (metis append_is_Nil_conv list.distinct(1))
  moreover have "cyc ?nx ?pv (?c # post @ pre)"
    using r(4) cyc_rotate [of ?nx ?pv pre "?c # post"] by (cases "pre = []") auto
  then have "dlinks ?nx ?pv (?c # (post @ pre) @ [?c])" by (simp add: cyc_def)
  from list_loop_types [OF assms(1) refl this] have "\<exists>s'. list_loop n ?c s = Inr s' \<and>
      typed s (concat (map (\<lambda>t. task_line (k_tasks (s_kernel s) t)) (?c # post @ pre))) s'"
    using r(2) assms(3) by simp
  ultimately show ?thesis by (simp add: scheduler_list_tasks_def)
qed

definition one_task_system :: system where
  "one_task_system = quiet_system\<lparr>s_kernel := (c_kernel two_tasks)\<lparr>k_current := 0x1000, k_last := 0x1000,
     k_tasks := (\<lambda>_. blank_task)(0x1000 := blank_task\<lparr>t_id := 7, t_state := TASK_RUNNING, t_next := 0x1000, t_prev := 0x1000\<rparr>)\<rparr>\<rparr>"

theorem ps_lists_every_task_witness:
  "\<exists>s'. scheduler_list_tasks 1 one_task_system = Inr s' \<and> typed one_task_system (text_bytes ''id: 7  state: RUNNING\<newline>'') s'"
proof -
  have "on_screen one_task_system" using quiet_on_screen by (simp add: one_task_system_def on_screen_def)
  moreover have "ring (k_tasks (s_kernel one_task_system)) (k_last (s_kernel one_task_system)) ([] @ k_current (s_kernel one_task_system) # [])"
    by (simp add: ring_def one_task_system_def)
  moreover have "concat (map (\<lambda>t. task_line (k_tasks (s_kernel one_task_system) t)) (k_current (s_kernel one_task_system) # [] @ [])) =
      text_bytes ''id: 7  state: RUNNING\<newline>''"
    by (simp add: one_task_system_def task_line_def state_name_def task_states text_bytes_def dec_small digit_char_byte)
  ultimately show ?thesis using ps_lists_every_task [of one_task_system "[]" "[]" 1] by simp
qed

section \<open>The clock\<close>

lemma print_at_loop_spec:
  assumes "length (vga_addr v) = 2000" "row < 25" "0 \<notin> set w" "unat col \<le> 80"
  shows "print_at_loop row col (w @ 0 # rest) v = Inr (v\<lparr>vga_addr :=
    take (80 * unat row + unat col) (vga_addr v) @ map vga_cell (take (80 - unat col) w) @
    drop (80 * unat row + unat col + min (80 - unat col) (length w)) (vga_addr v)\<rparr>)"
  using assms
proof (induction w arbitrary: col v)
  case (Cons c w)
  show ?case
  proof (cases "unat col < 80")
    case True
    let ?p = "80 * unat row + unat col"
    have r: "unat row < 25" using assms(2) by (simp add: word_less_nat_alt)
    have p: "?p < 2000" "uint row * 80 + uint col = int ?p" using True r by simp_all
    have set: "arr_set (vga_addr v) (uint row * 80 + uint col) (vga_cell c) = Inr ((vga_addr v)[?p := vga_cell c])"
      unfolding p(2) by (rule arr_set_nat) (simp only: Cons.prems(1) p(1))
    have c: "unat (col + 1) = Suc (unat col)" using True by (simp add: unat_word_ariths)
    have "col < 80" using True by (simp add: word_less_nat_alt)
    let ?v = "v\<lparr>vga_addr := (vga_addr v)[?p := vga_cell c]\<rparr>"
    have "print_at_loop row col ((c # w) @ 0 # rest) v = print_at_loop row (col + 1) (w @ 0 # rest) ?v"
      using Cons.prems(3) set \<open>col < 80\<close> by simp
    also have "\<dots> = Inr (?v\<lparr>vga_addr := take (Suc ?p) (vga_addr ?v) @ map vga_cell (take (80 - Suc (unat col)) w) @
        drop (Suc ?p + min (80 - Suc (unat col)) (length w)) (vga_addr ?v)\<rparr>)"
      using Cons.IH [of ?v "col + 1"] Cons.prems True c by simp
    also have "\<dots> = Inr (v\<lparr>vga_addr := take ?p (vga_addr v) @ map vga_cell (take (80 - unat col) (c # w)) @
        drop (?p + min (80 - unat col) (length (c # w))) (vga_addr v)\<rparr>)"
    proof -
      have "80 - unat col = Suc (80 - Suc (unat col))" using True by simp
      moreover have "take (Suc ?p) ((vga_addr v)[?p := vga_cell c]) = take ?p (vga_addr v) @ [vga_cell c]"
        using p(1) Cons.prems(1) by (simp add: take_Suc_conv_app_nth)
      ultimately show ?thesis by (simp add: min_Suc_Suc)
    qed
    finally show ?thesis .
  next
    case False
    then have "unat col = 80" "\<not> col < 80" using Cons.prems(4) by (simp_all add: word_less_nat_alt)
    then show ?thesis by simp
  qed
qed simp

lemma six_times: "replicate 6 x = [x, x, x, x, x, x]"
  by (simp add: numeral_eq_Suc)

lemma clock_tick_cells:
  assumes "length (vga_addr (s_vga s)) = 2000"
  shows "clock_round s = Inr (s\<lparr>s_vga := (s_vga s)\<lparr>vga_addr := take 68 (vga_addr (s_vga s)) @
    map vga_cell (text_bytes ''ticks:'' @ take 6 (text_bytes (dec (unat (s_ticks s))) @ replicate 6 32)) @
    drop 80 (vga_addr (s_vga s))\<rparr>\<rparr>)"
proof -
  let ?a = "vga_addr (s_vga s)" and ?d = "text_bytes (dec (unat (s_ticks s)))"
  define label where "label = text_bytes ''ticks:'' @ [32, 32, 32, 32, 32, 32, 32, 32]"
  have l: "text_bytes ''ticks:        '' = label" "0 \<notin> set label" "length label = 14"
    by (simp_all add: label_def text_bytes_def)
  define a1 where "a1 = take 68 ?a @ map vga_cell (take 12 label) @ drop 80 ?a"
  have a1: "length a1 = 2000" "take 74 a1 = take 68 ?a @ map vga_cell (text_bytes ''ticks:'')"
    "drop 74 a1 = replicate 6 (vga_cell 32) @ drop 80 ?a"
    using assms by (auto simp: a1_def label_def text_bytes_def six_times)
  have d: "length ?d \<le> 10" "0 \<notin> set ?d" using dec_length_u32 dec_bytes_nonzero by simp_all
  let ?v1 = "(s_vga s)\<lparr>vga_addr := a1\<rparr>" and ?k = "min 6 (length ?d)"
  have "print_at 0 68 (label @ [0]) (s_vga s) = Inr ?v1"
    using print_at_loop_spec [of "s_vga s" 0 label 68 "[]"] assms l by (simp add: print_at_def a1_def)
  moreover have "print_at 0 74 (?d @ 0 # rest) ?v1 =
      Inr (?v1\<lparr>vga_addr := take 74 a1 @ map vga_cell (take 6 ?d) @ drop (74 + ?k) a1\<rparr>)" for rest
    using print_at_loop_spec [of ?v1 0 ?d 74 rest] a1(1) d(2) by (simp add: print_at_def)
  moreover have "itoa (s_ticks s) (replicate 16 0) = Inr (?d @ 0 # drop (Suc (length (dec (unat (s_ticks s))))) (replicate 16 0))"
    by (rule itoa_ok) simp
  moreover have "drop (74 + ?k) a1 = replicate (6 - length ?d) (vga_cell 32) @ drop 80 ?a"
  proof -
    have "drop (74 + ?k) a1 = drop ?k (drop 74 a1)" by (simp add: add.commute)
    also have "\<dots> = replicate (6 - ?k) (vga_cell 32) @ drop 80 ?a" unfolding a1(3) by simp
    also have "6 - ?k = 6 - length ?d" by simp
    finally show ?thesis .
  qed
  ultimately show ?thesis
    by (simp add: clock_round_def on_vga_def l(1) a1(2) map_replicate del: text_bytes_length)
qed

text \<open>
  The clock task writes twelve cells at the end of the first line and nothing else, whatever
  the cursor does: the word, and the count of ticks, of which only the first six digits fit.
\<close>

theorem clock_shows_ticks:
  assumes "length (vga_addr (s_vga s)) = 2000"
  shows "clock_round s = Inr (s\<lparr>s_vga := (s_vga s)\<lparr>vga_addr := take 68 (vga_addr (s_vga s)) @
    map vga_cell (text_bytes ''ticks:'' @ take 6 (text_bytes (dec (unat (s_ticks s))) @ replicate 6 32)) @
    drop 80 (vga_addr (s_vga s))\<rparr>\<rparr>)"
  by (rule clock_tick_cells [OF assms])

theorem clock_shows_ticks_witness:
  "\<exists>s'. clock_round (quiet_system\<lparr>s_ticks := 1234567\<rparr>) = Inr s' \<and> vga_addr (s_vga s') ! 79 = vga_cell 54"
proof -
  have d: "dec 1234567 = map digit_char [1, 2, 3, 4, 5, 6, 7]" by (simp add: dec_step dec_small)
  have l: "length (vga_addr (s_vga (quiet_system\<lparr>s_ticks := 1234567\<rparr>))) = 2000"
    by (simp add: quiet_system_def blank_screen_def)
  from clock_shows_ticks [OF this] show ?thesis
    using l by (simp add: d text_bytes_def nth_append digit_char_byte)
qed

end
