(* ===== verification/Shell_Facts.thy ===== *)
theory Shell_Facts
  imports Shell System_Facts
begin

text \<open>
  No command touches the line buffer, the keyboard buffer or the argument, and none leaves the video
  memory (\<open>keeps\<close>, with the collection \<open>keeping\<close>); so the clock, the interrupts and the shell keep the
  system well formed.
\<close>

section \<open>What no command changes\<close>

definition displayed :: "vga_state \<Rightarrow> bool" where
  "displayed v \<longleftrightarrow> (\<exists>ln sh. displays v ln sh)"

lemma displayedI: "displays v ln sh \<Longrightarrow> displayed v"
  unfolding displayed_def by blast

lemma on_screen_vga: "on_screen s \<longleftrightarrow> displayed (s_vga s)"
  unfolding displayed_def on_screen_def ..

lemma print_on_screen:
  assumes "displays v ln sh" "print buf v = Inr v'"
  shows "displayed v'"
  using assms
proof (induction buf arbitrary: v ln sh)
  case (Cons c buf)
  obtain tape pos where sh: "sh = (tape, pos)" by (cases sh)
  show ?case
  proof (cases "c = 0")
    case True
    with Cons.prems show ?thesis by (auto intro: displayedI)
  next
    case False
    with type_on_screen [of v ln tape pos c] Cons.prems(1) obtain v1 ln1 where
      "mapToVGA c v = Inr v1" "displays v1 ln1 (type_byte c sh)" unfolding sh by blast
    with Cons.IH Cons.prems(2) False show ?thesis by auto
  qed
qed simp

lemma removeChar_on_screen:
  assumes "displays v ln sh" "removeChar v = Inr v'"
  shows "displayed v'"
  using removeChar_back [of v ln "fst sh" "snd sh"] assms by (cases sh) (auto intro: displayedI)

definition kept :: "system \<Rightarrow> system \<Rightarrow> bool" where
  "kept s s' \<longleftrightarrow> on_screen s' \<and> s_line s' = s_line s \<and> s_index s' = s_index s \<and> s_rb s' = s_rb s \<and> s_arg s' = s_arg s"

definition keeps :: "(system \<Rightarrow> system result) \<Rightarrow> bool" where
  "keeps f \<longleftrightarrow> (\<forall>s s'. on_screen s \<longrightarrow> f s = Inr s' \<longrightarrow> kept s s')"

lemma kept_trans: "kept s s1 \<Longrightarrow> kept s1 s2 \<Longrightarrow> kept s s2"
  by (simp add: kept_def)

lemma kept_screen: "kept s s' \<Longrightarrow> on_screen s'"
  by (simp add: kept_def)

named_theorems keeping

lemma keepsD: "keeps f \<Longrightarrow> on_screen s \<Longrightarrow> f s = Inr s' \<Longrightarrow> kept s s'"
  by (simp add: keeps_def)

lemma keeps_Inr [keeping]: "keeps Inr" "keeps (\<lambda>s. Inr s)"
  by (simp_all add: keeps_def kept_def)

lemma keeps_Inl [keeping]: "keeps (\<lambda>s. Inl e)"
  by (simp add: keeps_def)

lemma keeps_then [keeping]: "keeps f \<Longrightarrow> keeps g \<Longrightarrow> keeps (\<lambda>s. andthen (f s) g)"
  unfolding keeps_def
proof (intro allI impI)
  fix s s'
  assume f: "\<forall>s s'. on_screen s \<longrightarrow> f s = Inr s' \<longrightarrow> kept s s'" and g: "\<forall>s s'. on_screen s \<longrightarrow> g s = Inr s' \<longrightarrow> kept s s'"
    and "on_screen s" "andthen (f s) g = Inr s'"
  then obtain s1 where "f s = Inr s1" "g s1 = Inr s'" by blast
  with f g \<open>on_screen s\<close> show "kept s s'" by (blast intro: kept_trans kept_screen)
qed

lemma keeps_with: "(\<And>x. keeps (f x)) \<Longrightarrow> keeps (\<lambda>s. andthen (r s) (\<lambda>x. f x s))"
  unfolding keeps_def by (auto simp: andthen_Inr_iff)

lemma keeps_read: "(\<And>x. keeps (f x)) \<Longrightarrow> keeps (\<lambda>s. f (r s) s)"
  by (simp add: keeps_def)

lemma keeps_each: "(\<And>x. keeps (f x)) \<Longrightarrow> keeps (each f xs)"
proof (induction xs)
  case (Cons x xs)
  then have "keeps (\<lambda>s. andthen (f x s) (each f xs))" by (intro keeps_then) auto
  then show ?case by simp
qed (simp add: keeps_def kept_def)

lemma keeps_vga:
  assumes "\<And>v ln sh v'. displays v ln sh \<Longrightarrow> f v = Inr v' \<Longrightarrow> displayed v'"
  shows "keeps (on_vga f)"
  unfolding keeps_def on_vga_def
proof (intro allI impI)
  fix s s' :: system
  assume d: "on_screen s" and f: "andthen (f (s_vga s)) (\<lambda>v. Inr (s\<lparr>s_vga := v\<rparr>)) = Inr s'"
  from f obtain v where "f (s_vga s) = Inr v" "s' = s\<lparr>s_vga := v\<rparr>" by auto
  with d assms [of "s_vga s" _ _ v] show "kept s s'" by (auto simp: kept_def on_screen_vga displayed_def [of "s_vga s"])
qed

lemma keeps_buf [keeping]: "keeps (put_buf buf)" "keeps (put str)" "keeps (put_number len num)"
proof -
  show b: "keeps (put_buf buf)" for buf unfolding put_buf_def by (rule keeps_vga) (rule print_on_screen)
  show "keeps (put str)" by (simp add: put_def b)
  show "keeps (put_number len num)" unfolding put_number_def [abs_def] by (rule keeps_with [OF b])
qed

lemma keeps_flush: "keeps flush_messages"
  unfolding keeps_def flush_messages_def Let_def
proof (intro allI impI)
  fix s s' :: system
  let ?s = "s\<lparr>s_kernel := (s_kernel s)\<lparr>k_heap := (k_heap (s_kernel s))\<lparr>h_console := []\<rparr>\<rparr>\<rparr>"
  assume "on_screen s" and f: "put_buf (h_console (k_heap (s_kernel s)) @ [0]) ?s = Inr s'"
  then have "on_screen ?s" by (simp add: on_screen_def)
  from keepsD [OF keeps_buf(1) this f] show "kept s s'" by (simp add: kept_def)
qed

lemma keeps_create:
  assumes "keeps g"
  shows "keeps (\<lambda>s. andthen (create_task n fn (i s) 0 (s_kernel s)) (\<lambda>(_, k). andthen (flush_messages (s\<lparr>s_kernel := k\<rparr>)) g))"
  unfolding keeps_def
proof (intro allI impI)
  fix s s' :: system
  assume o: "on_screen s" and f: "andthen (create_task n fn (i s) 0 (s_kernel s)) (\<lambda>(_, k). andthen (flush_messages (s\<lparr>s_kernel := k\<rparr>)) g) = Inr s'"
  from f obtain p k where "create_task n fn (i s) 0 (s_kernel s) = Inr (p, k)" and
    k: "andthen (flush_messages (s\<lparr>s_kernel := k\<rparr>)) g = Inr s'" by (fastforce simp: andthen_Inr_iff)
  have "on_screen (s\<lparr>s_kernel := k\<rparr>)" using o by (simp add: on_screen_def)
  from keepsD [OF keeps_then [OF keeps_flush assms] this k] show "kept s s'" by (simp add: kept_def)
qed

lemma keeps_list_loop: "keeps (list_loop n p)"
proof -
  have "\<forall>p s s'. on_screen s \<longrightarrow> list_loop n p s = Inr s' \<longrightarrow> kept s s'"
  proof (induction n)
    case (Suc n)
    show ?case
    proof (intro allI impI)
      fix p s s'
      assume o: "on_screen s" and l: "list_loop (Suc n) p s = Inr s'"
      let ?t = "k_tasks (s_kernel s) p"
      from l obtain s1 where s1: "list_task ?t s = Inr s1"
        "(if t_next ?t \<noteq> k_current (s_kernel s1) then list_loop n (t_next ?t) s1 else Inr s1) = Inr s'"
        unfolding list_loop_eq by auto
      have "keeps (list_task ?t)" unfolding list_task_def [abs_def] by (intro keeping)
      from keepsD [OF this o s1(1)] have k: "kept s s1" .
      show "kept s s'"
      proof (cases "t_next ?t \<noteq> k_current (s_kernel s1)")
        case True
        with s1(2) have "list_loop n (t_next ?t) s1 = Inr s'" by simp
        with Suc.IH kept_screen [OF k] have "kept s1 s'" by blast
        with k show ?thesis by (rule kept_trans)
      qed (use s1(2) k in simp)
    qed
  qed simp
  then show ?thesis by (simp add: keeps_def)
qed

lemma keeps_spawn_named: "keeps (spawn_named n ws)"
proof -
  have "\<forall>s s'. on_screen s \<longrightarrow> spawn_named n ws s = Inr s' \<longrightarrow> kept s s'"
  proof (induction ws)
    case Nil
    have "keeps (\<lambda>s. andthen (put ''no such task: '' s) (\<lambda>s. andthen (put_buf (s_arg s) s) (put ''\<newline>'')))"
    proof (rule keeps_then [OF keeps_buf(2)])
      show "keeps (\<lambda>s. andthen (put_buf (s_arg s) s) (put ''\<newline>''))"
        by (rule keeps_read [where f = "\<lambda>b s. andthen (put_buf b s) (put ''\<newline>'')"]) (intro keeping)
    qed
    then show ?case unfolding keeps_def by simp
  next
    case (Cons w ws)
    obtain name fn where w: "w = (name, fn)" by (cases w)
    have arg: "keeps (\<lambda>s. andthen (put_buf (s_arg s) s) f)" if "keeps f" for f
      by (rule keeps_read [where f = "\<lambda>b s. andthen (put_buf b s) f"]) (intro keeping that)
    have num: "keeps (\<lambda>s. andthen (put_number 32 (of_int (s_next_id s)) s) f)" if "keeps f" for f
      by (rule keeps_read [where f = "\<lambda>i s. andthen (put_number 32 i s) f"]) (intro keeping that)
    have nxt: "keeps (\<lambda>s. andthen (c_int (s_next_id s + 1)) (\<lambda>next_id. Inr (s\<lparr>s_next_id := next_id\<rparr>)))"
      by (auto simp: keeps_def kept_def on_screen_vga)
    have "keeps (\<lambda>s. andthen (create_task n fn (of_int (s_next_id s)) 0 (s_kernel s)) (\<lambda>(_, k).
         andthen (flush_messages (s\<lparr>s_kernel := k\<rparr>)) (\<lambda>s.
         andthen (put (''spawned '' @ [CHR 0x27]) s) (\<lambda>s.
         andthen (put_buf (s_arg s) s) (\<lambda>s.
         andthen (put (CHR 0x27 # '' as id '') s) (\<lambda>s.
         andthen (put_number 32 (of_int (s_next_id s)) s) (\<lambda>s.
         andthen (put ''\<newline>'' s) (\<lambda>s.
         andthen (c_int (s_next_id s + 1)) (\<lambda>next_id. Inr (s\<lparr>s_next_id := next_id\<rparr>))))))))))"
      by (intro keeps_create keeps_then [OF keeps_buf(2)] arg num nxt)
    note this [unfolded keeps_def]
    with Cons.IH show ?case unfolding w spawn_named.simps by (auto split: if_splits)
  qed
  then show ?thesis by (simp add: keeps_def)
qed

lemma keeps_run_command: "keeps (run_command n counter once c)"
proof -
  have "keeps cmd_help"
    unfolding cmd_help_def [abs_def] by (intro keeping keeps_each) (auto intro!: keeping)
  moreover have "keeps cmd_clear" unfolding cmd_clear_def
    by (intro keeps_each keeps_vga) (rule removeChar_on_screen)
  moreover have "keeps cmd_mem" unfolding cmd_mem_def [abs_def] by (rule keeps_with, rule keeps_with, intro keeping)
  moreover have "keeps (cmd_spawn n counter once)"
    unfolding cmd_spawn_def [abs_def]
  proof (rule keeps_with)
    show "keeps (\<lambda>s. if x = 0 then put ''usage: spawn <name>\<newline>'' s else spawn_named n (spawnables counter once) s)" for x
      using keeps_buf(2) keeps_spawn_named by (simp add: keeps_def)
  qed
  moreover have "keeps (scheduler_list_tasks n)"
    using keeps_list_loop keeps_buf(2) by (auto simp: keeps_def scheduler_list_tasks_def)
  ultimately show ?thesis by (cases c) (simp_all add: run_command_def)
qed

lemma keeps_run_named: "keeps (run_named n counter once cmd cs)"
proof (induction cs)
  case Nil
  have "keeps (\<lambda>s. andthen (put ''unknown command : '' s) (\<lambda>s. andthen (put_buf cmd s) (put ''\<newline>'')))" by (intro keeping)
  then show ?case by (simp add: keeps_def)
next
  case (Cons c cs)
  obtain name k where "c = (name, k)" by (cases c)
  with Cons.IH keeps_run_command [of n counter once k] show ?case by (auto simp: keeps_def split: if_splits)
qed

section \<open>The well-formed system\<close>

definition system_ok :: "system \<Rightarrow> bool" where
  "system_ok s \<longleftrightarrow> on_screen s \<and> length (s_line s) = 129 \<and> length (s_arg s) = 129 \<and> s_index s \<le> 127 \<and> (\<exists>xs. rb_rep (s_rb s) xs)"

lemma system_ok_kept:
  assumes "system_ok s" "on_screen s'" "length (s_line s') = length (s_line s)" "length (s_arg s') = length (s_arg s)"
    "s_index s' \<le> 127" "s_rb s' = s_rb s"
  shows "system_ok s'"
  using assms by (simp add: system_ok_def)

lemma copy_rest_length: "copy_rest i j line arg = Inr (j', arg') \<Longrightarrow> length arg' = length arg"
proof (induction i j line arg rule: copy_rest.induct)
  case (1 i j line arg)
  from "1.prems" obtain c where c: "arr_get line (int i) = Inr c"
    "(if c \<noteq> 0 \<and> j < 128 then andthen (arr_set arg (int j) c) (copy_rest (i + 1) (j + 1) line) else Inr (j, arg)) = Inr (j', arg')"
    by (subst (asm) copy_rest.simps) auto
  show ?case
  proof (cases "c \<noteq> 0 \<and> j < 128")
    case True
    with c obtain arg1 where "arr_set arg (int j) c = Inr arg1" "copy_rest (i + 1) (j + 1) line arg1 = Inr (j', arg')" by auto
    with "1.IH" [OF c(1) True] show ?thesis by (simp add: arr_set_length)
  qed (use c(2) in auto)
qed

lemma dispatch_kept:
  assumes "on_screen s" "dispatch n counter once line s = Inr s'"
  shows "\<exists>arg. length arg = length (s_arg s) \<and> kept (s\<lparr>s_arg := arg\<rparr>) s'"
proof -
  from assms(2) obtain c where "arr_get line 0 = Inr c" by (auto simp: dispatch_def)
  show ?thesis
  proof (cases "c = 0")
    case True
    with assms \<open>arr_get line 0 = Inr c\<close> show ?thesis by (auto simp: dispatch_def kept_def)
  next
    case False
    with assms(2) \<open>arr_get line 0 = Inr c\<close> obtain i cmd0 cmd d j arg0 arg where
      j: "(if d = (32 :: u8) then copy_rest (i + 1) 0 line (s_arg s) else Inr (0, s_arg s)) = Inr (j, arg0)"
      "arr_set arg0 (int j) 0 = Inr arg" and r: "run_named n counter once cmd commands (s\<lparr>s_arg := arg\<rparr>) = Inr s'"
      by (auto simp: dispatch_def andthen_Inr_iff split: prod.splits)
    have "length arg = length (s_arg s)"
      using j by (auto dest!: copy_rest_length arr_set_length split: if_splits)
    moreover have "on_screen (s\<lparr>s_arg := arg\<rparr>)" using assms(1) by (simp add: on_screen_def)
    from keepsD [OF keeps_run_named this r] have "kept (s\<lparr>s_arg := arg\<rparr>) s'" .
    ultimately show ?thesis by blast
  qed
qed

lemma dispatch_ok:
  assumes "system_ok s" "dispatch n counter once line s = Inr s'"
  shows "system_ok s'"
  using dispatch_kept [OF _ assms(2)] assms(1) by (auto simp: kept_def system_ok_def)

lemma dispatch_keeps_line: "on_screen s \<Longrightarrow> dispatch n counter once line s = Inr s' \<Longrightarrow> s_line s' = s_line s"
  using dispatch_kept by (fastforce simp: kept_def)

text \<open>Replacing cells of the screen leaves it a window of some sheet.\<close>

lemma displayed_cells:
  assumes "displayed v" "length a = 2000"
  shows "displayed (v\<lparr>vga_addr := a\<rparr>)"
proof -
  from assms(1) obtain ln tape pos where d: "displays v ln (tape, pos)" by (auto simp: displayed_def)
  let ?tape = "\<lambda>j. if 80 * ln \<le> j \<and> j < 80 * ln + 2000 then a ! (j - 80 * ln) else tape j"
  have "displays (v\<lparr>vga_addr := a\<rparr>) ln (?tape, pos)" using d assms(2) by (simp add: displays_def)
  then show ?thesis by (rule displayedI)
qed

lemma clock_ok:
  assumes "system_ok s"
  shows "\<exists>s'. clock_round s = Inr s' \<and> system_ok s'"
proof -
  have d: "displayed (s_vga s)" using assms by (simp add: system_ok_def on_screen_vga)
  then have l: "length (vga_addr (s_vga s)) = 2000" by (auto simp: displayed_def displays_def)
  let ?a = "take 68 (vga_addr (s_vga s)) @
    map vga_cell (text_bytes ''ticks:'' @ take 6 (text_bytes (dec (unat (s_ticks s))) @ replicate 6 32)) @
    drop 80 (vga_addr (s_vga s))"
  have "displayed ((s_vga s)\<lparr>vga_addr := ?a\<rparr>)" by (rule displayed_cells [OF d]) (use l in simp)
  then have "system_ok (s\<lparr>s_vga := (s_vga s)\<lparr>vga_addr := ?a\<rparr>\<rparr>)" using assms by (simp add: system_ok_def on_screen_vga)
  with clock_tick_cells [OF l] show ?thesis by blast
qed

lemma isr_ok:
  assumes "system_ok s"
  shows "\<exists>e s'. isr_handler frame scancode cr2 s = Inr (e, s') \<and> system_ok s'"
proof -
  have o: "on_screen s" and rep: "\<exists>xs. rb_rep (s_rb s) xs" using assms by (simp_all add: system_ok_def)
  have "\<exists>xs. rb_rep (keyboard_handler scancode (s_rb s)) xs" using rep handler_rep [of _ _ "[scancode]"] by auto
  note tick_key = this
  consider "f_ir_num frame = 32" | "f_ir_num frame = 33" | "f_ir_num frame < 32" | "32 < f_ir_num frame" "f_ir_num frame \<noteq> 33"
    by fastforce
  then show ?thesis
  proof cases
    case 1
    then show ?thesis using assms by (simp add: isr_handler_def system_ok_def on_screen_vga)
  next
    case 2
    then show ?thesis using assms tick_key by (simp add: isr_handler_def system_ok_def on_screen_vga)
  next
    case 3
    from types_fault [OF this] obtain f where f: "isr_handler frame scancode cr2 = (\<lambda>s. andthen (f s) (\<lambda>s. Inr (Stops, s)))"
      "types f (fault_report frame cr2)" by blast
    from types_run [OF f(2) o] obtain s' where s': "f s = Inr s'" "typed s (fault_report frame cr2) s'" by blast
    have "system_ok s'" using assms typed_screen [OF s'(2)] typed_other [OF s'(2)] by (simp add: system_ok_def)
    with f(1) s'(1) show ?thesis by simp
  next
    case 4
    then have "f_ir_num frame \<noteq> 14" "\<not> f_ir_num frame < 32" "f_ir_num frame \<noteq> 32" by auto
    with 4 assms show ?thesis by (simp add: isr_handler_def)
  qed
qed

lemma types_key: "types (put_buf [c, 0]) (if c = 0 then [] else [c])"
  using types_buf [of "[c]" "[]"] types_buf [of "[]" "[0]"] by auto

lemma vga_defined:
  assumes "displayed (s_vga s)" "\<And>v ln sh. displays v ln sh \<Longrightarrow> \<exists>v'. f v = Inr v' \<and> displayed v'"
  shows "\<exists>v'. on_vga f s = Inr (s\<lparr>s_vga := v'\<rparr>) \<and> displayed v'"
  using assms by (auto simp: on_vga_def displayed_def [of "s_vga s"]) fastforce

lemma removeChar_defined: "displays v ln sh \<Longrightarrow> \<exists>v'. removeChar v = Inr v' \<and> displayed v'"
  using removeChar_back [of v ln "fst sh" "snd sh"] by (cases sh) (auto intro: displayedI)

lemma shell_key_defined:
  assumes "system_ok s" "c \<noteq> 10"
  shows "\<exists>s'. shell_key n counter once c s = Inr s' \<and> system_ok s'"
proof -
  have ok: "displayed (s_vga s)" "length (s_line s) = 129" "s_index s \<le> 127"
    using assms(1) by (simp_all add: system_ok_def on_screen_vga)
  have "unat (s_index s) \<le> 127" using ok(3) by (simp add: word_le_nat_alt)
  note i = this
  consider "c = 8" "s_index s > 0" | "c = 8" "s_index s = 0" | "c \<noteq> 8" "s_index s < 127" | "c \<noteq> 8" "\<not> s_index s < 127"
    using word_neq_0_conv by blast
  then show ?thesis
  proof cases
    case 1
    have "s_index s \<noteq> 0" using 1(2) by auto
    with unat_minus_one [OF this] have p: "unat (s_index s - 1) < unat (s_index s)" by (simp add: unat_gt_0)
    then have le: "s_index s - 1 \<le> 127" using i by (simp add: word_le_nat_alt)
    have "arr_set (s_line s) (int (unat (s_index s - 1))) 0 = Inr ((s_line s)[unat (s_index s - 1) := 0])"
      by (rule arr_set_nat) (use p i ok(2) in linarith)
    then have set: "arr_set (s_line s) (uint (s_index s - 1)) 0 = Inr ((s_line s)[unat (s_index s - 1) := 0])" by simp
    let ?s = "s\<lparr>s_index := s_index s - 1, s_line := (s_line s)[unat (s_index s - 1) := 0]\<rparr>"
    have "displayed (s_vga ?s)" using ok(1) by simp
    from vga_defined [of ?s removeChar, OF this] removeChar_defined obtain v where
      "on_vga removeChar ?s = Inr (?s\<lparr>s_vga := v\<rparr>)" "displayed v" by blast
    with 1 set le assms(1) show ?thesis by (auto simp: shell_key_def Let_def system_ok_def on_screen_vga)
  next
    case 3
    then have lt: "unat (s_index s) < 127" by (simp add: word_less_nat_alt)
    have "unat (s_index s + 1) = unat (s_index s) + 1" using lt unat_plus_u32 [of "s_index s" 1] by simp
    then have le: "s_index s + 1 \<le> 127" using lt by (simp add: word_le_nat_alt)
    have "arr_set (s_line s) (int (unat (s_index s))) c = Inr ((s_line s)[unat (s_index s) := c])"
      by (rule arr_set_nat) (use lt ok(2) in linarith)
    then have set: "arr_set (s_line s) (uint (s_index s)) c = Inr ((s_line s)[unat (s_index s) := c])" by simp
    let ?s = "s\<lparr>s_line := (s_line s)[unat (s_index s) := c], s_index := s_index s + 1\<rparr>"
    have "on_screen ?s" using ok(1) by (simp add: on_screen_vga)
    from types_run [OF types_key this, of c] obtain s' where s': "put_buf [c, 0] ?s = Inr s'" "typed ?s (if c = 0 then [] else [c]) s'"
      by blast
    have "system_ok s'" using typed_screen [OF s'(2)] typed_other [OF s'(2)] le assms(1) by (simp add: system_ok_def)
    then show ?thesis using 3 assms(2) set s'(1) by (simp add: shell_key_def)
  qed (use assms in \<open>auto simp: shell_key_def\<close>)
qed

lemma enter_ok:
  assumes "system_ok s" "shell_key n counter once 10 s = Inr s'"
  shows "system_ok s'"
proof -
  from assms(2) obtain s1 s2 line where s1: "put ''\<newline>'' s = Inr s1" "dispatch n counter once (s_line s1) s1 = Inr s2"
    "memset (s_line s2) 0 129 = Inr line" "s' = s2\<lparr>s_line := line, s_index := 0\<rparr>"
    by (auto simp: shell_key_def)
  have "kept s s1" using keepsD [OF keeps_buf(2) _ s1(1)] assms(1) by (simp add: system_ok_def)
  then have "system_ok s1" using assms(1) by (simp add: kept_def system_ok_def)
  from dispatch_ok [OF this s1(2)] have ok2: "system_ok s2" .
  then have "length line = 129" using s1(3) memset_ok [of 129 "s_line s2" 0] by (auto simp: system_ok_def)
  with ok2 s1(4) show ?thesis by (simp add: system_ok_def on_screen_vga)
qed

text \<open>
  Property C35. The system stays well formed whatever happens next: the clock task and the interrupt
  handler, for any vector and scancode, always complete and keep the arrays at their sizes, the index
  of the line buffer at most 127, the keyboard buffer a queue of at most 256 bytes and the video memory
  a window of a sheet; a round of the shell keeps all this too, and completes unless the key it reads
  is Enter.
\<close>

theorem system_stays_ok:
  assumes "system_ok s"
  shows "(\<exists>s'. clock_round s = Inr s' \<and> system_ok s') \<and>
    (\<exists>e s'. isr_handler frame scancode cr2 s = Inr (e, s') \<and> system_ok s') \<and>
    (case shell_round n counter once s of Inr s' \<Rightarrow> system_ok s' | Inl e \<Rightarrow> fst (kbd_getchar (s_rb s)) = Some 10)"
proof -
  have "case shell_round n counter once s of Inr s' \<Rightarrow> system_ok s' | Inl e \<Rightarrow> fst (kbd_getchar (s_rb s)) = Some 10"
  proof (cases "kbd_getchar (s_rb s)")
    case (Pair key rb)
    have "\<exists>xs. rb_rep rb xs"
    proof -
      from assms obtain xs where "rb_rep (s_rb s) xs" by (auto simp: system_ok_def)
      with Pair ringbuf_pop_empty ringbuf_pop_rep show ?thesis
        by (cases xs) (fastforce simp: kbd_getchar_def)+
    qed
    then have ok: "system_ok (s\<lparr>s_rb := rb\<rparr>)" using assms by (simp add: system_ok_def on_screen_vga)
    show ?thesis
    proof (cases key)
      case None
      with Pair ok show ?thesis by (simp add: shell_round_def)
    next
      case (Some c)
      show ?thesis
      proof (cases "c = 10")
        case True
        with Pair Some enter_ok [OF ok] show ?thesis by (simp add: shell_round_def split: sum.split)
      next
        case False
        from shell_key_defined [OF ok False] obtain s' where "shell_key n counter once c (s\<lparr>s_rb := rb\<rparr>) = Inr s'" "system_ok s'"
          by blast
        with Pair Some show ?thesis by (simp add: shell_round_def)
      qed
    qed
  qed
  with clock_ok [OF assms] isr_ok [OF assms] show ?thesis by blast
qed

lemma quiet_ok: "system_ok quiet_system"
proof -
  have "rb_rep \<lparr>rb_data = replicate 256 0, rb_head = 0, rb_tail = 0, rb_len = 0\<rparr> []" by (simp add: rb_rep_def)
  moreover have "on_screen quiet_system" by (rule quiet_on_screen)
  ultimately show ?thesis by (auto simp: system_ok_def quiet_system_def)
qed

theorem system_stays_ok_witness:
  "\<exists>e s. isr_handler \<lparr>f_ir_num = 33, f_err_code = 0, f_eip = 0\<rparr> 0x1E 0 quiet_system = Inr (e, s) \<and> system_ok s"
  using system_stays_ok [OF quiet_ok] by blast

end
