(* ===== verification/Shell_Line.thy ===== *)
theory Shell_Line
  imports Shell_Facts Switch
begin

text \<open>
  The dialogue of the shell: typing keeps the line on the screen equal to the line in the buffer, Enter
  runs the command that the first word names, and \<open>spawn\<close> and \<open>clear\<close> do what \<open>help\<close> says.
\<close>

section \<open>Editing a line\<close>

text \<open>What a key that is neither Enter nor NUL does to the line.\<close>

definition edit :: "u8 list \<Rightarrow> u8 \<Rightarrow> u8 list" where
  "edit line c = (if c = 8 then butlast line else if length line < 127 then line @ [c] else line)"

text \<open>
  The line is in the buffer, followed by zeros, and on the sheet from \<open>home\<close> on, where the cursor
  stands behind it. What stood before \<open>home\<close> on \<open>paper\<close> is untouched.
\<close>

definition on_sheet :: "(nat \<Rightarrow> u16) \<Rightarrow> nat \<Rightarrow> u8 list \<Rightarrow> (nat \<Rightarrow> u16) \<Rightarrow> bool" where
  "on_sheet paper home line tape \<longleftrightarrow> (\<forall>j < home. tape j = paper j) \<and>
     (\<forall>i < length line. tape (home + i) = vga_cell (line ! i)) \<and>
     (\<forall>j \<ge> home + length line. tape j = paper j \<or> tape j = 0x20)"

definition editing :: "(nat \<Rightarrow> u16) \<Rightarrow> nat \<Rightarrow> system \<Rightarrow> u8 list \<Rightarrow> bool" where
  "editing paper home s line \<longleftrightarrow> 0 \<notin> set line \<and> length line \<le> 127 \<and>
     s_line s = line @ replicate (129 - length line) 0 \<and> s_index s = of_nat (length line) \<and>
     (\<exists>ln tape. 80 * ln \<le> home \<and> displays (s_vga s) ln (tape, home + length line) \<and> on_sheet paper home line tape)"

lemma editingI:
  assumes "0 \<notin> set line" "length line \<le> 127" "s_line s = line @ replicate (129 - length line) 0" "s_index s = of_nat (length line)"
    "80 * ln \<le> home" "displays (s_vga s) ln (tape, home + length line)" "on_sheet paper home line tape"
  shows "editing paper home s line"
  using assms unfolding editing_def by blast

lemma index_length: "length line \<le> 127 \<Longrightarrow> unat (of_nat (length line) :: u32) = length line"
  by (simp add: unat_of_nat take_bit_nat_eq_self)

lemma on_sheet_type:
  "on_sheet paper home line tape \<Longrightarrow> on_sheet paper home (line @ [c]) (tape(home + length line := vga_cell c))"
  by (auto simp: on_sheet_def nth_append)

lemma on_sheet_erase:
  assumes "on_sheet paper home (xs @ [x]) tape"
  shows "on_sheet paper home xs (tape(home + length xs := 0x20))"
proof -
  have "tape (home + i) = vga_cell (xs ! i)" if "i < length xs" for i
    using assms that by (auto simp: on_sheet_def nth_append dest: spec [of _ i])
  moreover have "home + Suc (length xs) \<le> j" if "home + length xs \<le> j" "j \<noteq> home + length xs" for j
    using that by linarith
  ultimately show ?thesis using assms by (auto simp: on_sheet_def)
qed

text \<open>The fields that editing leaves alone.\<close>

definition same_rest :: "system \<Rightarrow> system \<Rightarrow> bool" where
  "same_rest s s' \<longleftrightarrow> s_kernel s' = s_kernel s \<and> s_ticks s' = s_ticks s \<and> s_ports s' = s_ports s \<and> s_arg s' = s_arg s \<and>
     s_next_id s' = s_next_id s"

lemma edit_erase:
  assumes "editing paper home s line"
  shows "\<exists>s'. shell_key n counter once 8 s = Inr s' \<and> editing paper home s' (butlast line) \<and> same_rest s s' \<and> s_rb s' = s_rb s"
proof (cases "line = []")
  case True
  with assms show ?thesis by (auto simp: shell_key_def editing_def same_rest_def)
next
  case False
  from assms obtain ln tape where e: "0 \<notin> set line" "length line \<le> 127" "s_line s = line @ replicate (129 - length line) 0"
    "s_index s = of_nat (length line)" "80 * ln \<le> home" "displays (s_vga s) ln (tape, home + length line)"
    "on_sheet paper home line tape" unfolding editing_def by blast
  define xs x where "xs = butlast line" and "x = last line"
  have line: "line = xs @ [x]" using False by (simp add: xs_def x_def)
  have i: "s_index s - 1 = of_nat (length xs)" "s_index s > 0" "length xs \<le> 126" using e(2,4) index_length [OF e(2)] line
    by (auto simp: word_less_nat_alt)
  then have "unat (s_index s - 1) = length xs" using index_length [of xs] by simp
  then have "uint (s_index s - 1) = int (length xs)" by (metis uint_nat)
  moreover have "(s_line s)[length xs := 0] = xs @ replicate (129 - length xs) 0"
    using e(2,3) line by (simp add: Suc_diff_le numeral_eq_Suc flip: replicate_Suc)
  ultimately have set: "arr_set (s_line s) (uint (s_index s - 1)) 0 = Inr (xs @ replicate (129 - length xs) 0)"
    using e(2,3) line by simp
  let ?s = "s\<lparr>s_index := s_index s - 1, s_line := xs @ replicate (129 - length xs) 0\<rparr>"
  have "home + length line \<noteq> 80 * ln" using e(5) line by simp
  with removeChar_back [OF e(6)] obtain v where v: "removeChar (s_vga s) = Inr v"
    "displays v ln (tape(home + length line - 1 := 0x20), home + length line - 1)" by auto
  have "shell_key n counter once 8 s = Inr (?s\<lparr>s_vga := v\<rparr>)"
    using i(2) set v(1) by (simp add: shell_key_def Let_def on_vga_def)
  moreover have "editing paper home (?s\<lparr>s_vga := v\<rparr>) xs"
    using v(2) e(1,5) i(1,3) on_sheet_erase [OF e(7) [unfolded line]] line by (intro editingI) auto
  ultimately show ?thesis by (auto simp: xs_def same_rest_def)
qed

lemma edit_type:
  assumes "editing paper home s line" "c \<noteq> 0" "c \<noteq> 8" "c \<noteq> 10"
  shows "\<exists>s'. shell_key n counter once c s = Inr s' \<and> editing paper home s' (edit line c) \<and> same_rest s s' \<and> s_rb s' = s_rb s"
proof -
  from assms(1) obtain ln tape where e: "0 \<notin> set line" "length line \<le> 127" "s_line s = line @ replicate (129 - length line) 0"
    "s_index s = of_nat (length line)" "80 * ln \<le> home" "displays (s_vga s) ln (tape, home + length line)"
    "on_sheet paper home line tape" unfolding editing_def by blast
  have i: "unat (s_index s) = length line" using index_length [OF e(2)] e(4) by simp
  show ?thesis
  proof (cases "length line < 127")
    case True
    then have lt: "s_index s < 127" using i by (simp add: word_less_nat_alt)
    have "uint (s_index s) = int (length line)" using i by (metis uint_nat)
    moreover have "(s_line s)[length line := c] = (line @ [c]) @ replicate (129 - length (line @ [c])) 0"
    proof -
      have "129 - length line = Suc (129 - length (line @ [c]))" using True by simp
      then show ?thesis using e(3) by (simp only: list_update_length replicate_Suc append_assoc append_Cons append_Nil)
    qed
    ultimately have set: "arr_set (s_line s) (uint (s_index s)) c = Inr ((line @ [c]) @ replicate (129 - length (line @ [c])) 0)"
      using e(3) True by simp
    from type_on_screen [OF e(6) assms(2)] assms(4) obtain v ln' where v: "mapToVGA c (s_vga s) = Inr v"
      "displays v ln' (tape(home + length line := vga_cell c), home + length line + 1)" "ln' = ln \<or> vga_row v = 24"
      by (auto simp: type_byte_def)
    have "80 * ln' \<le> home"
    proof (cases "ln' = ln")
      case False
      then have "int ((home + length line + 1 - 80 * ln') div 80) = 24" using v(2,3) by (simp add: displays_def)
      then have "80 * 24 \<le> home + length line + 1 - 80 * ln'" by linarith
      then show ?thesis using True by linarith
    qed (use e(5) in simp)
    moreover have "shell_key n counter once c s =
        Inr (s\<lparr>s_line := (line @ [c]) @ replicate (129 - length (line @ [c])) 0, s_index := s_index s + 1, s_vga := v\<rparr>)"
      using lt set v(1) assms(2-4) by (simp add: shell_key_def put_buf_def on_vga_def)
    moreover have "s_index s + 1 = of_nat (length (line @ [c]))" using e(4) by simp
    ultimately have "shell_key n counter once c s =
        Inr (s\<lparr>s_line := (line @ [c]) @ replicate (129 - length (line @ [c])) 0, s_index := s_index s + 1, s_vga := v\<rparr>) \<and>
      editing paper home (s\<lparr>s_line := (line @ [c]) @ replicate (129 - length (line @ [c])) 0, s_index := s_index s + 1, s_vga := v\<rparr>)
        (edit line c)"
      using v(2) e(1) on_sheet_type [OF e(7), of c] True assms(2,3) by (auto simp: edit_def intro!: editingI [where ln = ln'])
    then show ?thesis by (auto simp: same_rest_def)
  next
    case False
    then have "\<not> s_index s < 127" using i by (simp add: word_less_nat_alt)
    with False assms show ?thesis by (auto simp: shell_key_def edit_def same_rest_def)
  qed
qed

lemma edit_key:
  assumes "editing paper home s line" "c \<noteq> 0" "c \<noteq> 10"
  shows "\<exists>s'. shell_key n counter once c s = Inr s' \<and> editing paper home s' (edit line c) \<and> same_rest s s' \<and> s_rb s' = s_rb s"
  using edit_erase [OF assms(1)] edit_type [OF assms(1,2)] assms(3) by (cases "c = 8") (auto simp: edit_def)

lemma idle_round: "rb_rep (s_rb s) [] \<Longrightarrow> shell_round n counter once s = Inr s"
  by (simp add: shell_round_def kbd_getchar_def ringbuf_pop_empty)

text \<open>
  Typing ahead and editing: whatever keys other than Enter wait in the keyboard buffer, as
  many rounds of the shell as there are keys consume all of them, never touch memory outside the line
  buffer or the screen, and leave the line that editing by \<open>edit\<close> gives (backspace removes the last
  character, the 128th character and later ones are dropped) both in the buffer and on the screen,
  also when the line wraps or the screen scrolls. The prompt side of the screen, the tasks and the last
  argument are untouched.
\<close>

theorem shell_edits_line:
  assumes "editing paper home s line" "rb_rep (s_rb s) keys" "0 \<notin> set keys" "10 \<notin> set keys"
  shows "\<exists>s'. each (\<lambda>_. shell_round n counter once) [0..<length keys] s = Inr s' \<and>
    editing paper home s' (foldl edit line keys) \<and> rb_rep (s_rb s') [] \<and> same_rest s s'"
proof -
  have "\<exists>s'. each (\<lambda>_. shell_round n counter once) (js :: nat list) s = Inr s' \<and>
      editing paper home s' (foldl edit line keys) \<and> rb_rep (s_rb s') [] \<and> same_rest s s'" if "length js = length keys" for js
    using assms that
  proof (induction keys arbitrary: s line js)
    case (Cons c keys)
    obtain j js' where js: "js = j # js'" "length js' = length keys" using Cons.prems(5) by (cases js) auto
    from ringbuf_pop_rep [OF Cons.prems(2)] obtain rb where rb: "kbd_getchar (s_rb s) = (Some c, rb)" "rb_rep rb keys"
      by (auto simp: kbd_getchar_def)
    have "editing paper home (s\<lparr>s_rb := rb\<rparr>) line" using Cons.prems(1) by (simp add: editing_def)
    from edit_key [OF this, of c n counter once] Cons.prems(3,4) obtain s1 where
      s1: "shell_key n counter once c (s\<lparr>s_rb := rb\<rparr>) = Inr s1" "editing paper home s1 (edit line c)"
      "same_rest (s\<lparr>s_rb := rb\<rparr>) s1" "s_rb s1 = rb" by auto
    from Cons.IH [OF s1(2), of js'] rb(2) s1(4) Cons.prems(3,4) js(2) obtain s2 where
      "each (\<lambda>_. shell_round n counter once) js' s1 = Inr s2" "editing paper home s2 (foldl edit (edit line c) keys)"
      "rb_rep (s_rb s2) []" "same_rest s1 s2" by auto
    moreover have "shell_round n counter once s = Inr s1" using s1(1) rb(1) by (simp add: shell_round_def)
    ultimately show ?case using s1(3) js(1) by (auto simp: same_rest_def)
  qed (auto simp: same_rest_def)
  then show ?thesis by simp
qed

lemma editing_starts:
  assumes "displays (s_vga s) ln (tape, pos)"
  shows "\<exists>s'. shell_start s = Inr s' \<and> editing tape pos s' [] \<and> s_rb s' = s_rb s"
proof -
  have "80 * ln \<le> pos" using assms by (simp add: displays_def)
  then have "editing tape pos (s\<lparr>s_line := replicate 129 0, s_index := 0\<rparr>) []"
    using assms by (intro editingI [where ln = ln]) (auto simp: on_sheet_def)
  then show ?thesis by (simp add: shell_start_def memset_ok)
qed

text \<open>Typing \<open>ab\<close>, backspace and \<open>c\<close> on an empty screen.\<close>

theorem shell_edits_line_witness:
  "\<exists>s. each (\<lambda>_. shell_round 0 0 0) [0..<4]
      (quiet_system\<lparr>s_rb := fold keyboard_handler [0x1E, 0x30, 0x0E, 0x2E] (s_rb quiet_system)\<rparr>) = Inr s \<and>
    editing (\<lambda>_. 0x20) 0 s [97, 99]"
proof -
  let ?cs = "[0x1E, 0x30, 0x0E, 0x2E]" and ?ks = "[97, 98, 8, 99]"
  let ?s = "quiet_system\<lparr>s_rb := fold keyboard_handler ?cs (s_rb quiet_system)\<rparr>"
  have "displays (s_vga ?s) 0 ((\<lambda>_. 0x20), 0 + length ([] :: u8 list))"
    using blank_screen_displays by (simp add: quiet_system_def)
  then have e: "editing (\<lambda>_. 0x20) 0 ?s []"
    by (rule editingI [rotated 5]) (simp_all add: quiet_system_def on_sheet_def)
  have set_ks: "(0 :: u8) \<notin> set ?ks" "(10 :: u8) \<notin> set ?ks" by simp_all
  have t: "Keyboard.typed ?cs = ?ks" by code_simp
  have "rb_rep (s_rb quiet_system) []" by (simp add: rb_rep_def quiet_system_def)
  from handler_rep [OF this, of ?cs] have r: "rb_rep (s_rb ?s) ?ks" by (simp only: t) simp
  have "foldl edit [] ?ks = [97, 99]" "length ?ks = 4" by (simp_all add: edit_def)
  with shell_edits_line [OF e r, of 0 0 0] show ?thesis by (metis (no_types, lifting) set_ks)
qed

section \<open>Keys and rounds in any order\<close>

text \<open>A keyboard interrupt with a scancode at the port, or a round of the shell.\<close>

datatype happening = Key u8 | Round

fun happen :: "nat \<Rightarrow> u32 \<Rightarrow> u32 \<Rightarrow> happening \<Rightarrow> system \<Rightarrow> system result" where
  "happen n counter once (Key sc) s =
     andthen (isr_handler \<lparr>f_ir_num = 33, f_err_code = 0, f_eip = 0\<rparr> sc 0 s) (\<lambda>(_, s). Inr s)"
| "happen n counter once Round s = shell_round n counter once s"

definition keys_in :: "happening list \<Rightarrow> u8 list" where
  "keys_in es = Keyboard.typed (concat (map (\<lambda>e. case e of Key sc \<Rightarrow> [sc] | Round \<Rightarrow> []) es))"

lemma keys_in_simps [simp]:
  "keys_in [] = []" "keys_in (Round # es) = keys_in es"
  "keys_in (Key sc # es) = (case key_of sc of Some k \<Rightarrow> k # keys_in es | None \<Rightarrow> keys_in es)"
  by (simp_all add: keys_in_def split: option.split)

lemma keys_in_nonzero: "0 \<notin> set (keys_in es)"
proof (induction es)
  case (Cons e es)
  then show ?case by (cases e) (auto simp: key_of_def split: option.splits if_splits)
qed simp

lemma key_interrupt: "happen n counter once (Key sc) s = Inr (s\<lparr>s_rb := keyboard_handler sc (s_rb s), s_ports := s_ports s @ [(0x20, 0x20)]\<rparr>)"
  by (simp add: isr_handler_def outb_def)

lemma editing_other: "editing paper home (s\<lparr>s_rb := rb, s_ports := ps\<rparr>) line \<longleftrightarrow> editing paper home s line"
  by (simp add: editing_def)

text \<open>At any time the keys typed so far are those in the line and those waiting.\<close>

lemma keys_split:
  assumes "editing paper home s (foldl edit line ks)" "rb_rep (s_rb s) ws" "length ws + length (keys_in es) \<le> 256"
    and "0 \<notin> set ws" "10 \<notin> set ws" "10 \<notin> set (keys_in es)"
  shows "\<exists>s' ks' ws'. each (happen n counter once) es s = Inr s' \<and> ks @ ws @ keys_in es = ks' @ ws' \<and>
    editing paper home s' (foldl edit line ks') \<and> rb_rep (s_rb s') ws' \<and> s_kernel s' = s_kernel s \<and> s_arg s' = s_arg s"
  using assms
proof (induction es arbitrary: s ks ws)
  case Nil
  then show ?case by auto
next
  case (Cons e es)
  show ?case
  proof (cases e)
    case (Key sc)
    let ?s = "s\<lparr>s_rb := keyboard_handler sc (s_rb s), s_ports := s_ports s @ [(0x20, 0x20)]\<rparr>"
    have ed: "editing paper home ?s (foldl edit line ks)" using Cons.prems(1) by (simp add: editing_other)
    show ?thesis
    proof (cases "key_of sc")
      case None
      then have "rb_rep (s_rb ?s) ws" using Cons.prems(2) by (simp add: keyboard_handler_key)
      from Cons.IH [OF ed this] Cons.prems(3-6) Key None key_interrupt [of n counter once sc s] show ?thesis
        by (auto simp del: happen.simps)
    next
      case (Some k)
      then have k: "k \<noteq> 0" "k \<noteq> 10" "length ws < 256" "length (ws @ [k]) + length (keys_in es) \<le> 256" "10 \<notin> set (keys_in es)"
        using Cons.prems(3,6) Key by (auto simp: key_of_def split: if_splits)
      have "rb_rep (s_rb ?s) (ws @ [k])"
        using ringbuf_push_rep [OF Cons.prems(2) k(3), of k] Some by (simp add: keyboard_handler_key)
      from Cons.IH [OF ed this k(4)] Cons.prems(4,5) k Key Some key_interrupt [of n counter once sc s] show ?thesis
        by (auto simp del: happen.simps)
    qed
  next
    case Round
    show ?thesis
    proof (cases ws)
      case Nil
      then have "happen n counter once e s = Inr s"
        using Round idle_round [of s] Cons.prems(2) by simp
      with Cons.IH [OF Cons.prems(1,2)] Cons.prems(3-6) Round show ?thesis by auto
    next
      case ws: (Cons w vs)
      from ringbuf_pop_rep [OF Cons.prems(2) [unfolded ws]] obtain rb where rb: "kbd_getchar (s_rb s) = (Some w, rb)" "rb_rep rb vs"
        by (auto simp: kbd_getchar_def)
      have "editing paper home (s\<lparr>s_rb := rb\<rparr>) (foldl edit line ks)" using Cons.prems(1) by (simp add: editing_def)
      from edit_key [OF this, of w n counter once] Cons.prems(4,5) ws obtain s1 where
        s1: "shell_key n counter once w (s\<lparr>s_rb := rb\<rparr>) = Inr s1" "editing paper home s1 (foldl edit line (ks @ [w]))"
        "same_rest (s\<lparr>s_rb := rb\<rparr>) s1" "s_rb s1 = rb" by auto
      have "happen n counter once e s = Inr s1" using Round rb(1) s1(1) by (simp add: shell_round_def)
      moreover have "rb_rep (s_rb s1) vs" using rb(2) s1(4) by simp
      note Cons.IH [OF s1(2) this]
      ultimately show ?thesis using Cons.prems(3-6) ws s1(3) Round by (auto simp: same_rest_def)
    qed
  qed
qed

lemma rounds: "length js = m \<Longrightarrow> each (happen n counter once) (replicate m Round) s = each (\<lambda>_. shell_round n counter once) (js :: nat list) s"
proof (induction js arbitrary: m s)
  case (Cons j js)
  then obtain m' where m: "m = Suc m'" "length js = m'" by auto
  then show ?case using Cons.IH by (auto intro!: andthen_cong)
qed simp

lemma idle_rounds: "rb_rep (s_rb s) [] \<Longrightarrow> each (happen n counter once) (replicate m Round) s = Inr s"
  by (induction m) (simp_all add: idle_round)

text \<open>
  Property C32. The keyboard and the shell lose nothing between them: however the keyboard interrupts and
  the rounds of the shell interleave, as long as at most 256 keys are typed and none of them is Enter
  (which \<open>enter_runs_line\<close> is about), the keys in the line and the keys still waiting are at any time
  the keys typed, in their order; and after as many further rounds as keys were typed the line, in the buffer and on the screen, is what editing by all the keys gives. The
  tasks and the last argument are untouched.
\<close>

theorem keys_reach_line:
  assumes "editing paper home s line" "rb_rep (s_rb s) []" "length (keys_in es) \<le> 256" "10 \<notin> set (keys_in es)"
  shows "\<exists>s1 s2 ks ws. each (happen n counter once) es s = Inr s1 \<and> keys_in es = ks @ ws \<and>
    editing paper home s1 (foldl edit line ks) \<and> rb_rep (s_rb s1) ws \<and>
    each (happen n counter once) (replicate (length (keys_in es)) Round) s1 = Inr s2 \<and>
    editing paper home s2 (foldl edit line (keys_in es)) \<and> rb_rep (s_rb s2) [] \<and>
    s_kernel s2 = s_kernel s \<and> s_arg s2 = s_arg s"
proof -
  from keys_split [where ks = "[]" and ws = "[]" and n = n and counter = counter and once = once, of paper home s line es] assms
  obtain s1 ks ws where s1: "each (happen n counter once) es s = Inr s1" "keys_in es = ks @ ws"
    "editing paper home s1 (foldl edit line ks)" "rb_rep (s_rb s1) ws" "s_kernel s1 = s_kernel s" "s_arg s1 = s_arg s" by auto
  have "0 \<notin> set ws" "10 \<notin> set ws" using keys_in_nonzero [of es] assms(4) s1(2) by auto
  from shell_edits_line [OF s1(3,4) this, of n counter once] obtain s2 where
    s2: "each (\<lambda>_. shell_round n counter once) [0..<length ws] s1 = Inr s2" "editing paper home s2 (foldl edit line (ks @ ws))"
      "rb_rep (s_rb s2) []" "same_rest s1 s2" by auto
  have "replicate (length (keys_in es)) Round = replicate (length ws) Round @ replicate (length ks) Round"
    by (simp add: s1(2) add.commute flip: replicate_add)
  then have "each (happen n counter once) (replicate (length (keys_in es)) Round) s1 = Inr s2"
    using rounds [of "[0..<length ws]" "length ws" n counter once s1] s2(1) idle_rounds [OF s2(3)] by (simp add: each_append)
  with s1 s2 show ?thesis by (auto simp: same_rest_def)
qed

text \<open>Typing \<open>ab\<close>, backspace and \<open>c\<close>, with a round of the shell between the keys.\<close>

theorem keys_reach_line_witness:
  "\<exists>s. each (happen 0 0 0) ([Key 0x1E, Key 0x9E, Round, Key 0x30, Key 0x0E, Round, Key 0x2E] @ replicate 4 Round) quiet_system = Inr s \<and>
    editing (\<lambda>_. 0x20) 0 s [97, 99]"
proof -
  let ?es = "[Key 0x1E, Key 0x9E, Round, Key 0x30, Key 0x0E, Round, Key 0x2E]"
  have "displays (s_vga quiet_system) 0 ((\<lambda>_. 0x20), 0 + length ([] :: u8 list))"
    using blank_screen_displays by (simp add: quiet_system_def)
  then have e: "editing (\<lambda>_. 0x20) 0 quiet_system []"
    by (rule editingI [rotated 5]) (simp_all add: quiet_system_def on_sheet_def)
  have r: "rb_rep (s_rb quiet_system) []" by (simp add: rb_rep_def quiet_system_def)
  have k: "keys_in ?es = [97, 98, 8, 99]" by code_simp
  have l: "foldl edit [] [97, 98, 8, 99] = [97, 99]" "length [97, 98, 8, 99 :: u8] = 4" "length [97, 98, 8, 99 :: u8] \<le> 256"
    "10 \<notin> set [97, 98, 8, 99 :: u8]" by (simp_all add: edit_def)
  from keys_reach_line [OF e r, of ?es 0 0 0, unfolded k, OF l(3,4)] obtain s1 s2 where
    "each (happen 0 0 0) ?es quiet_system = Inr s1" "each (happen 0 0 0) (replicate 4 Round) s1 = Inr s2"
    "editing (\<lambda>_. 0x20) 0 s2 [97, 99]" unfolding l(1,2) by blast
  then show ?thesis by (intro exI [of _ s2]) (simp only: each_append andthen_simps simp_thms)
qed

section \<open>Running a line\<close>

text \<open>The word before the first space and what follows that space.\<close>

definition word_of :: "u8 list \<Rightarrow> u8 list" where
  "word_of line = takeWhile (\<lambda>c. c \<noteq> 32) line"

definition argument_of :: "u8 list \<Rightarrow> u8 list" where
  "argument_of line = drop (Suc (length (word_of line))) line"

lemma line_split: "32 \<in> set line \<Longrightarrow> line = word_of line @ 32 # argument_of line"
  by (induction line) (auto simp: word_of_def argument_of_def)

lemma line_whole: "32 \<notin> set line \<Longrightarrow> word_of line = line \<and> argument_of line = []"
  by (induction line) (auto simp: word_of_def argument_of_def)

definition command_named :: "u8 list \<Rightarrow> command option" where
  "command_named w = map_option snd (find (\<lambda>(name, _). text_bytes name = w) commands)"

definition run_line :: "nat \<Rightarrow> u32 \<Rightarrow> u32 \<Rightarrow> u8 list \<Rightarrow> system \<Rightarrow> system result" where
  "run_line n counter once line s =
     (if line = [] then Inr s
      else
        let arg = argument_of line;
            s = s\<lparr>s_arg := arg @ 0 # drop (Suc (length arg)) (s_arg s)\<rparr>
        in case command_named (word_of line) of
             Some c \<Rightarrow> run_command n counter once c s
           | None \<Rightarrow> andthen (put ''unknown command : '' s) (\<lambda>s. andthen (put_buf (word_of line @ [0]) s) (put ''\<newline>'')))"

lemma print_upto: "0 \<notin> set w \<Longrightarrow> print (w @ 0 # rest) v = print (w @ [0]) v"
  by (induction w arbitrary: v) (auto intro: andthen_cong)

lemma put_upto: "0 \<notin> set w \<Longrightarrow> put_buf (w @ 0 # rest) = put_buf (w @ [0])"
proof -
  assume "0 \<notin> set w"
  then have "print (w @ 0 # rest) = print (w @ [0])" by (intro ext) (rule print_upto)
  then show ?thesis by (simp add: put_buf_def)
qed

lemma copy_word_spec:
  assumes "0 \<notin> set w" "32 \<notin> set w" "d = 0 \<or> d = 32" "length p + length w \<le> 128" "length w \<le> length q" "length p' = length p"
  shows "copy_word (length p) (p @ w @ d # r) (p' @ q) = Inr (length p + length w, p' @ w @ drop (length w) q)"
  using assms
proof (induction w arbitrary: p p' q)
  case Nil
  then show ?case by (subst copy_word.simps) auto
next
  case (Cons c w)
  then obtain x q' where q: "q = x # q'" by (cases q) auto
  have "copy_word (length (p @ [c])) ((p @ [c]) @ w @ d # r) ((p' @ [c]) @ q') =
      Inr (length (p @ [c]) + length w, (p' @ [c]) @ w @ drop (length w) q')"
    by (rule Cons.IH) (use Cons.prems q in auto)
  then show ?case
    using Cons.prems q by (subst copy_word.simps) (simp add: list_update_append nth_append)
qed

lemma copy_rest_spec:
  assumes "0 \<notin> set w" "length a + length w \<le> 128" "length w \<le> length q"
  shows "copy_rest (length p) (length a) (p @ w @ 0 # r) (a @ q) = Inr (length a + length w, a @ w @ drop (length w) q)"
  using assms
proof (induction w arbitrary: p a q)
  case Nil
  then show ?case by (subst copy_rest.simps) auto
next
  case (Cons c w)
  then obtain x q' where q: "q = x # q'" by (cases q) auto
  have "copy_rest (length (p @ [c])) (length (a @ [c])) ((p @ [c]) @ w @ 0 # r) ((a @ [c]) @ q') =
      Inr (length (a @ [c]) + length w, (a @ [c]) @ w @ drop (length w) q')"
    by (rule Cons.IH) (use Cons.prems q in auto)
  then show ?case
    using Cons.prems q by (subst copy_rest.simps) (simp add: list_update_append nth_append)
qed

lemma run_named_spec:
  assumes "0 \<notin> set w" "\<forall>(name, _) \<in> set cs. 0 \<notin> set (text_bytes name)"
  shows "run_named n counter once (w @ 0 # r) cs s =
    (case map_option snd (find (\<lambda>(name, _). text_bytes name = w) cs) of
       Some c \<Rightarrow> run_command n counter once c s
     | None \<Rightarrow> andthen (put ''unknown command : '' s) (\<lambda>s. andthen (put_buf (w @ [0]) s) (put ''\<newline>'')))"
  using assms(2)
proof (induction cs)
  case Nil
  then show ?case using put_upto [OF assms(1), of r] by simp
next
  case (Cons c cs)
  obtain name k where c: "c = (name, k)" by (cases c)
  obtain d where "strcmp (w @ 0 # r) (text_bytes name @ 0 # []) = Inr d" "d = 0 \<longleftrightarrow> w = text_bytes name"
    using strcmp_texts [OF assms(1), of "text_bytes name" r "[]"] Cons.prems c by auto
  with Cons c show ?case by auto
qed

lemma command_names: "\<forall>(name, _) \<in> set commands. 0 \<notin> set (text_bytes name)"
  by (simp add: commands_def text_bytes_def)

lemma set_after: "length w < length q \<Longrightarrow> (w @ drop (length w) q)[length w := x] = w @ x # drop (Suc (length w)) q"
  by (simp add: Cons_nth_drop_Suc [symmetric])

lemma dispatch_run_line:
  assumes "0 \<notin> set line" "length line \<le> 127" "length (s_arg s) = 129"
  shows "dispatch n counter once (line @ 0 # pad) s = run_line n counter once line s"
proof (cases "line = []")
  case True
  then show ?thesis by (simp add: dispatch_def run_line_def)
next
  case False
  let ?w = "word_of line" and ?a = "argument_of line"
  have zw: "0 \<notin> set ?w" "32 \<notin> set ?w" using assms(1) by (auto simp: word_of_def dest: set_takeWhileD)
  have za: "0 \<notin> set ?a" using assms(1) by (auto simp: argument_of_def dest: in_set_dropD)
  have first: "arr_get (line @ 0 # pad) 0 = Inr (hd line)" "hd line \<noteq> 0"
    using False assms(1) by (cases line; simp add: arr_get_def)+
  have lw: "length ?w \<le> length line" by (simp add: word_of_def length_takeWhile_le)
  obtain d rest where split: "line @ 0 # pad = ?w @ d # rest" "d = 0 \<or> d = 32"
    "d = 32 \<Longrightarrow> rest = ?a @ 0 # pad" "d = 0 \<Longrightarrow> ?a = []"
  proof (cases "32 \<in> set line")
    case True
    from arg_cong [OF line_split [OF this], of "\<lambda>l. l @ 0 # pad"] that [of 32 "?a @ 0 # pad"] show ?thesis by simp
  next
    case False
    from line_whole [OF this] that [of 0 pad] show ?thesis by simp
  qed
  have la: "length ?a < 129" using assms(2) by (simp add: argument_of_def)
  have word: "copy_word 0 (?w @ d # rest) (replicate 129 0) = Inr (length ?w, ?w @ drop (length ?w) (replicate 129 0))"
    using copy_word_spec [OF zw split(2), of "[]" "replicate 129 0" "[]" rest] lw assms(2) by simp
  have arg: "(if d = 32 then copy_rest (length ?w + 1) 0 (?w @ d # rest) (s_arg s) else Inr (0, s_arg s)) =
      Inr (length ?a, ?a @ drop (length ?a) (s_arg s))"
  proof (cases "d = 32")
    case True
    with split(3) show ?thesis
      using copy_rest_spec [OF za, of "[]" "s_arg s" "?w @ [32]" pad] la assms(3) by simp
  qed (use split(2,4) in simp)
  have "dispatch n counter once (?w @ d # rest) s = run_named n counter once (?w @ 0 # drop (Suc (length ?w)) (replicate 129 0))
      commands (s\<lparr>s_arg := ?a @ 0 # drop (Suc (length ?a)) (s_arg s)\<rparr>)"
    using first(2) lw assms(2) first(1) [unfolded split(1)]
    by (simp add: dispatch_def word arg set_after la assms(3) del: drop_replicate)
  with run_named_spec [OF zw(1) command_names] show ?thesis
    using False by (simp add: split(1) run_line_def command_named_def Let_def)
qed

text \<open>
  Property C33. \<open>dispatch\<close> equals the reference \<open>run_line\<close> for every line of at most 127 characters: an
  empty line does nothing; otherwise the word before the first space selects the command of that name,
  which runs with the rest of the line as its argument (never the argument of an earlier line), and an
  unknown word is reported. No access leaves \<open>cmd\<close>, \<open>spawn_arg\<close> or the line.
\<close>

theorem dispatch_runs_line:
  assumes "0 \<notin> set line" "length line \<le> 127" "length (s_arg s) = 129"
  shows "dispatch n counter once (line @ 0 # pad) s = run_line n counter once line s"
  by (rule dispatch_run_line [OF assms])

theorem dispatch_runs_line_witness:
  "dispatch 0 0 0 (text_bytes ''mem now'' @ 0 # replicate 121 0) quiet_system =
    cmd_mem (quiet_system\<lparr>s_arg := text_bytes ''now'' @ 0 # replicate 125 0\<rparr>)"
proof -
  have "0 \<notin> set (text_bytes ''mem now'')" by (simp add: text_bytes_def)
  from dispatch_runs_line [OF this] have "dispatch 0 0 0 (text_bytes ''mem now'' @ 0 # replicate 121 0) quiet_system =
      run_line 0 0 0 (text_bytes ''mem now'') quiet_system"
    by (simp add: quiet_system_def)
  moreover have "word_of (text_bytes ''mem now'') = text_bytes ''mem''" "argument_of (text_bytes ''mem now'') = text_bytes ''now''"
    by code_simp+
  moreover have "text_bytes ''mem now'' \<noteq> []" by (simp add: text_bytes_def)
  moreover have "command_named (text_bytes ''mem'') = Some Cmd_Mem" by code_simp
  ultimately show ?thesis
    by (simp add: run_line_def run_command_def quiet_system_def)
qed

text \<open>
  Enter: the cursor goes to the next line, the line that has been edited runs, and the
  buffer is empty again for the next line.
\<close>

theorem enter_runs_line:
  assumes "editing paper home s line" "length (s_arg s) = 129" "kbd_getchar (s_rb s) = (Some 10, rb)"
  shows "\<exists>s1. put ''\<newline>'' (s\<lparr>s_rb := rb\<rparr>) = Inr s1 \<and> typed (s\<lparr>s_rb := rb\<rparr>) [10] s1 \<and>
    shell_round n counter once s =
      andthen (run_line n counter once line s1) (\<lambda>s2. Inr (s2\<lparr>s_line := replicate 129 0, s_index := 0\<rparr>))"
proof -
  from assms(1) have e: "0 \<notin> set line" "length line \<le> 127" "s_line s = line @ replicate (129 - length line) 0"
    "on_screen (s\<lparr>s_rb := rb\<rparr>)" by (auto simp: editing_def on_screen_def)
  from types_run [OF types_put [of "''\<newline>''"] e(4)] obtain s1 where
    s1: "put ''\<newline>'' (s\<lparr>s_rb := rb\<rparr>) = Inr s1" "typed (s\<lparr>s_rb := rb\<rparr>) [10] s1" by (auto simp: newline_byte)
  have "129 - length line = Suc (128 - length line)" using e(2) by simp
  then have line: "s_line s1 = line @ 0 # replicate (128 - length line) 0" using e(3) typed_other(7) [OF s1(2)] by simp
  have "dispatch n counter once (s_line s1) s1 = run_line n counter once line s1"
    unfolding line using e(1,2) assms(2) typed_other(5) [OF s1(2)] by (intro dispatch_run_line) simp_all
  moreover have "length (s_line s2) = 129" if d: "dispatch n counter once (s_line s1) s1 = Inr s2" for s2
  proof -
    have "s_line s2 = s_line s1" using dispatch_keeps_line [OF typed_screen [OF s1(2)] d] .
    then show ?thesis using line e(2) by simp
  qed
  then have "andthen (dispatch n counter once (s_line s1) s1) (\<lambda>s2. andthen (memset (s_line s2) 0 129) (\<lambda>line. Inr (s2\<lparr>s_line := line, s_index := 0\<rparr>))) =
      andthen (dispatch n counter once (s_line s1) s1) (\<lambda>s2. Inr (s2\<lparr>s_line := replicate 129 0, s_index := 0\<rparr>))"
    by (intro andthen_cong) (simp_all add: memset_ok)
  ultimately show ?thesis using s1 assms(3) by (simp add: shell_round_def shell_key_def)
qed

theorem enter_runs_line_witness:
  "\<exists>s ln. shell_round 0 0 0 (quiet_system\<lparr>s_rb := fold keyboard_handler [0x1C] (s_rb quiet_system)\<rparr>) = Inr s \<and>
    displays (s_vga s) ln ((\<lambda>_. 0x20), 80) \<and> rb_rep (s_rb s) []"
proof -
  let ?s = "quiet_system\<lparr>s_rb := fold keyboard_handler [0x1C] (s_rb quiet_system)\<rparr>"
  have "displays (s_vga ?s) 0 ((\<lambda>_. 0x20), 0 + length ([] :: u8 list))"
    using blank_screen_displays by (simp add: quiet_system_def)
  then have e: "editing (\<lambda>_. 0x20) 0 ?s []"
    by (rule editingI [rotated 5]) (simp_all add: quiet_system_def on_sheet_def)
  have t: "Keyboard.typed [0x1C] = [10]" by code_simp
  have r0: "rb_rep (s_rb quiet_system) []" by (simp add: rb_rep_def quiet_system_def)
  from handler_rep [OF r0, of "[0x1C]"] have "rb_rep (s_rb ?s) [10]" by (simp only: t) simp
  from ringbuf_pop_rep [OF this] obtain rb where rb: "kbd_getchar (s_rb ?s) = (Some 10, rb)" "rb_rep rb []"
    by (auto simp: kbd_getchar_def)
  have "length (s_arg ?s) = 129" by (simp add: quiet_system_def)
  from enter_runs_line [OF e this rb(1), of 0 0 0] obtain s1 where s1: "typed (?s\<lparr>s_rb := rb\<rparr>) [10] s1"
    "shell_round 0 0 0 ?s = Inr (s1\<lparr>s_line := replicate 129 0, s_index := 0\<rparr>)" by (auto simp: run_line_def)
  have "displays (s_vga (?s\<lparr>s_rb := rb\<rparr>)) 0 ((\<lambda>_. 0x20), 0)" using blank_screen_displays by (simp add: quiet_system_def)
  with s1(1) obtain ln where "displays (s_vga s1) ln (fold type_byte [10] ((\<lambda>_. 0x20), 0))" unfolding typed_def by blast
  then show ?thesis using s1(2) rb(2) typed_other(2) [OF s1(1)] by (auto simp: type_byte_def)
qed

section \<open>\<open>spawn\<close> and \<open>clear\<close>\<close>

lemma types_arg:
  assumes "on_screen s" "s_arg s = w @ 0 # r" "0 \<notin> set w"
  shows "\<exists>s'. put_buf (s_arg s) s = Inr s' \<and> typed s w s'"
  using types_run [OF types_buf [OF assms(3), of r] assms(1)] assms(2) by simp

definition spawned_text :: "u8 list \<Rightarrow> int \<Rightarrow> u8 list" where
  "spawned_text w task_id = text_bytes (''spawned '' @ [CHR 0x27]) @ w @ text_bytes (CHR 0x27 # '' as id '') @
     text_bytes (dec (unat (of_int task_id :: u32))) @ [10]"

lemma spawn_reports:
  assumes "on_screen s" "s_arg s = w @ 0 # r" "0 \<notin> set w" "in_int (s_next_id s + 1)"
  shows "\<exists>s'. andthen (put (''spawned '' @ [CHR 0x27]) s) (\<lambda>s.
         andthen (put_buf (s_arg s) s) (\<lambda>s.
         andthen (put (CHR 0x27 # '' as id '') s) (\<lambda>s.
         andthen (put_number 32 (of_int (s_next_id s)) s) (\<lambda>s.
         andthen (put ''\<newline>'' s) (\<lambda>s.
         andthen (c_int (s_next_id s + 1)) (\<lambda>next_id. Inr (s\<lparr>s_next_id := next_id\<rparr>)))))))
       = Inr (s'\<lparr>s_next_id := s_next_id s + 1\<rparr>) \<and> typed s (spawned_text w (s_next_id s)) s'"
proof -
  have z: "0 \<notin> set (text_bytes (''spawned '' @ [CHR 0x27]))" "0 \<notin> set (text_bytes (CHR 0x27 # '' as id ''))"
    "0 \<notin> set (text_bytes ''\<newline>'')" by (simp_all add: text_bytes_def)
  from types_run [OF types_put [OF z(1)] assms(1)] obtain s1 where
    s1: "put (''spawned '' @ [CHR 0x27]) s = Inr s1" "typed s (text_bytes (''spawned '' @ [CHR 0x27])) s1" by blast
  from types_arg [OF typed_screen [OF s1(2)] _ assms(3), of r] typed_other(5) [OF s1(2)] assms(2) obtain s2 where
    s2: "put_buf (s_arg s1) s1 = Inr s2" "typed s1 w s2" by auto
  from types_run [OF types_put [OF z(2)] typed_screen [OF s2(2)]] obtain s3 where
    s3: "put (CHR 0x27 # '' as id '') s2 = Inr s3" "typed s2 (text_bytes (CHR 0x27 # '' as id '')) s3" by blast
  have "s_next_id s3 = s_next_id s"
    by (simp only: typed_other(6) [OF s3(2)] typed_other(6) [OF s2(2)] typed_other(6) [OF s1(2)])
  with types_run [OF types_number [of 32 "of_int (s_next_id s)"] typed_screen [OF s3(2)]] obtain s4 where
    s4: "put_number 32 (of_int (s_next_id s3)) s3 = Inr s4" "typed s3 (text_bytes (dec (unat (of_int (s_next_id s) :: u32)))) s4" by auto
  from types_run [OF types_put [OF z(3)] typed_screen [OF s4(2)]] obtain s5 where
    s5: "put ''\<newline>'' s4 = Inr s5" "typed s4 [10] s5" unfolding newline_byte by blast
  note all = typed_trans [OF s1(2) typed_trans [OF s2(2) typed_trans [OF s3(2) typed_trans [OF s4(2) s5(2)]]]]
  then have "typed s (spawned_text w (s_next_id s)) s5" unfolding spawned_text_def .
  moreover have "s_next_id s5 = s_next_id s" using typed_other(6) [OF all] .
  then have "c_int (s_next_id s5 + 1) = Inr (s_next_id s + 1)" using assms(4) by simp
  ultimately show ?thesis by (intro exI [of _ s5] conjI) (simp only: s1(1) s2(1) s3(1) s4(1) s5(1) andthen_simps)
qed

lemma spawn_named_found:
  assumes "on_screen s" "s_arg s = w @ 0 # r" "0 \<notin> set w" "in_int (s_next_id s + 1)" "\<forall>(name, _) \<in> set ws. 0 \<notin> set (text_bytes name)"
  shows "case find (\<lambda>(name, _). text_bytes name = w) ws of
      None \<Rightarrow> \<exists>s'. spawn_named n ws s = Inr s' \<and> typed s (text_bytes ''no such task: '' @ w @ [10]) s'
    | Some (_, fn) \<Rightarrow> (case create_task n fn (of_int (s_next_id s)) 0 (s_kernel s) of
        Inl e \<Rightarrow> spawn_named n ws s = Inl e
      | Inr (p, k) \<Rightarrow> 0 \<notin> set (h_console (k_heap k)) \<longrightarrow>
          (\<exists>s'. spawn_named n ws s = Inr (s'\<lparr>s_next_id := s_next_id s + 1\<rparr>) \<and>
            typed (s\<lparr>s_kernel := k\<lparr>k_heap := (k_heap k)\<lparr>h_console := []\<rparr>\<rparr>\<rparr>)
              (h_console (k_heap k) @ spawned_text w (s_next_id s)) s'))"
  using assms(5)
proof (induction ws)
  case Nil
  have z: "0 \<notin> set (text_bytes ''no such task: '')" "0 \<notin> set (text_bytes ''\<newline>'')" by (simp_all add: text_bytes_def)
  from types_run [OF types_put [OF z(1)] assms(1)] obtain s1 where
    s1: "put ''no such task: '' s = Inr s1" "typed s (text_bytes ''no such task: '') s1" by blast
  from types_arg [OF typed_screen [OF s1(2)] _ assms(3), of r] typed_other(5) [OF s1(2)] assms(2) obtain s2 where
    s2: "put_buf (s_arg s1) s1 = Inr s2" "typed s1 w s2" by auto
  from types_run [OF types_put [OF z(2)] typed_screen [OF s2(2)]] obtain s3 where
    s3: "put ''\<newline>'' s2 = Inr s3" "typed s2 [10] s3" unfolding newline_byte by blast
  from typed_trans [OF s1(2) typed_trans [OF s2(2) s3(2)]] s1(1) s2(1) s3(1) show ?case by simp
next
  case (Cons x ws)
  obtain name fn where x: "x = (name, fn)" by (cases x)
  obtain d where d: "strcmp (w @ 0 # r) (text_bytes name @ 0 # []) = Inr d" "d = 0 \<longleftrightarrow> w = text_bytes name"
    using strcmp_texts [OF assms(3), of "text_bytes name" r "[]"] Cons.prems x by auto
  show ?case
  proof (cases "w = text_bytes name")
    case False
    then have "find (\<lambda>(name, _). text_bytes name = w) (x # ws) = find (\<lambda>(name, _). text_bytes name = w) ws" using x by auto
    moreover have "spawn_named n (x # ws) s = spawn_named n ws s" using False d assms(2) x by simp
    moreover have "\<forall>(name, _) \<in> set ws. 0 \<notin> set (text_bytes name)" using Cons.prems by simp
    note Cons.IH [OF this]
    ultimately show ?thesis by (simp only:)
  next
    case True
    have found: "find (\<lambda>(name, _). text_bytes name = w) (x # ws) = Some (name, fn)" using True x by simp
    show ?thesis
    proof (cases "create_task n fn (of_int (s_next_id s)) 0 (s_kernel s)")
      case (Inl e)
      then show ?thesis unfolding found using d True assms(2) x by simp
    next
      case (Inr pk)
      obtain p k where pk: "pk = (p, k)" by (cases pk)
      let ?s = "s\<lparr>s_kernel := k\<lparr>k_heap := (k_heap k)\<lparr>h_console := []\<rparr>\<rparr>\<rparr>"
      have o: "on_screen ?s" using assms(1) by (simp add: on_screen_def)
      have "\<exists>s'. spawn_named n (x # ws) s = Inr (s'\<lparr>s_next_id := s_next_id s + 1\<rparr>) \<and>
          typed ?s (h_console (k_heap k) @ spawned_text w (s_next_id s)) s'" if c: "0 \<notin> set (h_console (k_heap k))"
      proof -
        from types_run [OF types_buf [OF c, of "[]"] o] obtain s1 where
          "put_buf (h_console (k_heap k) @ [0]) ?s = Inr s1" and s1: "typed ?s (h_console (k_heap k)) s1" by blast
        then have f: "flush_messages (s\<lparr>s_kernel := k\<rparr>) = Inr s1" by (simp add: flush_messages_def Let_def)
        have fields: "s_arg s1 = w @ 0 # r" "s_next_id s1 = s_next_id s" using typed_other [OF s1] assms(2) by simp_all
        from spawn_reports [OF typed_screen [OF s1] fields(1) assms(3)] assms(4) fields(2) obtain s' where
          "andthen (put (''spawned '' @ [CHR 0x27]) s1) (\<lambda>s.
             andthen (put_buf (s_arg s) s) (\<lambda>s.
             andthen (put (CHR 0x27 # '' as id '') s) (\<lambda>s.
             andthen (put_number 32 (of_int (s_next_id s)) s) (\<lambda>s.
             andthen (put ''\<newline>'' s) (\<lambda>s.
             andthen (c_int (s_next_id s + 1)) (\<lambda>next_id. Inr (s\<lparr>s_next_id := next_id\<rparr>))))))) =
           Inr (s'\<lparr>s_next_id := s_next_id s + 1\<rparr>)" and s': "typed s1 (spawned_text w (s_next_id s)) s'" by auto
        then have "spawn_named n (x # ws) s = Inr (s'\<lparr>s_next_id := s_next_id s + 1\<rparr>)"
          using d True assms(2) Inr pk f x by (simp del: append_Cons)
        with typed_trans [OF s1 s'] show ?thesis by blast
      qed
      then show ?thesis unfolding found using Inr pk by simp
    qed
  qed
qed

lemma spawnable_names: "\<forall>(name, _) \<in> set (spawnables counter once). 0 \<notin> set (text_bytes name)"
  by (simp add: spawnables_def text_bytes_def)

text \<open>
  Property C34. \<open>spawn\<close>: without an argument the usage is shown; an unknown name is reported; the name
  of a spawnable creates a task with its function and the next id, reports both on the screen after
  whatever the heap has printed, and advances the id. When the task cannot be created, so ends the
  command.
\<close>

theorem spawn_starts_task:
  assumes "on_screen s" "s_arg s = w @ 0 # r" "0 \<notin> set w" "in_int (s_next_id s + 1)"
  shows "if w = [] then \<exists>s'. cmd_spawn n counter once s = Inr s' \<and> typed s (text_bytes ''usage: spawn <name>\<newline>'') s'
    else (case find (\<lambda>(name, _). text_bytes name = w) (spawnables counter once) of
      None \<Rightarrow> \<exists>s'. cmd_spawn n counter once s = Inr s' \<and> typed s (text_bytes ''no such task: '' @ w @ [10]) s'
    | Some (_, fn) \<Rightarrow> (case create_task n fn (of_int (s_next_id s)) 0 (s_kernel s) of
        Inl e \<Rightarrow> cmd_spawn n counter once s = Inl e
      | Inr (p, k) \<Rightarrow> 0 \<notin> set (h_console (k_heap k)) \<longrightarrow>
          (\<exists>s'. cmd_spawn n counter once s = Inr (s'\<lparr>s_next_id := s_next_id s + 1\<rparr>) \<and>
            typed (s\<lparr>s_kernel := k\<lparr>k_heap := (k_heap k)\<lparr>h_console := []\<rparr>\<rparr>\<rparr>)
              (h_console (k_heap k) @ spawned_text w (s_next_id s)) s')))"
proof (cases "w = []")
  case True
  have "0 \<notin> set (text_bytes ''usage: spawn <name>\<newline>'')" by (simp add: text_bytes_def)
  from types_run [OF types_put [OF this] assms(1)] True assms(2) show ?thesis by (simp add: cmd_spawn_def arr_get_def)
next
  case False
  then have "arr_get (s_arg s) 0 = Inr (hd w)" "hd w \<noteq> 0" using assms(2,3) by (cases w; simp add: arr_get_def)+
  then have "cmd_spawn n counter once s = spawn_named n (spawnables counter once) s" by (simp add: cmd_spawn_def)
  then show ?thesis using False spawn_named_found [OF assms spawnable_names, of n counter once] by (simp only: if_False)
qed

text \<open>\<open>spawn once\<close> on an idle kernel.\<close>

theorem spawn_starts_task_witness:
  "\<exists>bm s. cmd_spawn 1 0x1000 0x2000 (quiet_system\<lparr>s_kernel := spawning_kernel bm, s_arg := text_bytes ''once'' @ 0 # replicate 124 0\<rparr>)
      = Inr s \<and> s_next_id s = 101"
proof -
  obtain bm p k where
    k: "create_task 1 0x2000 (of_int 100) 0 (spawning_kernel bm) = Inr (p, k)" "h_console (k_heap k) = []"
    using spawning_create by blast
  let ?s = "quiet_system\<lparr>s_kernel := spawning_kernel bm, s_arg := text_bytes ''once'' @ 0 # replicate 124 0\<rparr>"
  have on: "on_screen ?s" using quiet_on_screen by (simp add: on_screen_def)
  have id: "s_next_id ?s = 100" by (simp add: quiet_system_def)
  have z: "0 \<notin> set (text_bytes ''once'')" "text_bytes ''once'' \<noteq> []" by (simp_all add: text_bytes_def)
  have f: "find (\<lambda>(name, _). text_bytes name = text_bytes ''once'') (spawnables 0x1000 0x2000) = Some (''once'', 0x2000)"
    by code_simp
  have "s_arg ?s = text_bytes ''once'' @ 0 # replicate 124 0" "in_int (s_next_id ?s + 1)" "s_kernel ?s = spawning_kernel bm"
    using id by (simp_all add: in_int_def)
  with spawn_starts_task [where n = 1 and counter = "0x1000" and once = "0x2000", OF on this(1) z(1) this(2)] k id z(2)
  have "\<exists>s'. cmd_spawn 1 0x1000 0x2000 ?s = Inr (s'\<lparr>s_next_id := 101\<rparr>)"
    unfolding f by auto
  then show ?thesis by (intro exI [of _ bm]) auto
qed

section \<open>\<open>clear\<close>\<close>

lemma erase_many:
  assumes "displays (s_vga s) ln (tape, pos)"
  shows "\<exists>v. each (\<lambda>_. on_vga removeChar) (js :: nat list) s = Inr (s\<lparr>s_vga := v\<rparr>) \<and>
    displays v ln ((\<lambda>j. if 80 * ln \<le> j \<and> pos - length js \<le> j \<and> j < pos then 0x20 else tape j), max (80 * ln) (pos - length js))"
  using assms
proof (induction js arbitrary: s tape pos)
  case Nil
  then have "80 * ln \<le> pos" by (simp add: displays_def)
  then have "max (80 * ln) pos = pos" by simp
  moreover have "(\<lambda>j. if 80 * ln \<le> j \<and> pos \<le> j \<and> j < pos then 0x20 else tape j) = tape" by (auto simp: fun_eq_iff)
  ultimately show ?case using Nil by (intro exI [of _ "s_vga s"]) simp
next
  case (Cons j js)
  from removeChar_back [OF Cons.prems] obtain v where v: "removeChar (s_vga s) = Inr v"
    "displays v ln (if pos = 80 * ln then (tape, pos) else (tape(pos - 1 := 0x20), pos - 1))" by blast
  let ?t = "if pos = 80 * ln then tape else tape(pos - 1 := 0x20)" and ?p = "if pos = 80 * ln then pos else pos - 1"
  have "displays (s_vga (s\<lparr>s_vga := v\<rparr>)) ln (?t, ?p)" using v(2) by (simp split: if_splits)
  from Cons.IH [OF this] obtain u where u: "each (\<lambda>_. on_vga removeChar) js (s\<lparr>s_vga := v\<rparr>) = Inr (s\<lparr>s_vga := u\<rparr>)"
    "displays u ln ((\<lambda>j. if 80 * ln \<le> j \<and> ?p - length js \<le> j \<and> j < ?p then 0x20 else ?t j), max (80 * ln) (?p - length js))" by auto
  have le: "80 * ln \<le> pos" using Cons.prems by (simp add: displays_def)
  have "(\<lambda>i. if 80 * ln \<le> i \<and> ?p - length js \<le> i \<and> i < ?p then 0x20 else ?t i) =
      (\<lambda>i. if 80 * ln \<le> i \<and> pos - length (j # js) \<le> i \<and> i < pos then 0x20 else tape i)"
    using le by (auto simp: fun_eq_iff)
  moreover have "max (80 * ln) (?p - length js) = max (80 * ln) (pos - length (j # js))" using le by auto
  moreover have "on_vga removeChar s = Inr (s\<lparr>s_vga := v\<rparr>)" using v(1) by (simp add: on_vga_def)
  ultimately show ?case using u by (intro exI [of _ u]) simp
qed

text \<open>
  \<open>clear\<close> sends the cursor to the top left corner, whatever is on the screen, and blanks
  every cell up to where the cursor was; nothing but the screen changes.
\<close>

theorem clear_homes_cursor:
  assumes "displays (s_vga s) ln (tape, pos)"
  shows "\<exists>v. cmd_clear s = Inr (s\<lparr>s_vga := v\<rparr>) \<and> vga_row v = 0 \<and> vga_col v = 0 \<and>
    displays v ln ((\<lambda>j. if 80 * ln \<le> j \<and> j < pos then 0x20 else tape j), 80 * ln)"
proof -
  have p: "pos < 80 * ln + 2000" using assms by (simp add: displays_def)
  then have "(\<lambda>j. if 80 * ln \<le> j \<and> pos - 2000 \<le> j \<and> j < pos then 0x20 else tape j) =
      (\<lambda>j. if 80 * ln \<le> j \<and> j < pos then 0x20 else tape j)" "max (80 * ln) (pos - 2000) = 80 * ln"
    by (auto simp: fun_eq_iff)
  with erase_many [OF assms, of "[0..<80 * 25]"] obtain v where "cmd_clear s = Inr (s\<lparr>s_vga := v\<rparr>)"
    "displays v ln ((\<lambda>j. if 80 * ln \<le> j \<and> j < pos then 0x20 else tape j), 80 * ln)" by (auto simp: cmd_clear_def)
  then show ?thesis by (auto simp: displays_def)
qed

theorem clear_homes_cursor_witness:
  "\<exists>v. cmd_clear quiet_system = Inr (quiet_system\<lparr>s_vga := v\<rparr>) \<and> vga_row v = 0 \<and> vga_col v = 0"
  using clear_homes_cursor [of quiet_system 0 "\<lambda>_. 0x20" 0] blank_screen_displays by (auto simp: quiet_system_def)

end
