(* ===== verification/Boot.thy ===== *)
theory Boot
  imports Sched_Steps Heap_Spec Keyboard Tables
begin

text \<open>
  \<^verbatim>\<open>kmain\<close> of \<^verbatim>\<open>pelikanOS/src/kernel.c\<close> up to its call of \<open>schedule\<close>: it starts every component and
  makes the first three tasks. The main theorem says that it arrives in the state in which the
  executions of \<open>Sched_Steps\<close> begin.
\<close>

section \<open>\<open>kmain\<close>\<close>

text \<open>
  What the linker and the boot loader provide: the addresses of the interrupt stubs, the memory map,
  the symbols of the linker script and the addresses of the three thread functions.
\<close>

record image =
  i_isr_table :: "u32 list"
  i_entry :: "u32 \<Rightarrow> multiboot_mmap_entry"
  i_mmap_addr :: u32
  i_mmap_length :: u32
  i_kernel_start :: u32
  i_kernel_end :: u32
  i_stack_bottom :: u32
  i_reaper_thread :: u32
  i_shell_run :: u32
  i_clock_thread :: u32

text \<open>\<open>b_gdt_limit\<close> and \<open>b_idt_limit\<close> are the limits in \<open>gdt_ptr\<close> and \<open>idt_ptr\<close>.\<close>

record boot =
  b_gdt :: "gdt_entry list"
  b_gdt_limit :: u16
  b_idt :: "idt_entry list"
  b_idt_limit :: u16
  b_ports :: ports
  b_kernel :: kernel
  b_rb :: RB

definition kmain :: "nat \<Rightarrow> image \<Rightarrow> boot \<Rightarrow> boot result" where
  "kmain n i b =
     andthen (gdt_init (b_gdt b)) (\<lambda>(gdt, limit). let b = b\<lparr>b_gdt := gdt, b_gdt_limit := limit\<rparr> in
     andthen (idt_init (i_isr_table i) (b_idt b)) (\<lambda>(idt, limit). let b = b\<lparr>b_idt := idt, b_idt_limit := limit\<rparr> in
     andthen (pit_init 100 (pic_remap (b_ports b))) (\<lambda>ports. let b = b\<lparr>b_ports := ports\<rparr> in
     andthen (pmm_init n (i_entry i) (i_mmap_addr i) (i_mmap_length i) (i_kernel_start i) (i_kernel_end i)) (\<lambda>bitmap.
     let k = (b_kernel b)\<lparr>k_heap := (k_heap (b_kernel b))\<lparr>h_bitmap := bitmap\<rparr>\<rparr> in
     andthen (on_vmm (\<lambda>v. Inr (vmm_unmap_page (i_stack_bottom i - 4096) v)) k) (\<lambda>k.
     let b = b\<lparr>b_rb := keyboard_init (b_rb b)\<rparr> in
     andthen (spawn_reaper n (i_reaper_thread i) k) (\<lambda>k.
     andthen (create_task n (i_shell_run i) 0 0 k) (\<lambda>(_, k).
     andthen (create_task n (i_clock_thread i) 1 0 k) (\<lambda>(_, k).
       Inr (b\<lparr>b_kernel := k\<rparr>)))))))))"

section \<open>Creating a task succeeds\<close>

text \<open>Fewer free frames do not disturb the heap.\<close>

lemma heap_fewer_frames:
  assumes "heap_valid s" "bitmap_ok bm" "free_frames bm \<subseteq> free_frames (h_bitmap s)"
  shows "heap_valid (s\<lparr>h_bitmap := bm\<rparr>)" "heap_live (s\<lparr>h_bitmap := bm\<rparr>) = heap_live s"
proof -
  from assms(1) obtain bs where inv: "heap_inv s bs" by (auto simp: heap_valid_def)
  then have inv': "heap_inv (s\<lparr>h_bitmap := bm\<rparr>) bs" using assms(2,3) by (auto simp: heap_inv_def stamped_def)
  then show "heap_valid (s\<lparr>h_bitmap := bm\<rparr>)" by (auto simp: heap_valid_def)
  have c: "map (chunk_at (s\<lparr>h_bitmap := bm\<rparr>)) bs = map (chunk_at s) bs" by (simp add: chunk_at_def)
  show "heap_live (s\<lparr>h_bitmap := bm\<rparr>) = heap_live s"
    by (rule map_eqI) (simp only: heap_live_iff [OF inv] heap_live_iff [OF inv'] c)
qed

lemma live_not_null:
  assumes "heap_valid s" "heap_live s p = Some k"
  shows "p \<noteq> 0"
proof
  assume "p = 0"
  from assms obtain bs where inv: "heap_inv s bs" and p: "p - 20 \<in> set bs" by (auto simp: heap_live_def split: if_splits)
  from heap_inv_bound [OF inv p] show False by (simp add: \<open>p = 0\<close> block_end_def)
qed

text \<open>A run of free frames loses at most its first \<open>n\<close> frames to a request of \<open>n\<close> frames.\<close>

lemma kmalloc_frames:
  assumes "heap_valid s" "{a..<a + Suc m} \<subseteq> free_frames (h_bitmap s)" "0 < sz" "unat sz \<le> 4076"
    "kmalloc heap_fuel sz s = Inr (p, s')"
  shows "{a + 1..<a + Suc m} \<subseteq> free_frames (h_bitmap s')"
proof -
  from assms(1) obtain bs where inv: "heap_inv s bs" by (auto simp: heap_valid_def)
  then have fin: "finite (free_frames (h_bitmap s))" "free_frames (h_bitmap s) \<noteq> {}"
    using assms(2) finite_subset [of "free_frames (h_bitmap s)" "{..<MAX_FRAMES}"] free_frames_bound by (auto simp: heap_inv_def)
  have "Min (free_frames (h_bitmap s)) \<le> a" using fin(1) assms(2) by (intro Min_le) auto
  moreover have "free_frames (h_bitmap s) - {Min (free_frames (h_bitmap s))} \<subseteq> free_frames (h_bitmap s')"
    using kmalloc_spec [OF inv assms(3,4) heap_inv_length [OF inv] fin(2)] assms(5) by (auto split: if_splits)
  ultimately show ?thesis using assms(2) by fastforce
qed

lemma contiguous_frames:
  assumes "bitmap_ok bm" "{a..<a + Suc (Suc m)} \<subseteq> free_frames bm"
  shows "\<exists>base bm'. pmm_alloc_contiguous 2 bm = Inr (base, bm') \<and> bitmap_ok bm' \<and> free_frames bm' \<subseteq> free_frames bm \<and>
    {a + 2..<a + Suc (Suc m)} \<subseteq> free_frames bm'"
proof -
  let ?s = "LEAST s. run_at bm 2 s"
  have run: "run_at bm 2 a" using assms(2) by (auto simp: run_at_def)
  then have "?s \<le> a" by (rule Least_le)
  moreover have "0 < (2 :: int) \<and> (\<exists>s. run_at bm (nat 2) s)" using run by auto
  with pmm_alloc_contiguous_spec [OF assms(1), of 2] obtain bm' where
    "pmm_alloc_contiguous 2 bm = Inr (of_nat ?s * 4096, bm')" "bitmap_ok bm'" "free_frames bm' = free_frames bm - {?s..<?s + 2}"
    by (auto simp: in_int_def)
  ultimately show ?thesis using assms(2) by fastforce
qed

text \<open>The fields of the kernel that a new task structure does not touch.\<close>

definition same_lists :: "kernel \<Rightarrow> kernel \<Rightarrow> bool" where
  "same_lists k k' \<longleftrightarrow> k_queue k' = k_queue k \<and> k_dead_q k' = k_dead_q k \<and> k_current k' = k_current k \<and> k_reaper k' = k_reaper k \<and>
     k_last k' = k_last k \<and> k_num k' = k_num k \<and> k_locks k' = k_locks k"

lemma new_task_total:
  assumes "heap_valid (k_heap k)" "{a..<a + (m + 3)} \<subseteq> free_frames (h_bitmap (k_heap k))"
  shows "\<exists>p k' d t. new_task heap_fuel code task_id k = Inr (p, k') \<and> heap_valid (k_heap k') \<and>
    {a + 3..<a + (m + 3)} \<subseteq> free_frames (h_bitmap (k_heap k')) \<and> heap_live (k_heap k) p = None \<and>
    heap_live (k_heap k') = (heap_live (k_heap k))(p \<mapsto> d) \<and> p \<noteq> 0 \<and> same_lists k k' \<and>
    k_tasks k' = (k_tasks k)(p := t) \<and> t_id t = task_id \<and> t_EIP t = code"
proof -
  from assms(1) obtain bs where "heap_inv (k_heap k) bs" by (auto simp: heap_valid_def)
  then have "finite (free_frames (h_bitmap (k_heap k)))"
    using finite_subset [of _ "{..<MAX_FRAMES}"] free_frames_bound by (auto simp: heap_inv_def)
  then have room: "0 < card (free_frames (h_bitmap (k_heap k)))" using assms(2) by (auto simp: card_gt_0_iff)
  obtain p h d where h: "kmalloc heap_fuel 44 (k_heap k) = Inr (p, h)" "heap_valid h" "heap_live (k_heap k) p = None"
    "heap_live h = (heap_live (k_heap k))(p \<mapsto> d)"
    using kheap.malloc_new [OF assms(1) _ room, of 44] by auto
  have f1: "{a + 1..<a + 1 + Suc (Suc m)} \<subseteq> free_frames (h_bitmap h)"
    using kmalloc_frames [OF assms(1) _ _ _ h(1), of a "Suc (Suc m)"] assms(2) by (simp add: numeral_3_eq_3)
  have "bitmap_ok (h_bitmap h)" using h(2) by (auto simp: heap_valid_def heap_inv_def)
  from contiguous_frames [OF this f1] obtain base bm where bm: "pmm_alloc_contiguous 2 (h_bitmap h) = Inr (base, bm)" "bitmap_ok bm"
    "free_frames bm \<subseteq> free_frames (h_bitmap h)" "{a + 3..<a + (m + 3)} \<subseteq> free_frames bm" by (auto simp: numeral_3_eq_3)
  note h' = heap_fewer_frames [OF h(2) bm(2,3)]
  have "p \<noteq> 0" using live_not_null [OF h(2), of p d] h(4) by simp
  let ?k1 = "k\<lparr>k_heap := h\<lparr>h_bitmap := bm\<rparr>\<rparr>"
  have v: "v_bitmap (vmm_unmap_page base ((k_vmm ?k1)\<lparr>v_bitmap := bm\<rparr>)) = bm"
    by (simp add: vmm_unmap_page_def Let_def)
  show ?thesis
    using h bm h' v \<open>p \<noteq> 0\<close>
    by (auto simp: new_task_def on_vmm_def Let_def same_lists_def split: prod.splits)
qed

lemma ring_frame: "ring h l xs \<Longrightarrow> (\<And>x. x \<in> set xs \<Longrightarrow> t_next (h' x) = t_next (h x) \<and> t_prev (h' x) = t_prev (h x)) \<Longrightarrow> ring h' l xs"
proof -
  assume r: "ring h l xs" and f: "\<And>x. x \<in> set xs \<Longrightarrow> t_next (h' x) = t_next (h x) \<and> t_prev (h' x) = t_prev (h x)"
  have "dlinks (\<lambda>p. t_next (h' p)) (\<lambda>p. t_prev (h' p)) (xs @ [hd xs])" if "xs \<noteq> []"
  proof (rule dlinks_cong)
    show "dlinks (\<lambda>p. t_next (h p)) (\<lambda>p. t_prev (h p)) (xs @ [hd xs])" using r that by (simp add: ring_def)
  qed (use f that in \<open>auto simp: butlast_append tl_append split: list.splits\<close>)
  with r show ?thesis by (auto simp: ring_def)
qed

text \<open>The identity and the entry of a task, which no list operation changes.\<close>

definition about :: "store \<Rightarrow> u32 \<Rightarrow> u32 \<times> u32" where
  "about h p = (t_id (h p), t_EIP (h p))"

lemma publish_links [simp]:
  "t_next (k_tasks (publish_task type p k) x) = t_next (k_tasks k x)"
  "t_prev (k_tasks (publish_task type p k) x) = t_prev (k_tasks k x)"
  "about (k_tasks (publish_task type p k)) x = about (k_tasks k) x"
  "k_last (publish_task type p k) = k_last k" "k_num (publish_task type p k) = k_num k" "k_heap (publish_task type p k) = k_heap k"
  by (auto simp: publish_task_def set_state_def on_ready_def add_task_to_ready_queue_def at_ptr_def about_def Let_def split: prod.splits)

lemma insert_about [simp]: "about (snd (insert_task p s)) x = about (snd s) x"
  by (auto simp: insert_task_def at_ptr_def about_def Let_def split: prod.splits)

text \<open>What the scheduler's lists are once the structure is written, and after \<open>publish_task\<close>.\<close>

definition a_made :: "u32 \<Rightarrow> asched \<Rightarrow> asched" where
  "a_made p a = a\<lparr>a_state := (a_state a)(p := 0)\<rparr>"

definition a_announce :: "int \<Rightarrow> u32 \<Rightarrow> asched \<Rightarrow> asched" where
  "a_announce type p a = (if type = 1 then a\<lparr>a_state := (a_state a)(p := TASK_BLOCKED), a_reaper := p\<rparr> else a_make_ready p a)"

lemma models_reaper: "models k a \<Longrightarrow> models (k\<lparr>k_reaper := p\<rparr>) (a\<lparr>a_reaper := p\<rparr>)"
  by (simp add: models_def)

lemma models_announce:
  assumes "models k a" "p \<noteq> 0" "p \<notin> set (a_ready a)" "type = 0 \<or> type = 1"
  shows "models (publish_task type p k) (a_announce type p a)"
proof (cases "type = 1")
  case True
  with models_reaper [OF models_set_state [OF assms(1), of p TASK_BLOCKED], of p] show ?thesis
    by (simp add: publish_task_def a_announce_def)
next
  case False
  with assms(3,4) models_add_ready [OF models_set_state [OF assms(1), of p TASK_READY] assms(2)] show ?thesis
    by (simp add: publish_task_def a_announce_def a_make_ready_def)
qed

text \<open>All tasks of the lists are blocks of the heap, and the ring holds exactly \<open>xs\<close>.\<close>

definition tasks_in :: "kernel \<Rightarrow> asched \<Rightarrow> u32 list \<Rightarrow> bool" where
  "tasks_in k a xs \<longleftrightarrow> models k a \<and> ring (k_tasks k) (k_last k) xs \<and> heap_valid (k_heap k) \<and> set xs \<subseteq> dom (heap_live (k_heap k)) \<and>
     set (a_ready a) \<subseteq> set xs \<and> set (a_dead a) \<subseteq> set xs \<and> (\<forall>l. set (a_wait a l) \<subseteq> set xs) \<and> k_num k = int (length xs)"

lemma create_task_total:
  assumes "tasks_in k a xs" "{f..<f + (m + 3)} \<subseteq> free_frames (h_bitmap (k_heap k))" "length xs < 100" "type = 0 \<or> type = 1"
  shows "\<exists>p k'. create_task heap_fuel code task_id type k = Inr (p, k') \<and> p \<noteq> 0 \<and> p \<notin> set xs \<and>
    tasks_in k' (a_announce type p (a_made p a)) (xs @ [p]) \<and>
    {f + 3..<f + (m + 3)} \<subseteq> free_frames (h_bitmap (k_heap k')) \<and> about (k_tasks k') p = (task_id, code) \<and>
    (\<forall>x \<in> set xs. about (k_tasks k') x = about (k_tasks k) x)"
proof -
  from assms(1) have k: "models k a" "ring (k_tasks k) (k_last k) xs" "heap_valid (k_heap k)" "set xs \<subseteq> dom (heap_live (k_heap k))"
     "set (a_ready a) \<subseteq> set xs" "set (a_dead a) \<subseteq> set xs" "\<forall>l. set (a_wait a l) \<subseteq> set xs" "k_num k = int (length xs)"
    unfolding tasks_in_def by simp_all
  from new_task_total [OF k(3) assms(2)] obtain p k1 d t where
    n: "new_task heap_fuel code task_id k = Inr (p, k1)" "heap_valid (k_heap k1)" "{f + 3..<f + (m + 3)} \<subseteq> free_frames (h_bitmap (k_heap k1))"
      "heap_live (k_heap k) p = None" "heap_live (k_heap k1) = (heap_live (k_heap k))(p \<mapsto> d)" "p \<noteq> 0" "same_lists k k1"
      "k_tasks k1 = (k_tasks k)(p := t)" "t_id t = task_id" "t_EIP t = code" by blast
  have new: "p \<notin> set xs" using n(4) k(4) by auto
  let ?a = "a_made p a"
  have "p \<notin> set (a_ready a)" "p \<notin> set (a_dead a)" "\<forall>l. p \<notin> set (a_wait a l)" using new k(5,6,7) by blast+
  from models_new_task [OF k(1) n(1) this] have m1: "models k1 ?a" by (simp add: a_made_def)
  let ?k2 = "publish_task type p k1"
  have m2: "models ?k2 (a_announce type p ?a)"
    using models_announce [OF m1 n(6)] \<open>p \<notin> set (a_ready a)\<close> assms(4) by (simp add: a_made_def)
  have last: "k_last ?k2 = k_last k" "k_num ?k2 = int (length xs)" using n(7) k(8) by (simp_all add: same_lists_def)
  have r2: "ring (k_tasks ?k2) (k_last k) xs" using k(2) new n(8) by (intro ring_frame [OF k(2)]) auto
  obtain l' h' where ins: "insert_task p (k_last k, k_tasks ?k2) = (l', h')" by fastforce
  from ring_insert [OF r2 n(6) new ins] have r3: "ring h' l' (xs @ [p])" .
  let ?k3 = "(on_ring (insert_task p) ?k2)\<lparr>k_num := int (length xs) + 1\<rparr>"
  have link: "link_task p ?k2 = Inr ?k3" using last assms(3) by (simp add: link_task_def Let_def on_ring_def in_int_def split: prod.splits)
  have k3: "k_tasks ?k3 = h'" "k_last ?k3 = l'" "k_heap ?k3 = k_heap k1" "k_num ?k3 = int (length (xs @ [p]))"
    using ins last(1) by (simp_all add: on_ring_def)
  have ab: "about h' x = about (k_tasks k1) x" for x using insert_about [of p "(k_last k, k_tasks ?k2)" x] ins by simp
  have "models ?k3 (a_announce type p ?a)" using models_link [OF link] m2 by simp
  moreover have "set (a_ready (a_announce type p ?a)) \<subseteq> set (xs @ [p])" "a_dead (a_announce type p ?a) = a_dead a"
    "a_wait (a_announce type p ?a) = a_wait a" using k(5) by (auto simp: a_announce_def a_make_ready_def a_made_def)
  ultimately have "tasks_in ?k3 (a_announce type p ?a) (xs @ [p])"
    using r3 k3 n(2,5) k(4,6,7) unfolding tasks_in_def by auto
  moreover have "create_task heap_fuel code task_id type k = Inr (p, ?k3)" using n(1) link by (simp add: create_task_def)
  ultimately show ?thesis using n(3,6,8,9,10) new ab k3
    by (intro exI [of _ p] exI [of _ ?k3]) (auto simp: about_def)
qed

section \<open>The boot reaches the scheduler\<close>

text \<open>The zeroed globals of the scheduler, the mutexes and the heap.\<close>

definition unused :: "kernel \<Rightarrow> bool" where
  "unused k \<longleftrightarrow> k_queue k = \<lparr>queue_head = 0, queue_tail = 0\<rparr> \<and> k_dead_q k = \<lparr>dead_head = 0, dead_tail = 0\<rparr> \<and>
     (\<forall>l. k_locks k l = \<lparr>m_locked = 0, m_holder = 0, m_queue_head = 0, m_queue_tail = 0\<rparr>) \<and>
     k_last k = 0 \<and> k_num k = 0 \<and> h_head (k_heap k) = 0"

definition no_tasks :: "kernel \<Rightarrow> asched" where
  "no_tasks k = \<lparr>a_ready = [], a_dead = [], a_wait = (\<lambda>_. []), a_state = state_of k, a_current = k_current k, a_reaper = k_reaper k,
     a_held = (\<lambda>_. None)\<rparr>"

lemma unused_tasks_in:
  assumes "unused k" "bitmap_ok (h_bitmap (k_heap k))" "0 \<notin> free_frames (h_bitmap (k_heap k))"
  shows "tasks_in k (no_tasks k) []"
proof -
  have "heap_inv (k_heap k) []" using assms by (simp add: unused_def heap_inv_def regions_def)
  then show ?thesis using assms(1)
    by (auto simp: unused_def tasks_in_def no_tasks_def models_def holds_list_def ready_view_def dead_view_def waiting_view_def
      linked_def ring_def heap_valid_def)
qed

text \<open>The configuration in which \<open>schedule\<close> is entered.\<close>

definition entered :: "kernel \<Rightarrow> u32 set \<Rightarrow> conf" where
  "entered k made = \<lparr>c_kernel = k, c_sched = True, c_at = (\<lambda>_. Free), c_made = made, c_inside = {}\<rparr>"

lemma tasks_in_start:
  assumes "tasks_in k (a_announce 0 c (a_made c (a_announce 0 s (a_made s (a_announce 1 r (a_made r (no_tasks j))))))) [r, s, c]"
  shows "start (entered k {r, s, c}) [s, c]"
proof -
  let ?a = "a_announce 0 c (a_made c (a_announce 0 s (a_made s (a_announce 1 r (a_made r (no_tasks j))))))"
  have m: "models k ?a" and d: "distinct [r, s, c]" "0 \<notin> {r, s, c}"
    using assms by (simp_all add: tasks_in_def ring_def)
  have a: "a_ready ?a = [s, c]" "a_dead ?a = []" "a_wait ?a = (\<lambda>_. [])" "a_reaper ?a = r" "a_held ?a = (\<lambda>_. None)"
    "a_state ?a s = TASK_READY" "a_state ?a c = TASK_READY" "a_state ?a r = TASK_BLOCKED"
    using d by (auto simp: a_announce_def a_make_ready_def a_made_def no_tasks_def)
  have k: "holds_list ready_view (k_queue k, k_tasks k) [s, c]" "holds_list dead_view (k_dead_q k, k_tasks k) []"
    "\<forall>l. holds_list waiting_view (k_locks k l, k_tasks k) []" "state_of k = a_state ?a" "k_reaper k = r"
    "\<forall>l. m_locked (k_locks k l) = 0"
    using m a(1-5) by (auto simp: models_def split: if_splits)
  show ?thesis using k a(6-8) d by (auto simp: start_def entered_def)
qed

lemma unmap_keeps_frames:
  "on_vmm (\<lambda>v. Inr (vmm_unmap_page p v)) k = Inr (k\<lparr>k_vmm := vmm_unmap_page p ((k_vmm k)\<lparr>v_bitmap := h_bitmap (k_heap k)\<rparr>)\<rparr>)"
  by (simp add: on_vmm_def vmm_unmap_page_def Let_def)

lemma kmain_tasks:
  assumes "unused k" "bitmap_ok (h_bitmap (k_heap k))" "0 \<notin> free_frames (h_bitmap (k_heap k))"
    and "{f..<f + 9} \<subseteq> free_frames (h_bitmap (k_heap k))"
  shows "\<exists>r k1 s k2 c k3. spawn_reaper heap_fuel reaper_thread k = Inr k1 \<and> create_task heap_fuel shell_run 0 0 k1 = Inr (s, k2) \<and>
    create_task heap_fuel clock_thread 1 0 k2 = Inr (c, k3) \<and> start (entered k3 {r, s, c}) [s, c] \<and>
    ring (k_tasks k3) (k_last k3) [r, s, c] \<and> k_num k3 = 3 \<and> reaper (entered k3 {r, s, c}) = r \<and>
    map (about (k_tasks k3)) [r, s, c] = [(99, reaper_thread), (0, shell_run), (1, clock_thread)]"
proof -
  note t0 = unused_tasks_in [OF assms(1-3)]
  have f0: "{f..<f + (6 + 3)} \<subseteq> free_frames (h_bitmap (k_heap k))" using assms(4) by simp
  from create_task_total [OF t0 f0, of 1 reaper_thread 99] obtain r k1 where
    r: "create_task heap_fuel reaper_thread 99 1 k = Inr (r, k1)" "tasks_in k1 (a_announce 1 r (a_made r (no_tasks k))) [r]"
      "{f + 3..<f + 9} \<subseteq> free_frames (h_bitmap (k_heap k1))" "about (k_tasks k1) r = (99, reaper_thread)" by auto
  have f1: "{f + 3..<f + 3 + (3 + 3)} \<subseteq> free_frames (h_bitmap (k_heap k1))" using r(3) by (simp add: add.assoc)
  from create_task_total [OF r(2) f1, of 0 shell_run 0] obtain s k2 where
    s: "create_task heap_fuel shell_run 0 0 k1 = Inr (s, k2)"
      "tasks_in k2 (a_announce 0 s (a_made s (a_announce 1 r (a_made r (no_tasks k))))) [r, s]"
      "{f + 3 + 3..<f + 3 + (3 + 3)} \<subseteq> free_frames (h_bitmap (k_heap k2))" "about (k_tasks k2) s = (0, shell_run)"
      "about (k_tasks k2) r = (99, reaper_thread)" "s \<noteq> r" using r(4) by auto
  have f2: "{f + 6..<f + 6 + (0 + 3)} \<subseteq> free_frames (h_bitmap (k_heap k2))" using s(3) by (simp add: add.assoc)
  from create_task_total [OF s(2) f2, of 0 clock_thread 1] obtain c k3 where
    c: "create_task heap_fuel clock_thread 1 0 k2 = Inr (c, k3)"
      "tasks_in k3 (a_announce 0 c (a_made c (a_announce 0 s (a_made s (a_announce 1 r (a_made r (no_tasks k))))))) [r, s, c]"
      "about (k_tasks k3) c = (1, clock_thread)" "about (k_tasks k3) s = (0, shell_run)" "about (k_tasks k3) r = (99, reaper_thread)"
    using s(4,5) by auto
  note st = tasks_in_start [OF c(2)]
  have "ring (k_tasks k3) (k_last k3) [r, s, c]" "k_num k3 = 3" using c(2) by (simp_all add: tasks_in_def)
  moreover have "k_reaper k3 = r"
    using c(2) by (simp add: tasks_in_def models_def a_announce_def a_make_ready_def a_made_def)
  moreover have "spawn_reaper heap_fuel reaper_thread k = Inr k1" using r(1) by (simp add: spawn_reaper_def)
  ultimately show ?thesis using s(1) c(1,3,4,5) st by (fastforce simp: entered_def)
qed

text \<open>
  Property C30. The boot succeeds and hands over a well-formed kernel: from zeroed globals, with a memory
  map whose available memory ends below 128 MB and has nine free frames in a row above the first
  megabyte and outside the kernel, \<open>kmain\<close> makes the reaper, the shell and the clock without an error;
  \<open>schedule\<close> is entered with the shell and the clock ready in this order, the reaper blocked and the
  three in the ring, with their numbers and entries; this is a start of the executions that the
  properties of the scheduler are about. The gates of the timer and the keyboard lead to their stubs and
  the keyboard buffer is empty.
\<close>

theorem kmain_reaches_schedule:
  assumes "unused (b_kernel b)" "length (b_gdt b) = 3" "length (b_idt b) = 256" "48 \<le> length (i_isr_table i)"
    and "length (rb_data (b_rb b)) = 256"
    and "mmap_chain (i_entry i) (i_mmap_addr i) (i_mmap_addr i + i_mmap_length i) es" "length es < heap_fuel"
    and "\<forall>e \<in> set es. me_type e = 1 \<longrightarrow> region_sane e \<and> region_end e \<le> MAX_FRAMES" "unat (i_kernel_end i) \<le> 2 ^ 27"
    and "{f..<f + 9} \<subseteq> usable es - {..<256} - {unat (i_kernel_start i) div 4096..<(unat (i_kernel_end i) + 4095) div 4096}"
  shows "\<exists>b' r s c. kmain heap_fuel i b = Inr b' \<and> start (entered (b_kernel b') {r, s, c}) [s, c] \<and>
    ring (k_tasks (b_kernel b')) (k_last (b_kernel b')) [r, s, c] \<and> k_num (b_kernel b') = 3 \<and> k_reaper (b_kernel b') = r \<and>
    map (about (k_tasks (b_kernel b'))) [r, s, c] = [(99, i_reaper_thread i), (0, i_shell_run i), (1, i_clock_thread i)] \<and>
    gate_to (b_idt b' ! 32) (i_isr_table i ! 32) \<and> gate_to (b_idt b' ! 33) (i_isr_table i ! 33) \<and> rb_rep (b_rb b') []"
proof -
  obtain gdt where gdt: "gdt_init (b_gdt b) = Inr (gdt, 23)" using gdt_init_spec [OF assms(2)] by blast
  obtain idt where idt: "idt_init (i_isr_table i) (b_idt b) = Inr (idt, 2047)"
    "\<forall>j < 256. if j < 48 then gate_to (idt ! j) (i_isr_table i ! j) else idt ! j = b_idt b ! j"
    using idt_init_spec [OF assms(3,4)] by blast
  obtain ports where pit: "pit_init 100 (pic_remap (b_ports b)) = Inr ports" by (simp add: pit_init_def Let_def)
  obtain bm where bm: "pmm_init heap_fuel (i_entry i) (i_mmap_addr i) (i_mmap_length i) (i_kernel_start i) (i_kernel_end i) = Inr bm"
    "bitmap_ok bm" "free_frames bm = usable es - {..<256} - {unat (i_kernel_start i) div 4096..<(unat (i_kernel_end i) + 4095) div 4096}"
    using pmm_init_spec [OF assms(6-9)] by blast
  let ?k = "(b_kernel b)\<lparr>k_heap := (k_heap (b_kernel b))\<lparr>h_bitmap := bm\<rparr>\<rparr>"
  let ?k0 = "?k\<lparr>k_vmm := vmm_unmap_page (i_stack_bottom i - 4096) ((k_vmm ?k)\<lparr>v_bitmap := h_bitmap (k_heap ?k)\<rparr>)\<rparr>"
  have "unused ?k0" using assms(1) by (simp add: unused_def)
  moreover have "0 \<notin> free_frames bm" "{f..<f + 9} \<subseteq> free_frames bm" using bm(3) assms(10) by auto
  ultimately obtain r k1 s k2 c k3 where k: "spawn_reaper heap_fuel (i_reaper_thread i) ?k0 = Inr k1"
    "create_task heap_fuel (i_shell_run i) 0 0 k1 = Inr (s, k2)" "create_task heap_fuel (i_clock_thread i) 1 0 k2 = Inr (c, k3)"
    "start (entered k3 {r, s, c}) [s, c]" "ring (k_tasks k3) (k_last k3) [r, s, c]" "k_num k3 = 3" "k_reaper k3 = r"
    "map (about (k_tasks k3)) [r, s, c] = [(99, i_reaper_thread i), (0, i_shell_run i), (1, i_clock_thread i)]"
    using kmain_tasks [of ?k0 f "i_reaper_thread i" "i_shell_run i" "i_clock_thread i"] bm(2) by (auto simp: entered_def)
  have "kmain heap_fuel i b = Inr (b\<lparr>b_gdt := gdt, b_gdt_limit := 23, b_idt := idt, b_idt_limit := 2047, b_ports := ports,
      b_rb := keyboard_init (b_rb b), b_kernel := k3\<rparr>)"
    using k(1-3) by (simp add: kmain_def gdt idt(1) pit bm(1) unmap_keeps_frames Let_def)
  moreover have "gate_to (idt ! 32) (i_isr_table i ! 32)" "gate_to (idt ! 33) (i_isr_table i ! 33)"
    using idt(2) [rule_format, of 32] idt(2) [rule_format, of 33] by simp_all
  ultimately show ?thesis using k(4-8) init_rep [OF assms(5)]
    by (intro exI [of _ "b\<lparr>b_gdt := gdt, b_gdt_limit := 23, b_idt := idt, b_idt_limit := 2047, b_ports := ports,
      b_rb := keyboard_init (b_rb b), b_kernel := k3\<rparr>"] exI [of _ r] exI [of _ s] exI [of _ c]) simp
qed

text \<open>A machine with one megabyte above the first, and a kernel of seven frames.\<close>

definition small_image :: image where
  "small_image = \<lparr>i_isr_table = replicate 48 0x100400, i_entry = sample_entry 0x100000, i_mmap_addr = 0x9000, i_mmap_length = 72,
     i_kernel_start = 0x100000, i_kernel_end = 0x106123, i_stack_bottom = 0x103000, i_reaper_thread = 0x100500,
     i_shell_run = 0x100600, i_clock_thread = 0x100700\<rparr>"

definition cold_boot :: boot where
  "cold_boot = \<lparr>b_gdt = replicate 3 (gdt_encode 0 0 0 0), b_gdt_limit = 0,
     b_idt = replicate 256 \<lparr>id_handler_low = 0, id_segment_selector = 0, id_zero = 0, id_type = 0, id_handler_high = 0\<rparr>, b_idt_limit = 0,
     b_ports = [],
     b_kernel = \<lparr>k_tasks = (\<lambda>_. blank_task), k_queue = \<lparr>queue_head = 0, queue_tail = 0\<rparr>, k_dead_q = \<lparr>dead_head = 0, dead_tail = 0\<rparr>,
       k_current = 0, k_reaper = 0, k_last = 0, k_num = 0,
       k_locks = (\<lambda>_. \<lparr>m_locked = 0, m_holder = 0, m_queue_head = 0, m_queue_tail = 0\<rparr>),
       k_heap = fresh_heap [], k_vmm = \<lparr>v_pd = 0, v_mem = (\<lambda>_. 0), v_bitmap = [], v_cr0 = 0, v_cr3 = 0\<rparr>\<rparr>,
     b_rb = \<lparr>rb_data = replicate 256 0, rb_head = 0, rb_tail = 0, rb_len = 0\<rparr>\<rparr>"

theorem kmain_reaches_schedule_witness:
  "\<exists>b r s c. kmain heap_fuel small_image cold_boot = Inr b \<and> start (entered (b_kernel b) {r, s, c}) [s, c]"
proof -
  let ?es = "[sample_entry 0x100000 0x9000, sample_entry 0x100000 0x9018, sample_entry 0x100000 0x9030]"
  have u: "usable ?es = {0..<159} \<union> {256..<512}" by (simp add: sample_entry_def region_start_def region_end_def)
  have "\<exists>b' r s c. kmain heap_fuel small_image cold_boot = Inr b' \<and> start (entered (b_kernel b') {r, s, c}) [s, c] \<and>
    ring (k_tasks (b_kernel b')) (k_last (b_kernel b')) [r, s, c] \<and> k_num (b_kernel b') = 3 \<and> k_reaper (b_kernel b') = r \<and>
    map (about (k_tasks (b_kernel b'))) [r, s, c] =
      [(99, i_reaper_thread small_image), (0, i_shell_run small_image), (1, i_clock_thread small_image)] \<and>
    gate_to (b_idt b' ! 32) (i_isr_table small_image ! 32) \<and> gate_to (b_idt b' ! 33) (i_isr_table small_image ! 33) \<and>
    rb_rep (b_rb b') []"
  proof (rule kmain_reaches_schedule [where es = ?es and f = 263])
    show "unused (b_kernel cold_boot)" by (simp add: unused_def cold_boot_def fresh_heap_def)
    show "mmap_chain (i_entry small_image) (i_mmap_addr small_image) (i_mmap_addr small_image + i_mmap_length small_image) ?es"
      using sample_chain [of "0x100000"] by (simp add: small_image_def)
    show "\<forall>e \<in> set ?es. me_type e = 1 \<longrightarrow> region_sane e \<and> region_end e \<le> MAX_FRAMES"
      by (simp add: sample_entry_def region_sane_def region_end_def MAX_FRAMES_def)
    show "{263..<263 + 9} \<subseteq> usable ?es - {..<256} -
      {unat (i_kernel_start small_image) div 4096..<(unat (i_kernel_end small_image) + 4095) div 4096}"
      unfolding u by (auto simp: small_image_def)
  qed (simp_all add: cold_boot_def small_image_def heap_fuel_def)
  then show ?thesis by blast
qed

end
