(* ===== verification/Task_Memory.thy ===== *)
theory Task_Memory
  imports Boot
begin

text \<open>
  The memory of a task: what \<open>create_task\<close> takes from the heap and the frame allocator, what
  \<open>reaper_thread\<close> gives back, and that the one is the other. The frames of
  its stack are kept apart from the blocks of the heap in between (\<open>heap_avoids\<close>); \<open>reaping_kept\<close> are
  the steps that leave what the reaper reads as it is.
\<close>

lemma live_block:
  assumes "heap_inv s bs" "heap_live s p = Some m"
  shows "p - 20 \<in> set bs" "b_free (h_mem s (p - 20)) = 0"
proof -
  from assms(2) obtain bs' where "heap_inv s bs'" "p - 20 \<in> set bs'" "b_free (h_mem s (p - 20)) = 0"
    by (auto simp: heap_live_def split: if_splits)
  moreover have "bs' = bs" if "heap_inv s bs'" for bs' using that assms(1) chain_unique by (auto simp: heap_inv_def)
  ultimately show "p - 20 \<in> set bs" "b_free (h_mem s (p - 20)) = 0" by auto
qed

lemma kfree_keeps_frames:
  assumes "heap_valid s" "heap_live s p = Some m"
  shows "\<exists>s'. kfree p s = Inr s' \<and> heap_valid s' \<and> heap_live s' = (heap_live s)(p := None) \<and> h_bitmap s' = h_bitmap s"
proof -
  from kheap.free_live [OF assms] obtain s' where s': "kfree p s = Inr s'" "heap_valid s'" "heap_live s' = (heap_live s)(p := None)"
    by blast
  from assms(1) obtain bs where inv: "heap_inv s bs" by (auto simp: heap_valid_def)
  obtain pre post where bs: "bs = pre @ (p - 20) # post" using live_block(1) [OF inv assms(2)] by (meson split_list)
  from kfree_spec [OF inv [unfolded bs] live_block(2) [OF inv assms(2)]] s'(1) have "h_bitmap s' = h_bitmap s" by auto
  with s' show ?thesis by blast
qed

text \<open>No block of the heap has a byte in these frames.\<close>

definition heap_avoids :: "heap \<Rightarrow> nat set \<Rightarrow> bool" where
  "heap_avoids s fs \<longleftrightarrow> (\<forall>bs. heap_inv s bs \<longrightarrow> (\<forall>a \<in> set bs. \<forall>x \<in> span (sizes s) a. x div 4096 \<notin> fs))"

lemma free_frames_avoided: "fs \<subseteq> free_frames (h_bitmap s) \<Longrightarrow> heap_avoids s fs"
  by (auto simp: heap_avoids_def heap_inv_def)

lemma avoids_bitmap: "heap_valid s \<Longrightarrow> heap_avoids s fs \<Longrightarrow> heap_avoids (s\<lparr>h_bitmap := bm\<rparr>) fs"
  by (auto simp: heap_avoids_def heap_valid_def heap_inv_def dest: chain_unique)

lemma heap_more_frames:
  assumes "heap_valid s" "heap_avoids s fs" "bitmap_ok bm" "free_frames bm = free_frames (h_bitmap s) \<union> fs" "0 \<notin> fs"
  shows "heap_valid (s\<lparr>h_bitmap := bm\<rparr>)" "heap_live (s\<lparr>h_bitmap := bm\<rparr>) = heap_live s"
proof -
  from assms(1) obtain bs where inv: "heap_inv s bs" by (auto simp: heap_valid_def)
  have "\<forall>a \<in> set bs. \<forall>x \<in> span (sizes s) a. x div 4096 \<notin> free_frames bm"
    using inv assms(2,4) unfolding heap_avoids_def heap_inv_def by blast
  then have inv': "heap_inv (s\<lparr>h_bitmap := bm\<rparr>) bs" using inv assms(3,4,5) by (auto simp: heap_inv_def stamped_def)
  then show "heap_valid (s\<lparr>h_bitmap := bm\<rparr>)" by (auto simp: heap_valid_def)
  have c: "map (chunk_at (s\<lparr>h_bitmap := bm\<rparr>)) bs = map (chunk_at s) bs" by (simp add: chunk_at_def)
  show "heap_live (s\<lparr>h_bitmap := bm\<rparr>) = heap_live s"
    by (rule map_eqI) (simp only: heap_live_iff [OF inv] heap_live_iff [OF inv'] c)
qed

section \<open>Creation\<close>

text \<open>Of the frames of the allocator, a request of the heap takes at most the lowest free one.\<close>

definition heap_took :: "heap \<Rightarrow> heap \<Rightarrow> bool" where
  "heap_took s s' \<longleftrightarrow> free_frames (h_bitmap s') = free_frames (h_bitmap s) \<or>
     free_frames (h_bitmap s') = free_frames (h_bitmap s) - {Min (free_frames (h_bitmap s))}"

lemma kmalloc_took:
  assumes "heap_valid s" "0 < card (free_frames (h_bitmap s))" "0 < sz" "unat sz \<le> 4076" "kmalloc heap_fuel sz s = Inr (p, s')"
  shows "heap_took s s'"
proof -
  from assms(1) obtain bs where inv: "heap_inv s bs" by (auto simp: heap_valid_def)
  moreover have "free_frames (h_bitmap s) \<noteq> {}" using assms(2) by auto
  ultimately show ?thesis
    using kmalloc_spec [OF inv assms(3,4) heap_inv_length [OF inv]] assms(5) by (auto simp: heap_took_def split: if_splits)
qed

lemma new_task_from:
  assumes "kmalloc n 44 (k_heap k) = Inr (p, h)" "pmm_alloc_contiguous 2 (h_bitmap h) = Inr (base, bm)"
  obtains k1 where "new_task n code task_id k = Inr (p, k1)" "k_heap k1 = h\<lparr>h_bitmap := bm\<rparr>"
    "t_stack_base (k_tasks k1 p) = base + 4096" "k_dead_q k1 = k_dead_q k" "\<forall>x. x \<noteq> p \<longrightarrow> k_tasks k1 x = k_tasks k x"
  using assms that by (simp add: new_task_def on_vmm_def vmm_unmap_page_def Let_def case_prod_beta del: fold.simps)

lemma new_task_memory:
  assumes "heap_valid (k_heap k)" "{a..<a + 3} \<subseteq> free_frames (h_bitmap (k_heap k))"
  obtains p k1 h d f bm where "new_task heap_fuel code task_id k = Inr (p, k1)" "heap_valid h"
    "heap_live (k_heap k) p = None" "heap_live h = (heap_live (k_heap k))(p \<mapsto> d)"
    "f + 1 < MAX_FRAMES" "{f, f + 1} \<subseteq> free_frames (h_bitmap h)" "heap_took (k_heap k) h"
    "k_heap k1 = h\<lparr>h_bitmap := bm\<rparr>" "bitmap_ok bm" "free_frames bm = free_frames (h_bitmap h) - {f, f + 1}"
    "t_stack_base (k_tasks k1 p) = of_nat (f + 1) * 4096" "k_dead_q k1 = k_dead_q k"
    "\<forall>x. x \<noteq> p \<longrightarrow> k_tasks k1 x = k_tasks k x"
proof -
  from assms(1) obtain bs where "heap_inv (k_heap k) bs" by (auto simp: heap_valid_def)
  then have "finite (free_frames (h_bitmap (k_heap k)))"
    using finite_subset [of _ "{..<MAX_FRAMES}"] free_frames_bound by (auto simp: heap_inv_def)
  then have room: "0 < card (free_frames (h_bitmap (k_heap k)))" using assms(2) by (auto simp: card_gt_0_iff)
  obtain p h d where h: "kmalloc heap_fuel 44 (k_heap k) = Inr (p, h)" "heap_valid h" "heap_live (k_heap k) p = None"
    "heap_live h = (heap_live (k_heap k))(p \<mapsto> d)"
    using kheap.malloc_new [OF assms(1) _ room, of 44] by auto
  have three: "a + 3 = a + Suc 2" by simp
  have f1: "{a + 1..<a + 3} \<subseteq> free_frames (h_bitmap h)"
    unfolding three by (rule kmalloc_frames [OF assms(1) assms(2) [unfolded three] _ _ h(1)]) simp_all
  have ok: "bitmap_ok (h_bitmap h)" using h(2) by (auto simp: heap_valid_def heap_inv_def)
  define f where "f = (LEAST s. run_at (h_bitmap h) 2 s)"
  have "run_at (h_bitmap h) 2 (a + 1)" using f1 by (auto simp: run_at_def)
  then have run: "run_at (h_bitmap h) 2 f" "\<exists>s. run_at (h_bitmap h) 2 s" unfolding f_def by (auto intro: LeastI)
  with pmm_alloc_contiguous_spec [OF ok, of 2] obtain bm where
    bm: "pmm_alloc_contiguous 2 (h_bitmap h) = Inr (of_nat f * 4096, bm)" "bitmap_ok bm"
      "free_frames bm = free_frames (h_bitmap h) - {f..<f + 2}"
    by (auto simp: in_int_def f_def)
  have two: "{f..<f + 2} = {f, f + 1}" by auto
  have bound: "f + 1 < MAX_FRAMES" using run_at_bound [OF ok run(1)] by simp
  have sub: "{f, f + 1} \<subseteq> free_frames (h_bitmap h)" using run(1) unfolding run_at_def two .
  have top: "(of_nat f * 4096 + 4096 :: u32) = of_nat (f + 1) * 4096" by (simp add: algebra_simps)
  obtain k1 where "new_task heap_fuel code task_id k = Inr (p, k1)" "k_heap k1 = h\<lparr>h_bitmap := bm\<rparr>"
    "t_stack_base (k_tasks k1 p) = of_nat f * 4096 + 4096" "k_dead_q k1 = k_dead_q k" "\<forall>x. x \<noteq> p \<longrightarrow> k_tasks k1 x = k_tasks k x"
    by (rule new_task_from [OF h(1) bm(1)])
  with h bm two bound sub top kmalloc_took [OF assms(1) room _ _ h(1)] show thesis by (intro that [of p k1 h d f bm]) simp_all
qed

section \<open>The reaper\<close>

lemma lists_keep_stack [simp]:
  "t_stack_base (snd (snd (remove_task_from_dead_queue s)) x) = t_stack_base (snd s x)"
  "t_stack_base (snd (remove_task_from_circular_list p r) x) = t_stack_base (snd r x)"
  by (auto simp: remove_task_from_dead_queue_def remove_task_from_circular_list_def at_ptr_def Let_def split: prod.splits)

lemma remap_present:
  assumes "v_mem v (entry_at (v_pd v) (dir_index g)) AND 1 \<noteq> 0"
  shows "\<exists>m. vmm_map_page g g v = Inr (v\<lparr>v_mem := m\<rparr>)"
  using assms by (simp add: vmm_map_page_def Let_def) (rule exI, rule refl)

lemma two_frames_back:
  assumes "bitmap_ok bm" "f + 1 < MAX_FRAMES"
  obtains bm1 bm2 where "pmm_free_frame (of_nat f * 4096) bm = Inr bm1" "pmm_free_frame (of_nat (f + 1) * 4096) bm1 = Inr bm2"
    "bitmap_ok bm2" "free_frames bm2 = free_frames bm \<union> {f, f + 1}"
proof -
  have "f < MAX_FRAMES" using assms(2) by simp
  from pmm_free_frame_spec [OF assms(1) this] obtain bm1 where
    1: "pmm_free_frame (of_nat f * 4096) bm = Inr bm1" "bitmap_ok bm1" "free_frames bm1 = insert f (free_frames bm)" by blast
  from pmm_free_frame_spec [OF 1(2) assms(2)] obtain bm2 where
    "pmm_free_frame (of_nat (f + 1) * 4096) bm1 = Inr bm2" "bitmap_ok bm2" "free_frames bm2 = insert (f + 1) (free_frames bm1)" by blast
  with 1 that show ?thesis by auto
qed

lemma reaper_gives_back:
  assumes "holds_list dead_view (k_dead_q k, k_tasks k) (p # ts)"
    and "t_stack_base (k_tasks k p) = of_nat (f + 1) * 4096" "0 < f" "f + 1 < MAX_FRAMES"
    and "v_mem (k_vmm k) (entry_at (v_pd (k_vmm k)) (dir_index (of_nat f * 4096))) AND 1 \<noteq> 0"
    and "heap_valid (k_heap k)" "heap_live (k_heap k) p = Some d" "heap_avoids (k_heap k) {f, f + 1}"
  shows "\<exists>k'. reaper_round k = Inr (False, k') \<and> heap_valid (k_heap k') \<and>
    heap_live (k_heap k') = (heap_live (k_heap k))(p := None) \<and>
    free_frames (h_bitmap (k_heap k')) = free_frames (h_bitmap (k_heap k)) \<union> {f, f + 1}"
proof -
  obtain t q h where e: "remove_task_from_dead_queue (k_dead_q k, k_tasks k) = (t, q, h)" by (metis prod_cases3)
  then have t: "t = p" "p \<noteq> 0"
    using dead.queue.deq_rep [of "(k_dead_q k, k_tasks k)" p ts] assms(1) by (auto simp: taking_def ptr_opt_def split: if_splits)
  obtain l r where c: "remove_task_from_circular_list p (k_last k, h) = (l, r)" by (metis surj_pair)
  have st: "t_stack_base (r p) = of_nat f * 4096 + 4096"
    using lists_keep_stack(1) [of "(k_dead_q k, k_tasks k)" p] lists_keep_stack(2) [of p "(k_last k, h)" p] e c assms(2)
    by (simp add: algebra_simps)
  have ok: "bitmap_ok (h_bitmap (k_heap k))" using assms(6) by (auto simp: heap_valid_def heap_inv_def)
  obtain m where m: "vmm_map_page (of_nat f * 4096) (of_nat f * 4096) ((k_vmm k)\<lparr>v_bitmap := h_bitmap (k_heap k)\<rparr>) =
      Inr ((k_vmm k)\<lparr>v_bitmap := h_bitmap (k_heap k), v_mem := m\<rparr>)"
    using remap_present [of "(k_vmm k)\<lparr>v_bitmap := h_bitmap (k_heap k)\<rparr>"] assms(5) by auto
  obtain bm1 bm2 where b: "pmm_free_frame (of_nat f * 4096) (h_bitmap (k_heap k)) = Inr bm1"
    "pmm_free_frame (of_nat (f + 1) * 4096) bm1 = Inr bm2" "bitmap_ok bm2"
    "free_frames bm2 = free_frames (h_bitmap (k_heap k)) \<union> {f, f + 1}"
    using two_frames_back [OF ok assms(4)] .
  note more = heap_more_frames [OF assms(6,8) b(3,4)]
  obtain hp where hp: "kfree p ((k_heap k)\<lparr>h_bitmap := bm2\<rparr>) = Inr hp" "heap_valid hp"
    "heap_live hp = (heap_live (k_heap k))(p := None)" "h_bitmap hp = bm2"
    using kfree_keeps_frames [OF more(1), of p d] more(2) assms(3,7) by auto
  have top: "(of_nat f * 4096 + 4096 :: u32) = of_nat (f + 1) * 4096" by (simp add: algebra_simps)
  have "\<exists>k'. reaper_round k = Inr (False, k') \<and> k_heap k' = hp"
    using e c t st m b(1) b(2) [folded top] hp(1)
    by (simp add: reaper_round_def on_ring_def on_vmm_def on_bitmap_def Let_def)
  with hp b(4) show ?thesis by metis
qed

section \<open>A life\<close>

lemma add_dead_keeps_stack:
  "t_stack_base (snd (add_task_to_dead_queue p d) x) = t_stack_base (snd d x)"
  by (auto simp: add_task_to_dead_queue_def at_ptr_def Let_def split: prod.splits)

text \<open>Steps that touch nothing the reaper reads.\<close>

definition reaping_kept :: "kernel \<Rightarrow> kernel \<Rightarrow> bool" where
  "reaping_kept k k' \<longleftrightarrow> k_dead_q k' = k_dead_q k \<and> k_heap k' = k_heap k \<and> k_vmm k' = k_vmm k \<and>
     (\<forall>x. t_dead_next (k_tasks k' x) = t_dead_next (k_tasks k x) \<and> t_stack_base (k_tasks k' x) = t_stack_base (k_tasks k x))"

lemma insert_keeps [simp]:
  "t_stack_base (snd (insert_task p c) x) = t_stack_base (snd c x)"
  "t_dead_next (snd (insert_task p c) x) = t_dead_next (snd c x)"
  by (auto simp: insert_task_def at_ptr_def Let_def split: prod.splits)

lemma add_ready_keeps_stack [simp]: "t_stack_base (snd (add_task_to_ready_queue p r) x) = t_stack_base (snd r x)"
  by (auto simp: add_task_to_ready_queue_def at_ptr_def Let_def split: prod.splits)

lemma kept_state [simp]: "reaping_kept k (set_state p b j) = reaping_kept k j"
proof -
  have "t_dead_next (at_ptr p (t_state_update (\<lambda>_. b)) h x) = t_dead_next (h x)"
    "t_stack_base (at_ptr p (t_state_update (\<lambda>_. b)) h x) = t_stack_base (h x)" for h x
    by (simp_all add: at_ptr_def)
  then show ?thesis by (simp add: reaping_kept_def set_state_def)
qed

lemma kept_ready [simp]: "reaping_kept k (on_ready (add_task_to_ready_queue p) j) = reaping_kept k j"
  by (simp add: reaping_kept_def on_ready_def case_prod_beta)

lemma kept_ring [simp]: "reaping_kept k (on_ring (insert_task p) j) = reaping_kept k j"
  by (simp add: reaping_kept_def on_ring_def case_prod_beta)

lemma kept_fields [simp]:
  "reaping_kept k k"
  "reaping_kept k (j\<lparr>k_current := p\<rparr>) = reaping_kept k j"
  "reaping_kept k (j\<lparr>k_num := i\<rparr>) = reaping_kept k j"
  by (simp_all add: reaping_kept_def)

lemma kept_next: "reaping_kept k (snd (schedule_next k))"
proof -
  have "t_dead_next (snd (snd (remove_task_from_ready_queue r)) x) = t_dead_next (snd r x)"
    "t_stack_base (snd (snd (remove_task_from_ready_queue r)) x) = t_stack_base (snd r x)" for r x
    by (auto simp: remove_task_from_ready_queue_def at_ptr_def Let_def split: prod.splits)
  then show ?thesis
    by (simp add: schedule_next_def Let_def case_prod_beta kept_fields) (simp add: reaping_kept_def)
qed

lemma kept_dead_list:
  "reaping_kept k k' \<Longrightarrow> holds_list dead_view (k_dead_q k, k_tasks k) xs \<Longrightarrow> holds_list dead_view (k_dead_q k', k_tasks k') xs"
  by (auto simp: reaping_kept_def intro: dead_frame [rotated])

lemma reaping_kept_trans: "reaping_kept k j \<Longrightarrow> reaping_kept j i \<Longrightarrow> reaping_kept k i"
  by (simp add: reaping_kept_def)

lemma publish_kept: "reaping_kept k (publish_task type p k)" if "type = 0"
  using that by (simp add: publish_task_def)

lemma link_kept: "link_task p k = Inr k' \<Longrightarrow> reaping_kept k k'"
  by (auto simp: link_task_def c_int_def Let_def split: if_splits)

lemma exit_is_queued:
  assumes "holds_list dead_view (k_dead_q k, k_tasks k) xs" "p \<noteq> 0" "p \<notin> set xs"
    and "k_current k = p" "k' = schedule_back (thread_exit k)"
  shows "holds_list dead_view (k_dead_q k', k_tasks k') (xs @ [p])" "k_heap k' = k_heap k" "k_vmm k' = k_vmm k"
    "t_stack_base (k_tasks k' x) = t_stack_base (k_tasks k x)"
proof -
  let ?e = "thread_exit k"
  let ?d = "on_dead (add_task_to_dead_queue p) ?e"
  have e: "reaping_kept k ?e" "k_current ?e = p" "state_of ?e p = TASK_DEAD"
    using assms(4) by (simp add: thread_exit_def, simp_all add: thread_exit_def set_state_def state_of_def at_ptr_def)
  have "reaping_kept ?d k'"
    unfolding assms(5) schedule_back_def e by (simp add: Let_def TASK_RUNNING_def TASK_DEAD_def)
  moreover from dead.queue.enq_rep [OF kept_dead_list [OF e(1) assms(1)]] assms(2,3)
  have "holds_list dead_view (k_dead_q ?d, k_tasks ?d) (xs @ [p])"
    by (simp add: on_dead_def case_prod_beta)
  ultimately show "holds_list dead_view (k_dead_q k', k_tasks k') (xs @ [p])" by (rule kept_dead_list)
  have "k_heap ?d = k_heap ?e" "k_vmm ?d = k_vmm ?e" "t_stack_base (k_tasks ?d x) = t_stack_base (k_tasks ?e x)"
    using add_dead_keeps_stack [of p "(k_dead_q ?e, k_tasks ?e)" x] by (simp_all add: on_dead_def case_prod_beta)
  then show "k_heap k' = k_heap k" "k_vmm k' = k_vmm k" "t_stack_base (k_tasks k' x) = t_stack_base (k_tasks k x)"
    using e(1) \<open>reaping_kept ?d k'\<close> by (simp_all add: reaping_kept_def)
qed

text \<open>
  Property C31. Memory of a task.
  A worker task takes no memory with it: \<open>create_task\<close> takes a block of the heap and two
  frames for it; once the task has exited, the scheduler has queued it and the reaper has taken it from
  the queue, the heap holds exactly the blocks it held before, and so does the frame allocator, except for
  the frame by which the heap may have grown. In between, the kernel may take any step that touches
  nothing the reaper reads, such as the choices of \<open>schedule\<close>; the page table of the guard page is there.
\<close>

theorem reaping_returns_memory:
  assumes "heap_valid (k_heap k)" "{a..<a + 3} \<subseteq> free_frames (h_bitmap (k_heap k))"
    and "holds_list dead_view (k_dead_q k, k_tasks k) []"
    and "create_task heap_fuel code task_id 0 k = Inr (p, k1)"
    and "reaping_kept k1 j" "k_current j = p" "reaping_kept (schedule_back (thread_exit j)) k2"
    and "v_mem (k_vmm k1) (entry_at (v_pd (k_vmm k1)) (dir_index (t_stack_base (k_tasks k1 p) - 4096))) AND 1 \<noteq> 0"
  shows "\<exists>k3. reaper_round k2 = Inr (False, k3) \<and> heap_valid (k_heap k3) \<and> heap_live (k_heap k3) = heap_live (k_heap k) \<and>
    (free_frames (h_bitmap (k_heap k3)) = free_frames (h_bitmap (k_heap k)) \<or>
     free_frames (h_bitmap (k_heap k3)) = free_frames (h_bitmap (k_heap k)) - {Min (free_frames (h_bitmap (k_heap k)))})"
proof -
  obtain q k0 h d f bm where
    n: "new_task heap_fuel code task_id k = Inr (q, k0)" "heap_valid h" "heap_live (k_heap k) q = None"
      "heap_live h = (heap_live (k_heap k))(q \<mapsto> d)" "f + 1 < MAX_FRAMES" "{f, f + 1} \<subseteq> free_frames (h_bitmap h)"
      "heap_took (k_heap k) h" "k_heap k0 = h\<lparr>h_bitmap := bm\<rparr>" "bitmap_ok bm" "free_frames bm = free_frames (h_bitmap h) - {f, f + 1}"
      "t_stack_base (k_tasks k0 q) = of_nat (f + 1) * 4096" "k_dead_q k0 = k_dead_q k" "\<forall>x. x \<noteq> q \<longrightarrow> k_tasks k0 x = k_tasks k x"
    by (rule new_task_memory [OF assms(1,2), of code task_id])
  have pq: "p = q" and l: "link_task p (publish_task 0 p k0) = Inr k1"
    using assms(4) n(1) by (auto simp: create_task_def)
  have p0: "p \<noteq> 0" using live_not_null [OF n(2), of p d] n(4) pq by simp
  have k0j: "reaping_kept k0 j" using reaping_kept_trans [OF reaping_kept_trans [OF publish_kept link_kept [OF l]] assms(5)] by simp
  have k01: "reaping_kept k0 k1" using reaping_kept_trans [OF publish_kept link_kept [OF l]] by simp
  have d0: "holds_list dead_view (k_dead_q k0, k_tasks k0) []"
    unfolding n(12) using assms(3) by (rule dead_frame [rotated]) simp
  note e = exit_is_queued [OF kept_dead_list [OF k0j d0] p0 _ assms(6) refl, simplified]
  have d2: "holds_list dead_view (k_dead_q k2, k_tasks k2) [p]" by (rule kept_dead_list [OF assms(7) e(1)])
  have k2: "k_heap k2 = h\<lparr>h_bitmap := bm\<rparr>" "k_vmm k2 = k_vmm k1" "t_stack_base (k_tasks k2 p) = of_nat (f + 1) * 4096"
    "t_stack_base (k_tasks k1 p) = of_nat (f + 1) * 4096"
    using e(2-4) assms(5,7) k01 k0j n(8,11) pq by (simp_all add: reaping_kept_def)
  have sub: "free_frames bm \<subseteq> free_frames (h_bitmap h)" using n(10) by blast
  note hv = heap_fewer_frames [OF n(2,9) sub]
  have "0 < f" using n(2,6) by (cases f) (auto simp: heap_valid_def heap_inv_def)
  moreover have "v_mem (k_vmm k2) (entry_at (v_pd (k_vmm k2)) (dir_index (of_nat f * 4096))) AND 1 \<noteq> 0"
    using assms(8) k2(2,4) by (simp add: algebra_simps)
  moreover have "heap_avoids (k_heap k2) {f, f + 1}"
    unfolding k2(1) by (rule avoids_bitmap [OF n(2) free_frames_avoided [OF n(6)]])
  moreover have "heap_valid (k_heap k2)" "heap_live (k_heap k2) p = Some d" using hv n(4) pq k2(1) by simp_all
  ultimately obtain k3 where "reaper_round k2 = Inr (False, k3)" "heap_valid (k_heap k3)"
    "heap_live (k_heap k3) = (heap_live h)(p := None)" "free_frames (h_bitmap (k_heap k3)) = free_frames bm \<union> {f, f + 1}"
    using reaper_gives_back [OF d2 k2(3) _ n(5)] hv(2) k2(1) by auto
  moreover have "(heap_live h)(p := None) = heap_live (k_heap k)" using n(3,4) pq by auto
  moreover have "free_frames bm \<union> {f, f + 1} = free_frames (h_bitmap h)" using n(6,10) by blast
  ultimately show ?thesis using n(7) by (auto simp: heap_took_def)
qed

text \<open>What the creation writes to memory: the page table entry of the guard page and six words of the stack.\<close>

lemma new_task_writes:
  assumes "new_task n code task_id k = Inr (p, k1)" "b = t_stack_base (k_tasks k1 p)"
    and "w \<noteq> entry_at (v_mem (k_vmm k) (entry_at (v_pd (k_vmm k)) (dir_index (b - 4096))) AND 0xFFFFF000) (table_index (b - 4096))"
    and "w \<notin> {b + 4092, b + 4088, b + 4084, b + 4080, b + 4076, b + 4072}"
  shows "v_mem (k_vmm k1) w = v_mem (k_vmm k) w" "v_pd (k_vmm k1) = v_pd (k_vmm k)" "k_num k1 = k_num k"
  using assms by (auto simp: new_task_def on_vmm_def vmm_unmap_page_def push_word_def Let_def)

text \<open>A kernel without tasks and three free frames.\<close>

definition three_frames :: "u8 list" where
  "three_frames = (replicate 4096 0xFF)[1 := 0xF8]"

definition lone_kernel :: kernel where
  "lone_kernel = \<lparr>k_tasks = (\<lambda>_. blank_task), k_queue = \<lparr>queue_head = 0, queue_tail = 0\<rparr>, k_dead_q = \<lparr>dead_head = 0, dead_tail = 0\<rparr>,
     k_current = 0, k_reaper = 0, k_last = 0, k_num = 0,
     k_locks = (\<lambda>_. \<lparr>m_locked = 0, m_holder = 0, m_queue_head = 0, m_queue_tail = 0\<rparr>),
     k_heap = fresh_heap three_frames, k_vmm = \<lparr>v_pd = 0, v_mem = (\<lambda>_. 1), v_bitmap = [], v_cr0 = 0, v_cr3 = 0\<rparr>\<rparr>"

lemma three_frames_free: "free_frames three_frames = {8, 9, 10}"
proof -
  have "\<forall>m \<in> set [0..<8]. bit (0xFF :: u8) m \<and> bit (0xF8 :: u8) m = (3 \<le> m)" by (simp add: upt_rec)
  then have b: "bit (0xFF :: u8) (f mod 8)" "bit (0xF8 :: u8) (f mod 8) = (3 \<le> f mod 8)" for f by simp_all
  have "f \<in> free_frames three_frames \<longleftrightarrow> f div 8 = 1 \<and> f mod 8 < 3" for f
    using b [of f] by (auto simp: free_frames_def three_frames_def nth_list_update)
  moreover have "f div 8 = 1 \<and> f mod 8 < 3 \<longleftrightarrow> f \<in> {8, 9, 10}" for f :: nat
    by (simp only: insert_iff empty_iff simp_thms) presburger
  ultimately show ?thesis by blast
qed

theorem reaping_returns_memory_witness:
  "\<exists>p k1 k3. create_task heap_fuel 0x100600 0 0 lone_kernel = Inr (p, k1) \<and>
    reaper_round (schedule_back (thread_exit (k1\<lparr>k_current := p\<rparr>))) = Inr (False, k3) \<and>
    heap_live (k_heap k3) = heap_live (k_heap lone_kernel)"
proof -
  have heap: "k_heap lone_kernel = fresh_heap three_frames" "h_bitmap (fresh_heap three_frames) = three_frames"
    by (simp_all add: lone_kernel_def fresh_heap_def)
  have hv: "heap_valid (k_heap lone_kernel)"
    unfolding heap heap_valid_def
    by (rule exI, rule fresh_heap_inv) (simp_all only: three_frames_free, simp_all add: bitmap_ok_def three_frames_def)
  have fr: "{8..<8 + 3} \<subseteq> free_frames (h_bitmap (k_heap lone_kernel))" unfolding heap three_frames_free by auto
  obtain p k0 f where n: "new_task heap_fuel 0x100600 0 lone_kernel = Inr (p, k0)" "f \<in> {8, 9, 10}"
    "t_stack_base (k_tasks k0 p) = of_nat (f + 1) * 4096"
  proof (rule new_task_memory [OF hv fr])
    fix p k1 h d f bm
    assume "new_task heap_fuel 0x100600 0 lone_kernel = Inr (p, k1)" "{f, f + 1} \<subseteq> free_frames (h_bitmap h)"
      "heap_took (k_heap lone_kernel) h" "t_stack_base (k_tasks k1 p) = of_nat (f + 1) * 4096"
    then show thesis using that [of p k1 f] unfolding heap_took_def heap three_frames_free by auto
  qed
  let ?b = "t_stack_base (k_tasks k0 p)"
  have mem: "v_mem (k_vmm lone_kernel) w = 1" "v_pd (k_vmm lone_kernel) = 0" "k_num lone_kernel = 0" for w
    by (simp_all add: lone_kernel_def)
  have g: "entry_at 0 (dir_index (?b - 4096)) = 0" "entry_at 0 (table_index (?b - 4096)) \<noteq> 0"
    "0 \<notin> {?b + 4092, ?b + 4088, ?b + 4084, ?b + 4080, ?b + 4076, ?b + 4072}"
    unfolding n(3) using n(2) by (auto simp: entry_at_def dir_index_def table_index_def)
  have w: "v_mem (k_vmm k0) 0 = 1" "v_pd (k_vmm k0) = 0" "k_num k0 = 0"
    using new_task_writes [OF n(1) refl, of 0] g mem by simp_all
  obtain k1 where l: "link_task p (publish_task 0 p k0) = Inr k1"
    using w(3) by (simp add: link_task_def on_ring_def c_int_def in_int_def Let_def case_prod_beta)
  then have c: "create_task heap_fuel 0x100600 0 0 lone_kernel = Inr (p, k1)" using n(1) by (simp add: create_task_def)
  have "reaping_kept k0 k1" using reaping_kept_trans [OF publish_kept link_kept [OF l]] by simp
  then have v: "k_vmm k1 = k_vmm k0" "t_stack_base (k_tasks k1 p) = ?b" by (simp_all add: reaping_kept_def)
  have d: "holds_list dead_view (k_dead_q lone_kernel, k_tasks lone_kernel) []"
    by (simp add: lone_kernel_def holds_list_def dead_view_def linked_def)
  have "reaping_kept k1 (k1\<lparr>k_current := p\<rparr>)" by simp
  from reaping_returns_memory [OF hv fr d c this _ kept_fields(1)] show ?thesis using c v w g(1) by auto
qed

end
