(* ===== verification/Spec2Isabelle.thy ===== *)
theory Spec2Isabelle
  imports Language Pmm Kstring Fifo Keyboard Tasks Vmm Heap_Spec Scheduler Switch My_Malloc Shell_Line Task_Memory
begin

text \<open>
  Verification of systems-programming-projects: three C programs, modelled function by function.

  \<^bold>\<open>The programs.\<close> \<^verbatim>\<open>src/bytecode-vm\<close> is a compiler for a small language (\<^verbatim>\<open>compiler.c\<close>:
  \<open>lexer\<close>, \<open>parser\<close>, \<open>generate_byte\<close>) and the stack machine that runs its bytes (\<^verbatim>\<open>vm.c\<close>).
  \<^verbatim>\<open>src/my_malloc\<close> is a user-space allocator on \<open>sbrk\<close>. \<^verbatim>\<open>src/pelikanOS\<close> is a 32-bit x86 kernel:
  \<open>kmain\<close> fills the descriptor tables, programs the PIC and the PIT, builds the bitmap of free frames
  and makes the first tasks; \<open>schedule\<close> switches between tasks; the timer interrupt preempts them, the
  keyboard interrupt fills a ring buffer that the shell empties; the shell prints, lists and creates tasks;
  tasks and their stacks come from the kernel heap and the frame allocator and are given back by the reaper.

  \<^bold>\<open>Common ground.\<close> \<open>Prelude\<close> has the machine integers (words of 8, 16, 32, 64 bits; a C \<open>int\<close> is a HOL \<open>int\<close>
  whose arithmetic goes through \<open>c_int\<close>), the ways of not returning (\<open>Exit\<close>, \<open>Undef\<close>, \<open>Halted\<close>) as values of a sum
  type, checked array accesses, and counted loops (\<open>each\<close>). \<open>Chains\<close> has linked lists in memory, \<open>Decimal\<close> the decimal
  numerals both programs print. The interfaces are locales, interpreted where they are provided: \<open>fifo\<close> and its refinement to
  linked queues (\<open>Fifo\<close>; the ring buffer and the three task queues), \<open>frame_allocator\<close> (\<open>Pmm\<close>), \<open>allocator\<close>
  (\<open>Allocator\<close>; the kernel heap in \<open>Heap_Spec\<close> and \<open>my_malloc\<close> in \<open>My_Malloc\<close>) and the bounded stack of \<open>Vm_Spec\<close>.

  \<^bold>\<open>The language.\<close> \<open>Vm\<close> is \<^verbatim>\<open>vm.c\<close> (\<open>vm\<close> is \<open>struct VM\<close>, \<open>vm_exec\<close> the \<open>switch\<close>, \<open>vm_run\<close> the loop with fuel: its answer for too
  little fuel is a value of its own). \<open>Vm_Spec\<close> refines it to a machine with lists for stacks and shows that no bytecode
  can leave the stacks. \<open>Lexer\<close>, \<open>Parser\<close> and \<open>Codegen\<close> are \<open>lexer\<close>, the functions \<open>parse_*\<close> and \<open>walk\<close>; \<open>Listing\<close> is
  \<open>print_tokens\<close>. \<open>Parser_Facts\<close> shows that the parser ends within its fuel on every token array; \<open>Printer\<close> and \<open>Lexer_Facts\<close> that
  printing a program, lexing and parsing it gives it back. \<open>Source_Sem\<close> gives the language a meaning of its own,
  \<open>Compile\<close> a compositional reference code that \<open>walk\<close> with its back patching writes, and \<open>Compile_Correct\<close> semantic preservation
  in both directions, faults and non-termination included. \<open>Language\<close> composes them from source text to printed numbers.

  \<^bold>\<open>Memory of the kernel.\<close> \<open>Pmm\<close> is \<^verbatim>\<open>pmm.c\<close> on the bitmap, specified by the set of its free frames. \<open>Vmm\<close> is \<^verbatim>\<open>vmm.c\<close> and \<^verbatim>\<open>paging.c\<close> on a
  memory of words, specified by the translation the processor does. \<open>Heap\<close> is \<^verbatim>\<open>heap.c\<close> on a store of block headers; \<open>Heap_Spec\<close> refines
  it to first fit and joining on the list of chunks and proves the contract of \<open>Allocator\<close>.

  \<^bold>\<open>Tasks.\<close> \<open>Tasks\<close> has the queues and the ring of \<^verbatim>\<open>scheduler.c\<close> and \<^verbatim>\<open>mutex_lock.c\<close> in a store of task structures. \<open>Sched\<close> has the
  rest of both files as stretches of code between two context switches; \<open>Sched_Spec\<close> refines them to operations on lists; \<open>Sched_Steps\<close>
  composes them to a step relation with preemption and proves the invariant of all reachable states; \<open>Scheduler\<close> states what follows:
  agreement of lists and states, mutual exclusion, no lost wake-up, service in order. \<open>Switch\<close> is \<^verbatim>\<open>swtch.asm\<close>, instruction by instruction.

  \<^bold>\<open>Devices and the shell.\<close> \<open>Kstring\<close> is \<^verbatim>\<open>string.c\<close>, \<^verbatim>\<open>itoa.c\<close> and \<open>print_hex\<close>; \<open>Keyboard\<close> is \<^verbatim>\<open>keyboard.c\<close>; \<open>Vga\<close> is \<^verbatim>\<open>vga.c\<close>, specified as a window
  on an endless sheet of text; \<open>Tables\<close> is \<^verbatim>\<open>gdt.c\<close>, \<^verbatim>\<open>idt.c\<close>, \<^verbatim>\<open>pic.c\<close> and \<open>pit_init\<close>. \<open>System\<close> puts the state together and has \<open>isr_handler\<close> of
  \<^verbatim>\<open>isr.c\<close>, \<open>clock_thread\<close> of \<^verbatim>\<open>clock.c\<close> and \<open>scheduler_list_tasks\<close>; \<open>System_Facts\<close> says what they show. \<open>Shell\<close> is \<^verbatim>\<open>shell.c\<close>;
  \<open>Shell_Facts\<close> has the well-formedness that the clock, the interrupts and the shell keep, \<open>Shell_Line\<close> the dialogue: editing under
  any interleaving with the keyboard interrupt, running a line, \<open>spawn\<close>, \<open>clear\<close>.
  \<open>Boot\<close> is \<open>kmain\<close> of \<^verbatim>\<open>kernel.c\<close> and shows that it ends in a start state of \<open>Sched_Steps\<close>.
  \<open>Task_Memory\<close> composes scheduler, heap, paging and frame allocator over the life of a task and shows that it leaves no memory behind.

  \<^bold>\<open>Bounds and fuel.\<close> \<open>parser_fuel\<close> is linear in the number of tokens and always enough. \<open>heap_fuel\<close> is 2^27 + 2: a heap of headers in
  2^27 bytes has fewer blocks, so the loops of \<open>kmalloc\<close> never use it up; \<open>kfree\<close> needs none. \<open>my_fuel\<close> is 2^63, more than blocks fit below
  the limit of the break. \<open>mmap_loop\<close> and \<open>list_loop\<close> end for any fuel larger than the number of entries and of tasks. \<open>vm_run\<close> may not end,
  as its programs may not; the theorems about it say so for every fuel. The memory map must end below 128 MB, the range of the bitmap.

  \<^bold>\<open>Assumptions.\<close> \<open>sbrk\<close> moves the break as documented (\<open>sbrk_grants\<close>); the linker symbols, the memory map and the addresses of the stubs
  and thread functions are arguments; \<open>malloc\<close> of the compiler succeeds; what C leaves uninitialised is an argument. \<open>Sched_Steps\<close> states
  its guards that are not conditions of the code. The operations of \<open>System\<close> and \<open>Shell\<close> run undisturbed; what the heap prints inside a
  call appears on the screen when the call returns. The kernel's structures, stacks and page tables are kept in separate stores,
  so a wild write into another component's memory shows as an undefined access or not at all.
  The accesses of \<open>Vmm\<close> to directories and tables are physical, so a table outside the identity map and the TLB
  are not seen. The block header that \<open>request_space\<close> makes at 0xFFFFFFFF is a record at that address, whatever is behind it.
  A read of a token past the end marker is an undefined access, although the array behind it may be longer.

  \<^bold>\<open>Not modelled.\<close> The assembly stubs (\<^verbatim>\<open>boot.asm\<close>, \<^verbatim>\<open>gdt_asm.asm\<close>, \<^verbatim>\<open>idt_asm.asm\<close>, \<^verbatim>\<open>isr_asm.asm\<close>; \<^verbatim>\<open>scheduler_asm.asm\<close> is unused), \<open>inb\<close> and the
  flag helpers of \<^verbatim>\<open>io.h\<close> (their effect is in the granularity of the steps), the waiting loops, \<open>worker_counter\<close> and the tasks
  \<open>task_a\<close> to \<open>task_e\<close> that nothing starts, and the test programs.
\<close>

end
